(* ===== verification/Prelude.thy ===== *)
theory Prelude
  imports Main "HOL-Library.Word"
begin

text \<open>
  Shared vocabulary of the development: the machine integers of the kernel (a Rust release
  build, so that \<open>+\<close> and \<open>-\<close> on \<open>usize\<close> and \<open>u64\<close> wrap around), byte strings and
  byte-string literals, little-endian words, the \<open>position\<close>/\<open>find\<close> scans over slot
  arrays that every table of the kernel uses, and the transition-system locale in which
  invariants of runs are proved.

  Conventions: \<open>usize\<close> and \<open>u64\<close> values are \<open>nat\<close>s below \<open>2 ^ 64\<close> with the
  wrap-around written out by \<open>wadd64\<close> and \<open>wsub64\<close>; \<open>i32\<close> and \<open>i64\<close> values are
  \<open>int\<close>s, with the \<open>as\<close> casts written out by \<open>as_i32\<close>, \<open>as_i64\<close> and \<open>as_usize\<close>;
  flag and mode words on which the code works bitwise are \<open>64 word\<close> or \<open>32 word\<close>; a
  byte is an \<open>8 word\<close>.
\<close>

unbundle bit_operations_syntax

declare One_nat_def [simp del]

named_theorems machine_simps \<open>evaluation of casts and wrapping arithmetic within range\<close>
named_theorems slot_simps \<open>facts on scans over slot arrays\<close>

section \<open>Machine integers\<close>

type_synonym u8 = "8 word"
type_synonym u32 = "32 word"
type_synonym u64 = "64 word"
type_synonym bytes = "u8 list"
type_synonym usize = nat
type_synonym i32 = int
type_synonym i64 = int

abbreviation two64 :: nat where
  "two64 \<equiv> 18446744073709551616"

abbreviation two63 :: nat where
  "two63 \<equiv> 9223372036854775808"

definition wadd64 :: "nat \<Rightarrow> nat \<Rightarrow> nat" where
  "wadd64 a b = (a + b) mod two64"

definition wsub64 :: "nat \<Rightarrow> nat \<Rightarrow> nat" where
  "wsub64 a b = (a + (two64 - b mod two64)) mod two64"

definition wmul64 :: "nat \<Rightarrow> nat \<Rightarrow> nat" where
  "wmul64 a b = (a * b) mod two64"

definition sat_add64 :: "nat \<Rightarrow> nat \<Rightarrow> nat" where
  "sat_add64 a b = min (a + b) (two64 - 1)"

definition sat_mul64 :: "nat \<Rightarrow> nat \<Rightarrow> nat" where
  "sat_mul64 a b = min (a * b) (two64 - 1)"

definition as_i64 :: "nat \<Rightarrow> i64" where
  "as_i64 n = (let m = n mod two64 in if m < two63 then int m else int m - int two64)"

definition as_i32 :: "nat \<Rightarrow> i32" where
  "as_i32 n = (let m = n mod 4294967296 in if m < 2147483648 then int m else int m - 4294967296)"

definition as_usize :: "i64 \<Rightarrow> usize" where
  "as_usize i = nat (i mod int two64)"

definition wrap_i32 :: "int \<Rightarrow> i32" where
  "wrap_i32 i = (i + 2147483648) mod 4294967296 - 2147483648"

definition wrap_i64 :: "int \<Rightarrow> i64" where
  "wrap_i64 i = (i + int two63) mod int two64 - int two63"

definition sat_add_i64 :: "i64 \<Rightarrow> i64 \<Rightarrow> i64" where
  "sat_add_i64 a b = max (- int two63) (min (a + b) (int two63 - 1))"

lemma wadd64_small [machine_simps]: "a + b < two64 \<Longrightarrow> wadd64 a b = a + b"
  by (simp add: wadd64_def)

lemma wadd64_lt [simp]: "wadd64 a b < two64"
  by (simp add: wadd64_def)

lemma wsub64_small [machine_simps]: "b \<le> a \<Longrightarrow> a < two64 \<Longrightarrow> wsub64 a b = a - b"
proof -
  assume le: "b \<le> a" and lt: "a < two64"
  then have "b mod two64 = b" by simp
  moreover have "a + (two64 - b) = (a - b) + two64" using le lt by simp
  ultimately have "wsub64 a b = (a - b + two64) mod two64" by (simp only: wsub64_def)
  also have "\<dots> = a - b" using lt by (simp only: mod_add_self2) simp
  finally show ?thesis .
qed

lemma wsub64_lt [simp]: "wsub64 a b < two64"
  by (simp add: wsub64_def)

lemma wmul64_small [machine_simps]: "a * b < two64 \<Longrightarrow> wmul64 a b = a * b"
  by (simp add: wmul64_def)

lemma sat_add64_small [machine_simps]: "a + b < two64 \<Longrightarrow> sat_add64 a b = a + b"
  by (simp add: sat_add64_def)

lemma sat_add64_ge: "a < two64 \<Longrightarrow> a \<le> sat_add64 a b"
  by (simp add: sat_add64_def)

lemma as_i64_small [machine_simps]: "n < two63 \<Longrightarrow> as_i64 n = int n"
  by (simp add: as_i64_def Let_def)

lemma as_i64_0 [simp]: "as_i64 0 = 0"
  by (simp add: as_i64_def Let_def)

lemma as_i32_small [machine_simps]: "n < 2147483648 \<Longrightarrow> as_i32 n = int n"
  by (simp add: as_i32_def Let_def)

lemma as_usize_nonneg [machine_simps]: "0 \<le> i \<Longrightarrow> i < int two64 \<Longrightarrow> as_usize i = nat i"
  by (simp add: as_usize_def)

lemma as_usize_as_i64 [simp]: "n < two63 \<Longrightarrow> as_usize (as_i64 n) = n"
  by (simp add: as_usize_def as_i64_small)

lemma wrap_i32_small [machine_simps]: "- 2147483648 \<le> i \<Longrightarrow> i < 2147483648 \<Longrightarrow> wrap_i32 i = i"
  by (simp add: wrap_i32_def)

lemma wrap_i64_small [machine_simps]: "- int two63 \<le> i \<Longrightarrow> i < int two63 \<Longrightarrow> wrap_i64 i = i"
  by (simp add: wrap_i64_def)

subsection \<open>Rounding to a power of two\<close>

text \<open>
  \<open>(x + (k - 1)) & !(k - 1)\<close> and \<open>x & !(k - 1)\<close> for \<open>k\<close> a power of two, on naturals;
  \<open>align_down_word\<close> ties the second to the bit operation of the source.
\<close>

definition align_down :: "nat \<Rightarrow> nat \<Rightarrow> nat" where
  "align_down k x = x - x mod k"

definition align_up :: "nat \<Rightarrow> nat \<Rightarrow> nat" where
  "align_up k x = align_down k (x + (k - 1))"

lemma align_down_le [simp]: "align_down k x \<le> x"
  by (simp add: align_down_def)

lemma align_down_dvd [simp]: "k dvd align_down k x"
  by (simp add: align_down_def)

lemma align_down_gt: "0 < k \<Longrightarrow> x < align_down k x + k"
  by (metis add.commute add_diff_cancel_left' align_down_def le_add_diff_inverse
      mod_less_divisor mod_less_eq_dividend nat_add_left_cancel_less)

lemma align_up_dvd [simp]: "k dvd align_up k x"
  by (simp add: align_up_def)

lemma align_up_ge: "0 < k \<Longrightarrow> x \<le> align_up k x"
  using align_down_gt [of k "x + (k - 1)"] by (simp add: align_up_def)

lemma align_up_lt: "0 < k \<Longrightarrow> align_up k x < x + k"
  using align_down_le [of k "x + (k - 1)"] unfolding align_up_def by linarith

lemma align_up_id: "0 < k \<Longrightarrow> k dvd x \<Longrightarrow> align_up k x = x"
proof -
  assume "0 < k" and "k dvd x"
  moreover from \<open>k dvd x\<close> obtain m where "x = k * m" ..
  ultimately have "(x + (k - 1)) mod k = k - 1" by (simp only: mod_mult_self4) simp
  then show ?thesis by (simp add: align_up_def align_down_def)
qed

lemma align_down_word:
  "unat ((w :: 'a::len word) AND NOT (mask n)) = align_down (2 ^ n) (unat w)"
proof -
  have "w AND NOT (mask n) = push_bit n (drop_bit n w)"
    by (rule bit_word_eqI) (auto simp: bit_simps)
  moreover have "unat (push_bit n (drop_bit n w)) = align_down (2 ^ n) (unat w)"
  proof -
    have "push_bit n (drop_bit n (unat w)) \<le> unat w"
      by (simp add: push_bit_eq_mult drop_bit_eq_div)
    moreover have "unat w < 2 ^ LENGTH('a)" by simp
    ultimately have "push_bit n (drop_bit n (unat w)) < 2 ^ LENGTH('a)" by linarith
    then have "unat (push_bit n (drop_bit n w)) = push_bit n (drop_bit n (unat w))"
      by (simp add: unsigned_push_bit_eq unsigned_drop_bit_eq take_bit_eq_mod)
    then show ?thesis
      by (simp add: align_down_def push_bit_eq_mult drop_bit_eq_div minus_mod_eq_div_mult)
  qed
  ultimately show ?thesis by simp
qed

section \<open>Outcomes\<close>

text \<open>The result of code that may panic (slice bounds, \<open>Vec\<close> capacity).\<close>

datatype 'a outcome = Done 'a | Panic

lemma map_outcome_Done_iff: "map_outcome f x = Done y \<longleftrightarrow> (\<exists>z. x = Done z \<and> y = f z)"
  by (cases x) auto

section \<open>Bytes\<close>

text \<open>Byte-string literals \<open>b"..."\<close>.\<close>

definition str :: "string \<Rightarrow> bytes" where
  "str s = map (\<lambda>c. of_nat (of_char c)) s"

text \<open>\<open>starts_with\<close> and \<open>ends_with\<close> of slices.\<close>

definition starts_with :: "'a list \<Rightarrow> 'a list \<Rightarrow> bool" where
  "starts_with xs p \<longleftrightarrow> take (length p) xs = p"

definition ends_with :: "'a list \<Rightarrow> 'a list \<Rightarrow> bool" where
  "ends_with xs p \<longleftrightarrow> starts_with (rev xs) (rev p)"

text \<open>\<open>Vec::resize(n, 0)\<close>.\<close>

definition resize0 :: "nat \<Rightarrow> bytes \<Rightarrow> bytes" where
  "resize0 n xs = take n xs @ replicate (n - length xs) 0"

text \<open>Overwriting the range that starts at \<open>i\<close> (\<open>xs[i..i + len].copy_from_slice(ys)\<close>).\<close>

definition overwrite :: "nat \<Rightarrow> 'a list \<Rightarrow> 'a list \<Rightarrow> 'a list" where
  "overwrite i ys xs = take i xs @ ys @ drop (i + length ys) xs"

text \<open>Little-endian encoding of \<open>k\<close> bytes, as a store of a \<open>u16\<close>, \<open>u32\<close> or \<open>u64\<close>.\<close>

fun le :: "nat \<Rightarrow> nat \<Rightarrow> bytes" where
  "le 0 v = []"
| "le (Suc k) v = of_nat (v mod 256) # le k (v div 256)"

fun unle :: "bytes \<Rightarrow> nat" where
  "unle [] = 0"
| "unle (b # bs) = unat b + 256 * unle bs"

lemma starts_with_iff: "starts_with xs p \<longleftrightarrow> (\<exists>ys. xs = p @ ys)"
proof
  assume "starts_with xs p"
  then have "xs = p @ drop (length p) xs"
    by (metis append_take_drop_id starts_with_def)
  then show "\<exists>ys. xs = p @ ys" ..
qed (auto simp: starts_with_def)

lemma starts_with_self_append [simp]: "starts_with (p @ ys) p"
  by (simp add: starts_with_def)

lemma starts_with_Nil [simp]: "starts_with xs []"
  by (simp add: starts_with_def)

lemma length_resize0 [simp]: "length (resize0 n xs) = n"
  by (simp add: resize0_def)

lemma length_overwrite [simp]: "i + length ys \<le> length xs \<Longrightarrow> length (overwrite i ys xs) = length xs"
  by (simp add: overwrite_def)

lemma overwrite_read:
  "i + length ys \<le> length xs \<Longrightarrow> take (length ys) (drop i (overwrite i ys xs)) = ys"
  by (simp add: overwrite_def)

lemma overwrite_before: "i + length ys \<le> length xs \<Longrightarrow> take i (overwrite i ys xs) = take i xs"
  by (simp add: overwrite_def)

lemma overwrite_after:
  "i + length ys \<le> length xs \<Longrightarrow> drop (i + length ys) (overwrite i ys xs) = drop (i + length ys) xs"
  by (simp add: overwrite_def)

lemma length_le [simp]: "length (le k v) = k"
  by (induction k arbitrary: v) auto

lemma unle_le [simp]: "unle (le k v) = v mod 256 ^ k"
proof (induction k arbitrary: v)
  case 0
  then show ?case by simp
next
  case (Suc k)
  have "unat (of_nat (v mod 256) :: u8) = v mod 256"
    by (simp add: unat_of_nat)
  with Suc show ?case by (simp add: mod_mult2_eq)
qed

section \<open>Scans over slot arrays\<close>

text \<open>\<open>iter().position(p)\<close>: the index of the first element that satisfies \<open>p\<close>.\<close>

primrec position :: "('a \<Rightarrow> bool) \<Rightarrow> 'a list \<Rightarrow> nat option" where
  "position P [] = None"
| "position P (x # xs) = (if P x then Some 0 else map_option Suc (position P xs))"

lemma position_None_iff [slot_simps]: "position P xs = None \<longleftrightarrow> (\<forall>x \<in> set xs. \<not> P x)"
  by (induction xs) auto

lemma position_Some_iff [slot_simps]:
  "position P xs = Some i \<longleftrightarrow> i < length xs \<and> P (xs ! i) \<and> (\<forall>j < i. \<not> P (xs ! j))"
proof (induction xs arbitrary: i)
  case Nil
  then show ?case by simp
next
  case (Cons x xs)
  show ?case by (cases i) (use Cons in \<open>auto simp: less_Suc_eq_0_disj\<close>)
qed

lemma position_SomeD:
  assumes "position P xs = Some i"
  shows "i < length xs" and "P (xs ! i)" and "xs ! i \<in> set xs"
  using assms by (auto simp: position_Some_iff)

lemma position_find: "List.find P xs = map_option ((!) xs) (position P xs)"
  by (induction xs) (auto simp: option.map_comp comp_def)

lemma position_unique:
  assumes "distinct (map f xs)" and "i < length xs"
  shows "position (\<lambda>x. f x = f (xs ! i)) xs = Some i"
proof -
  have "f (xs ! j) \<noteq> f (xs ! i)" if "j < i" for j
    using assms that nth_eq_iff_index_eq [of "map f xs" j i] by simp
  with assms(2) show ?thesis by (auto simp: position_Some_iff)
qed

text \<open>\<open>iter().rposition(p)\<close>: the index of the last element that satisfies \<open>p\<close>.\<close>

definition rposition :: "('a \<Rightarrow> bool) \<Rightarrow> 'a list \<Rightarrow> nat option" where
  "rposition P xs = map_option (\<lambda>j. length xs - 1 - j) (position P (rev xs))"

lemma rposition_Some_iff:
  "rposition P xs = Some i \<longleftrightarrow> i < length xs \<and> P (xs ! i) \<and> (\<forall>j < length xs. i < j \<longrightarrow> \<not> P (xs ! j))"
proof
  assume "rposition P xs = Some i"
  then obtain j where j: "position P (rev xs) = Some j" and i: "i = length xs - 1 - j"
    by (auto simp: rposition_def)
  then have lt: "j < length xs" and P: "P (rev xs ! j)" and min: "\<forall>k < j. \<not> P (rev xs ! k)"
    by (auto simp: position_Some_iff)
  have "\<not> P (xs ! k)" if "k < length xs" "i < k" for k
    using min [rule_format, of "length xs - 1 - k"] that i lt by (simp add: rev_nth One_nat_def)
  with lt P i show "i < length xs \<and> P (xs ! i) \<and> (\<forall>j < length xs. i < j \<longrightarrow> \<not> P (xs ! j))"
    by (auto simp: rev_nth One_nat_def)
next
  assume a: "i < length xs \<and> P (xs ! i) \<and> (\<forall>j < length xs. i < j \<longrightarrow> \<not> P (xs ! j))"
  then have "position P (rev xs) = Some (length xs - 1 - i)"
    by (auto simp: position_Some_iff rev_nth)
  with a show "rposition P xs = Some i" by (simp add: rposition_def)
qed

lemma rposition_None_iff: "rposition P xs = None \<longleftrightarrow> (\<forall>x \<in> set xs. \<not> P x)"
  by (simp add: rposition_def position_None_iff)

lemma find_append: "List.find P (xs @ ys) = (case List.find P xs of None \<Rightarrow> List.find P ys | r \<Rightarrow> r)"
  by (induction xs) auto

section \<open>Removal from vectors\<close>

text \<open>\<open>Vec::remove(i)\<close> and \<open>Vec::swap_remove(i)\<close>.\<close>

definition remove_at :: "nat \<Rightarrow> 'a list \<Rightarrow> 'a list" where
  "remove_at i xs = take i xs @ drop (i + 1) xs"

definition swap_remove :: "nat \<Rightarrow> 'a list \<Rightarrow> 'a list" where
  "swap_remove i xs = butlast (xs[i := last xs])"

lemma map_remove_at: "map f (remove_at i xs) = remove_at i (map f xs)"
  by (simp add: remove_at_def take_map drop_map)

lemma set_remove_at: "set (remove_at i xs) \<subseteq> set xs"
  by (auto simp: remove_at_def dest: in_set_takeD in_set_dropD)

lemma distinct_remove_at: "distinct xs \<Longrightarrow> distinct (remove_at i xs)"
  unfolding remove_at_def using set_take_disj_set_drop_if_distinct [of xs i "i + 1"] by simp

lemma length_remove_at: "length (remove_at i xs) \<le> length xs"
  by (simp add: remove_at_def)

lemma sum_list_remove_at:
  "i < length xs \<Longrightarrow> sum_list (map f (remove_at i xs)) + f (xs ! i) = (sum_list (map f xs) :: nat)"
proof -
  assume "i < length xs"
  then have "xs = take i xs @ xs ! i # drop (i + 1) xs" by (simp add: id_take_nth_drop One_nat_def)
  then have "sum_list (map f xs) = sum_list (map f (take i xs @ xs ! i # drop (i + 1) xs))" by (rule arg_cong)
  then show ?thesis by (simp add: remove_at_def)
qed

lemma sum_list_update_nat:
  "i < length xs \<Longrightarrow> sum_list (map f (xs[i := y])) + f (xs ! i) = sum_list (map f xs) + (f y :: nat)"
proof (induction xs arbitrary: i)
  case (Cons x xs)
  then show ?case by (cases i) auto
qed simp

lemma sum_list_swap_remove:
  "i < length xs \<Longrightarrow> sum_list (map f (swap_remove i xs)) + f (xs ! i) = (sum_list (map f xs) :: nat)"
proof -
  assume i: "i < length xs"
  let ?ys = "xs[i := last xs]"
  have "?ys \<noteq> []" using i by auto
  moreover have "last ?ys = last xs"
  proof -
    have "xs \<noteq> []" using i by auto
    then show ?thesis using i by (simp add: last_conv_nth nth_list_update)
  qed
  ultimately have "?ys = butlast ?ys @ [last xs]" by (metis append_butlast_last_id)
  then have "sum_list (map f ?ys) = sum_list (map f (butlast ?ys @ [last xs]))" by (rule arg_cong)
  then have "sum_list (map f ?ys) = sum_list (map f (butlast ?ys)) + f (last xs)" by simp
  with sum_list_update_nat [OF i, of f "last xs"] show ?thesis by (simp add: swap_remove_def)
qed

lemma set_swap_remove: "set (swap_remove i xs) \<subseteq> set xs"
proof -
  have "set (swap_remove i xs) \<subseteq> insert (last xs) (set xs)"
    using set_update_subset_insert [of xs i "last xs"] by (auto simp: swap_remove_def dest!: in_set_butlastD)
  moreover have "xs \<noteq> [] \<Longrightarrow> last xs \<in> set xs" by simp
  moreover have "xs = [] \<Longrightarrow> swap_remove i xs = []" by (simp add: swap_remove_def)
  ultimately show ?thesis by (cases "xs = []") auto
qed

section \<open>Transition systems\<close>

text \<open>
  The contract under which a component's invariant holds along every run: the invariant
  holds of the initial states and every step keeps it. Components interpret the locale on
  their own step relation and use \<open>reachable_inv\<close>.
\<close>

locale transition_system =
  fixes init :: "'s \<Rightarrow> bool"
    and step :: "'s \<Rightarrow> 's \<Rightarrow> bool"
    and inv :: "'s \<Rightarrow> bool"
  assumes init_inv: "init s \<Longrightarrow> inv s"
    and step_inv: "inv s \<Longrightarrow> step s t \<Longrightarrow> inv t"
begin

lemma rtranclp_inv: "step\<^sup>*\<^sup>* s t \<Longrightarrow> inv s \<Longrightarrow> inv t"
  by (induction rule: rtranclp_induct) (auto intro: step_inv)

lemma reachable_inv: "init s \<Longrightarrow> step\<^sup>*\<^sup>* s t \<Longrightarrow> inv t"
  by (blast intro: rtranclp_inv init_inv)

end

end
