(* ===== verification/Pipe.thy ===== *)
theory Pipe
  imports Prelude
begin

text \<open>
  The pipes of \<open>src/src/pipe.rs\<close>: sixteen slots, each a ring buffer of 4096 bytes with a
  read and a write descriptor. \<open>pipes\<close> is the global state (\<open>PIPES\<close> and
  \<open>NEXT_PIPE_FD\<close>); each public function is one definition that takes the state and returns
  its result, the bytes it stores into the caller's buffer where it has one, and the new
  state. A data pointer with its count is a byte list. The blocking branch of \<open>read\<close>
  gives up the CPU: the third component of its result says whether it called
  \<open>sched::yield_current\<close>. Logging is left out.

  The locale \<open>byte_fifo\<close> is what the users of a pipe rely on; it is interpreted on the ring
  buffer, and the order of bytes through a pipe descriptor pair follows from it.
\<close>

section \<open>Data\<close>

definition PIPE_BUF_SIZE :: nat where
  "PIPE_BUF_SIZE = 4096"

definition MAX_PIPES :: nat where
  "MAX_PIPES = 16"

record pipe =
  p_buf :: bytes
  p_head :: usize
  p_tail :: usize
  p_read_fd :: i32
  p_write_fd :: i32
  p_nonblock :: bool

record pipes =
  next_pipe_fd :: nat
  pipe_slots :: "pipe list"

definition pipe_empty :: pipe where
  "pipe_empty = \<lparr>p_buf = replicate PIPE_BUF_SIZE 0, p_head = 0, p_tail = 0,
     p_read_fd = -1, p_write_fd = -1, p_nonblock = False\<rparr>"

definition pipe_is_empty :: "pipe \<Rightarrow> bool" where
  "pipe_is_empty p \<longleftrightarrow> p_head p = p_tail p"

definition pipes_init :: pipes where
  "pipes_init = \<lparr>next_pipe_fd = 200, pipe_slots = replicate MAX_PIPES pipe_empty\<rparr>"

section \<open>Operations\<close>

definition pipe_create :: "pipes \<Rightarrow> (i32 \<times> i32) \<times> pipes" where
  "pipe_create s =
     (let read_fd = as_i32 (next_pipe_fd s);
          write_fd = as_i32 (wadd64 (next_pipe_fd s) 1);
          s = s\<lparr>next_pipe_fd := wadd64 (wadd64 (next_pipe_fd s) 1) 1\<rparr>
      in case position (\<lambda>p. p_read_fd p = -1) (pipe_slots s) of
           Some i \<Rightarrow>
             ((read_fd, write_fd),
              s\<lparr>pipe_slots := (pipe_slots s)[i :=
                  pipe_empty\<lparr>p_read_fd := read_fd, p_write_fd := write_fd\<rparr>]\<rparr>)
         | None \<Rightarrow> ((read_fd, write_fd), s))"

text \<open>The loop of \<open>write\<close>, with the bytes still to be written and the count so far.\<close>

fun pipe_write_loop :: "bytes \<Rightarrow> pipe \<Rightarrow> nat \<Rightarrow> nat \<times> pipe" where
  "pipe_write_loop [] p written = (written, p)"
| "pipe_write_loop (byte # data) p written =
     (let next_tail = (p_tail p + 1) mod PIPE_BUF_SIZE
      in if next_tail = p_head p then (written, p)
         else pipe_write_loop data
                (p\<lparr>p_buf := (p_buf p)[p_tail p := byte], p_tail := next_tail\<rparr>) (written + 1))"

definition pipe_write :: "i32 \<Rightarrow> bytes \<Rightarrow> pipes \<Rightarrow> i64 \<times> pipes" where
  "pipe_write fd data s =
     (case position (\<lambda>p. p_write_fd p = fd) (pipe_slots s) of
        Some i \<Rightarrow>
          (let (written, p) = pipe_write_loop data (pipe_slots s ! i) 0
           in (as_i64 written, s\<lparr>pipe_slots := (pipe_slots s)[i := p]\<rparr>))
      | None \<Rightarrow> (-9, s))"

text \<open>The loop of \<open>read\<close>, with the number of bytes still wanted.\<close>

fun pipe_read_loop :: "nat \<Rightarrow> pipe \<Rightarrow> bytes \<times> pipe" where
  "pipe_read_loop 0 p = ([], p)"
| "pipe_read_loop (Suc n) p =
     (if p_head p = p_tail p then ([], p)
      else let (bs, q) = pipe_read_loop n (p\<lparr>p_head := (p_head p + 1) mod PIPE_BUF_SIZE\<rparr>)
           in (p_buf p ! p_head p # bs, q))"

definition pipe_read :: "i32 \<Rightarrow> usize \<Rightarrow> pipes \<Rightarrow> i64 \<times> bytes \<times> bool \<times> pipes" where
  "pipe_read fd count s =
     (case position (\<lambda>p. p_read_fd p = fd) (pipe_slots s) of
        Some i \<Rightarrow>
          (let p = pipe_slots s ! i
           in if \<not> pipe_is_empty p then
                (let (bs, q) = pipe_read_loop count p
                 in (as_i64 (length bs), bs, False, s\<lparr>pipe_slots := (pipe_slots s)[i := q]\<rparr>))
              else if p_write_fd p = -1 then (0, [], False, s)
              else if p_nonblock p then (-11, [], False, s)
              else (-4, [], True, s))
      | None \<Rightarrow> (-9, [], False, s))"

definition pipe_set_nonblock :: "i32 \<Rightarrow> bool \<Rightarrow> pipes \<Rightarrow> pipes" where
  "pipe_set_nonblock fd nb s =
     (case position (\<lambda>p. p_read_fd p = fd \<or> p_write_fd p = fd) (pipe_slots s) of
        Some i \<Rightarrow> s\<lparr>pipe_slots := (pipe_slots s)[i := (pipe_slots s ! i)\<lparr>p_nonblock := nb\<rparr>]\<rparr>
      | None \<Rightarrow> s)"

definition is_pipe_fd :: "i32 \<Rightarrow> pipes \<Rightarrow> bool" where
  "is_pipe_fd fd s \<longleftrightarrow> list_ex (\<lambda>p. p_read_fd p = fd \<or> p_write_fd p = fd) (pipe_slots s)"

definition pipe_any_has_data :: "pipes \<Rightarrow> bool" where
  "pipe_any_has_data s \<longleftrightarrow> list_ex (\<lambda>p. p_read_fd p \<noteq> -1 \<and> \<not> pipe_is_empty p) (pipe_slots s)"

definition pipe_has_data :: "i32 \<Rightarrow> pipes \<Rightarrow> bool" where
  "pipe_has_data fd s \<longleftrightarrow> list_ex (\<lambda>p. p_read_fd p = fd \<and> \<not> pipe_is_empty p) (pipe_slots s)"

definition pipe_close :: "i32 \<Rightarrow> pipes \<Rightarrow> pipes" where
  "pipe_close fd s = s\<lparr>pipe_slots :=
     map (\<lambda>p. if p_read_fd p = fd
              then (if p_write_fd p = -1 then pipe_empty else p\<lparr>p_read_fd := -1\<rparr>)
              else p) (pipe_slots s)\<rparr>"

section \<open>The contents of a ring\<close>

definition pipe_len :: "pipe \<Rightarrow> nat" where
  "pipe_len p = (p_tail p + PIPE_BUF_SIZE - p_head p) mod PIPE_BUF_SIZE"

definition pipe_contents :: "pipe \<Rightarrow> bytes" where
  "pipe_contents p = map (\<lambda>i. p_buf p ! ((p_head p + i) mod PIPE_BUF_SIZE)) [0..<pipe_len p]"

definition pipe_wf :: "pipe \<Rightarrow> bool" where
  "pipe_wf p \<longleftrightarrow> length (p_buf p) = PIPE_BUF_SIZE \<and> p_head p < PIPE_BUF_SIZE \<and> p_tail p < PIPE_BUF_SIZE"

lemma length_pipe_contents [simp]: "length (pipe_contents p) = pipe_len p"
  by (simp add: pipe_contents_def)

lemma pipe_size_pos [simp]: "0 < PIPE_BUF_SIZE" "1 < PIPE_BUF_SIZE"
  by (simp_all add: PIPE_BUF_SIZE_def)

lemma ring_mod: "x < n + n \<Longrightarrow> x mod n = (if x < n then x else x - n)" for x n :: nat
  by (simp add: mod_if [of x n])

lemma pipe_wf_empty [simp]: "pipe_wf pipe_empty"
  by (simp add: pipe_wf_def pipe_empty_def)

lemma pipe_contents_empty [simp]: "pipe_contents pipe_empty = []"
  by (simp add: pipe_contents_def pipe_len_def pipe_empty_def)

lemma pipe_len_lt: "pipe_len p < PIPE_BUF_SIZE"
  by (simp add: pipe_len_def)

lemma pipe_len_if:
  "pipe_wf p \<Longrightarrow> pipe_len p =
     (if p_head p \<le> p_tail p then p_tail p - p_head p else p_tail p + PIPE_BUF_SIZE - p_head p)"
  using ring_mod [of "p_tail p + PIPE_BUF_SIZE - p_head p" PIPE_BUF_SIZE]
  by (auto simp: pipe_len_def pipe_wf_def)

lemma ring_next: "x < PIPE_BUF_SIZE \<Longrightarrow>
    (x + 1) mod PIPE_BUF_SIZE = (if x + 1 = PIPE_BUF_SIZE then 0 else x + 1)"
  by auto

lemma pipe_is_empty_iff: "pipe_wf p \<Longrightarrow> pipe_is_empty p \<longleftrightarrow> pipe_contents p = []"
  by (auto simp: pipe_is_empty_def pipe_contents_def pipe_len_if pipe_wf_def)

lemma pipe_full_iff:
  assumes "pipe_wf p"
  shows "(p_tail p + 1) mod PIPE_BUF_SIZE = p_head p \<longleftrightarrow> pipe_len p = PIPE_BUF_SIZE - 1"
proof -
  from assms have "p_tail p < PIPE_BUF_SIZE" and "p_head p < PIPE_BUF_SIZE"
    by (simp_all add: pipe_wf_def)
  then show ?thesis
    unfolding ring_next [OF \<open>p_tail p < PIPE_BUF_SIZE\<close>] pipe_len_if [OF assms]
    by (auto split: if_splits)
qed

text \<open>One byte in, one byte out.\<close>

lemma pipe_push_len:
  assumes "pipe_wf p" and "(p_tail p + 1) mod PIPE_BUF_SIZE \<noteq> p_head p"
    and "length b = PIPE_BUF_SIZE"
  shows "pipe_len (p\<lparr>p_buf := b, p_tail := (p_tail p + 1) mod PIPE_BUF_SIZE\<rparr>) = pipe_len p + 1"
    (is "pipe_len ?q = _")
proof -
  have wf: "pipe_wf ?q" using assms by (simp add: pipe_wf_def)
  from assms(1) have t: "p_tail p < PIPE_BUF_SIZE" and "p_head p < PIPE_BUF_SIZE"
    by (simp_all add: pipe_wf_def)
  with assms(2) show ?thesis
    unfolding pipe_len_if [OF wf] pipe_len_if [OF assms(1)]
    using ring_next [OF t] by (auto split: if_splits)
qed

lemma pipe_index_tail:
  assumes "pipe_wf p"
  shows "(p_head p + pipe_len p) mod PIPE_BUF_SIZE = p_tail p"
  using assms ring_mod [of "p_head p + pipe_len p" PIPE_BUF_SIZE] pipe_len_lt [of p]
  by (auto simp: pipe_len_if pipe_wf_def split: if_splits)

lemma pipe_index_other:
  assumes "pipe_wf p" and "i < pipe_len p"
  shows "(p_head p + i) mod PIPE_BUF_SIZE \<noteq> p_tail p"
  using assms ring_mod [of "p_head p + i" PIPE_BUF_SIZE] pipe_len_lt [of p]
  by (auto simp: pipe_len_if pipe_wf_def split: if_splits)

lemma pipe_push_contents:
  fixes b :: u8
  assumes wf: "pipe_wf p" and room: "(p_tail p + 1) mod PIPE_BUF_SIZE \<noteq> p_head p"
  defines "q \<equiv> p\<lparr>p_buf := (p_buf p)[p_tail p := b], p_tail := (p_tail p + 1) mod PIPE_BUF_SIZE\<rparr>"
  shows "pipe_wf q" and "pipe_contents q = pipe_contents p @ [b]"
proof -
  show "pipe_wf q" using wf by (simp add: q_def pipe_wf_def)
  have len: "pipe_len q = pipe_len p + 1"
    using pipe_push_len [OF wf room, of "(p_buf p)[p_tail p := b]"] wf
    by (simp add: q_def pipe_wf_def)
  have "p_buf q ! ((p_head q + i) mod PIPE_BUF_SIZE) =
        (if i = pipe_len p then b else p_buf p ! ((p_head p + i) mod PIPE_BUF_SIZE))"
    if "i < pipe_len p + 1" for i
    using wf that pipe_index_tail [OF wf] pipe_index_other [OF wf, of i]
    by (auto simp: q_def pipe_wf_def nth_list_update)
  then show "pipe_contents q = pipe_contents p @ [b]"
    by (simp add: pipe_contents_def len One_nat_def)
qed

lemma pipe_pop_contents:
  assumes wf: "pipe_wf p" and some: "p_head p \<noteq> p_tail p"
  defines "q \<equiv> p\<lparr>p_head := (p_head p + 1) mod PIPE_BUF_SIZE\<rparr>"
  shows "pipe_wf q" and "pipe_contents p = p_buf p ! p_head p # pipe_contents q"
proof -
  show wfq: "pipe_wf q" using wf by (simp add: q_def pipe_wf_def)
  have h: "p_head p < PIPE_BUF_SIZE" and t: "p_tail p < PIPE_BUF_SIZE"
    using wf by (simp_all add: pipe_wf_def)
  have hq: "p_head q = (if p_head p + 1 = PIPE_BUF_SIZE then 0 else p_head p + 1)"
    using ring_next [OF h] by (simp add: q_def)
  have tq: "p_tail q = p_tail p" by (simp add: q_def)
  have len: "pipe_len p = Suc (pipe_len q)"
    unfolding pipe_len_if [OF wf] pipe_len_if [OF wfq] hq tq using some h t
    by (auto split: if_splits)
  have "(p_head q + i) mod PIPE_BUF_SIZE = (p_head p + Suc i) mod PIPE_BUF_SIZE" for i
    by (simp add: q_def mod_simps One_nat_def)
  moreover have "p_head p mod PIPE_BUF_SIZE = p_head p" using wf by (simp add: pipe_wf_def)
  moreover have "p_buf q = p_buf p" by (simp add: q_def)
  ultimately show "pipe_contents p = p_buf p ! p_head p # pipe_contents q"
    unfolding pipe_contents_def len by (simp add: map_upt_Suc del: upt_Suc)
qed

text \<open>The loops.\<close>

lemma pipe_write_loop_spec:
  assumes "pipe_wf p" and "pipe_write_loop data p w = (w', q)"
  shows "pipe_wf q \<and> w' = w + min (length data) (PIPE_BUF_SIZE - 1 - pipe_len p) \<and>
    pipe_contents q = pipe_contents p @ take (w' - w) data \<and>
    p_read_fd q = p_read_fd p \<and> p_write_fd q = p_write_fd p \<and> p_nonblock q = p_nonblock p"
  using assms
proof (induction data arbitrary: p w)
  case Nil
  then show ?case by simp
next
  case (Cons b data)
  show ?case
  proof (cases "(p_tail p + 1) mod PIPE_BUF_SIZE = p_head p")
    case True
    with Cons.prems pipe_full_iff [of p] show ?thesis by auto
  next
    case False
    let ?p = "p\<lparr>p_buf := (p_buf p)[p_tail p := b], p_tail := (p_tail p + 1) mod PIPE_BUF_SIZE\<rparr>"
    note push = pipe_push_contents [OF Cons.prems(1) False, of b]
    have len: "pipe_len ?p = pipe_len p + 1"
      using Cons.prems(1) by (intro pipe_push_len [OF _ False]) (simp_all add: pipe_wf_def)
    have lt: "pipe_len p + 1 < PIPE_BUF_SIZE"
      using False pipe_full_iff [OF Cons.prems(1)] pipe_len_lt [of p] by linarith
    have "pipe_write_loop data ?p (w + 1) = (w', q)"
      using Cons.prems(2) False by (simp add: Let_def)
    from Cons.IH [OF push(1) this] len lt push(2) show ?thesis
      by (auto simp: min_def take_Cons' One_nat_def split: if_splits)
  qed
qed

lemma pipe_read_loop_spec:
  assumes "pipe_wf p" and "pipe_read_loop n p = (bs, q)"
  shows "pipe_wf q \<and> bs = take n (pipe_contents p) \<and> pipe_contents q = drop n (pipe_contents p) \<and>
    p_read_fd q = p_read_fd p \<and> p_write_fd q = p_write_fd p \<and> p_nonblock q = p_nonblock p"
  using assms
proof (induction n arbitrary: p bs q)
  case 0
  then show ?case by simp
next
  case (Suc n)
  show ?case
  proof (cases "p_head p = p_tail p")
    case True
    with Suc.prems pipe_is_empty_iff [of p] show ?thesis by (auto simp: pipe_is_empty_def)
  next
    case False
    let ?p = "p\<lparr>p_head := (p_head p + 1) mod PIPE_BUF_SIZE\<rparr>"
    note pop = pipe_pop_contents [OF Suc.prems(1) False]
    obtain bs' where "pipe_read_loop n ?p = (bs', q)" and "bs = p_buf p ! p_head p # bs'"
      using Suc.prems(2) False by (auto split: prod.splits)
    with Suc.IH [OF pop(1)] pop(2) show ?thesis by simp
  qed
qed

section \<open>The interface of a byte channel\<close>

text \<open>
  A channel takes a prefix of the bytes it is offered and gives a prefix of the bytes it
  holds. \<open>transfer\<close> runs a sequence of offers (\<open>Inl\<close>) and requests (\<open>Inr\<close>) and
  collects the bytes accepted and the bytes delivered.
\<close>

fun transfer :: "(bytes \<Rightarrow> 'q \<Rightarrow> nat \<times> 'q) \<Rightarrow> (nat \<Rightarrow> 'q \<Rightarrow> bytes \<times> 'q) \<Rightarrow>
    (bytes + nat) list \<Rightarrow> 'q \<Rightarrow> bytes \<times> bytes \<times> 'q" where
  "transfer put get [] q = ([], [], q)"
| "transfer put get (Inl bs # ops) q =
     (let (n, q) = put bs q; (accepted, delivered, q) = transfer put get ops q
      in (take n bs @ accepted, delivered, q))"
| "transfer put get (Inr n # ops) q =
     (let (bs, q) = get n q; (accepted, delivered, q) = transfer put get ops q
      in (accepted, bs @ delivered, q))"

locale byte_fifo =
  fixes put :: "bytes \<Rightarrow> 'q \<Rightarrow> nat \<times> 'q"
    and get :: "nat \<Rightarrow> 'q \<Rightarrow> bytes \<times> 'q"
    and contents :: "'q \<Rightarrow> bytes"
    and capacity :: nat
    and ok :: "'q \<Rightarrow> bool"
  assumes put_spec: "ok q \<Longrightarrow> put bs q = (n, q') \<Longrightarrow>
      ok q' \<and> n = min (length bs) (capacity - length (contents q)) \<and>
      contents q' = contents q @ take n bs"
    and get_spec: "ok q \<Longrightarrow> get n q = (bs, q') \<Longrightarrow>
      ok q' \<and> bs = take n (contents q) \<and> contents q' = drop n (contents q)"
begin

lemma transfer_fifo:
  "ok q \<Longrightarrow> transfer put get ops q = (accepted, delivered, q') \<Longrightarrow>
     ok q' \<and> delivered @ contents q' = contents q @ accepted"
proof (induction ops arbitrary: q accepted delivered)
  case Nil
  then show ?case by simp
next
  case (Cons x ops)
  show ?case
  proof (cases x)
    case (Inl bs)
    obtain n r where put: "put bs q = (n, r)" by force
    obtain a d where run: "transfer put get ops r = (a, d, q')" and "accepted = take n bs @ a"
      and "delivered = d"
      using Cons.prems(2) Inl put by (auto split: prod.splits)
    moreover have r: "ok r" "contents r = contents q @ take n bs"
      using put_spec [OF Cons.prems(1) put] by simp_all
    ultimately show ?thesis using Cons.IH [OF r(1) run] by simp
  next
    case (Inr n)
    obtain bs r where get: "get n q = (bs, r)" by force
    obtain a d where run: "transfer put get ops r = (a, d, q')" and "accepted = a"
      and "delivered = bs @ d"
      using Cons.prems(2) Inr get by (auto split: prod.splits)
    moreover have r: "ok r" "contents q = bs @ contents r"
      using get_spec [OF Cons.prems(1) get] by simp_all
    ultimately show ?thesis using Cons.IH [OF r(1) run] by simp
  qed
qed

lemma put_all: "ok q \<Longrightarrow> length (contents q) + length bs \<le> capacity \<Longrightarrow> fst (put bs q) = length bs"
  using put_spec [of q bs "fst (put bs q)" "snd (put bs q)"] by simp

end

interpretation ring: byte_fifo "\<lambda>bs p. pipe_write_loop bs p 0" pipe_read_loop pipe_contents
    "PIPE_BUF_SIZE - 1" pipe_wf
proof
  fix p bs n q
  assume "pipe_wf p" and "pipe_write_loop bs p 0 = (n, q)"
  from pipe_write_loop_spec [OF this]
  show "pipe_wf q \<and> n = min (length bs) (PIPE_BUF_SIZE - 1 - length (pipe_contents p)) \<and>
      pipe_contents q = pipe_contents p @ take n bs" by simp
next
  fix p n bs q
  assume "pipe_wf p" and "pipe_read_loop n p = (bs, q)"
  from pipe_read_loop_spec [OF this]
  show "pipe_wf q \<and> bs = take n (pipe_contents p) \<and> pipe_contents q = drop n (pipe_contents p)"
    by simp
qed

section \<open>The slot table\<close>

text \<open>
  The invariant of \<open>PIPES\<close> and \<open>NEXT_PIPE_FD\<close>: the descriptors of a pipe with an open
  read end are consecutive and even/odd, below the counter, and no two slots share one.
  \<open>pipe_step\<close> is any public operation; the counter stays below \<open>2 ^ 31\<close>, where its cast to
  \<open>i32\<close> is exact.
\<close>

definition pipe_fds_ok :: "nat \<Rightarrow> pipe \<Rightarrow> bool" where
  "pipe_fds_ok nx p \<longleftrightarrow>
     (p_read_fd p \<noteq> -1 \<longrightarrow> 200 \<le> p_read_fd p \<and> p_write_fd p = p_read_fd p + 1 \<and> even (p_read_fd p)) \<and>
     (p_write_fd p \<noteq> -1 \<longrightarrow> odd (p_write_fd p) \<and> 200 < p_write_fd p \<and> p_write_fd p < int nx)"

definition pipes_inv :: "pipes \<Rightarrow> bool" where
  "pipes_inv s \<longleftrightarrow>
     length (pipe_slots s) = MAX_PIPES \<and> even (next_pipe_fd s) \<and>
     200 \<le> next_pipe_fd s \<and> next_pipe_fd s \<le> 2147483648 \<and>
     (\<forall>p \<in> set (pipe_slots s). pipe_wf p \<and> pipe_fds_ok (next_pipe_fd s) p) \<and>
     (\<forall>i < MAX_PIPES. \<forall>j < MAX_PIPES. i \<noteq> j \<longrightarrow> p_write_fd (pipe_slots s ! i) \<noteq> -1 \<longrightarrow>
        p_write_fd (pipe_slots s ! i) \<noteq> p_write_fd (pipe_slots s ! j))"

inductive pipe_step :: "pipes \<Rightarrow> pipes \<Rightarrow> bool" where
  create: "next_pipe_fd s + 2 \<le> 2147483648 \<Longrightarrow> pipe_step s (snd (pipe_create s))"
| pwrite: "pipe_step s (snd (pipe_write fd data s))"
| pread: "pipe_step s (snd (snd (snd (pipe_read fd count s))))"
| nonblock: "pipe_step s (pipe_set_nonblock fd nb s)"
| close: "fd \<noteq> -1 \<Longrightarrow> pipe_step s (pipe_close fd s)"

lemma pipes_inv_slot:
  assumes "pipes_inv s" and "i < MAX_PIPES"
  shows "pipe_wf (pipe_slots s ! i)" and "pipe_fds_ok (next_pipe_fd s) (pipe_slots s ! i)"
  using assms by (simp_all add: pipes_inv_def)

text \<open>Replacing a slot by one with the same descriptors keeps the invariant.\<close>

lemma pipes_inv_update:
  assumes inv: "pipes_inv s" and i: "i < MAX_PIPES" and wf: "pipe_wf q"
    and fds: "p_read_fd q = p_read_fd (pipe_slots s ! i)" "p_write_fd q = p_write_fd (pipe_slots s ! i)"
  shows "pipes_inv (s\<lparr>pipe_slots := (pipe_slots s)[i := q]\<rparr>)"
proof -
  have ok: "pipe_fds_ok (next_pipe_fd s) q"
    using pipes_inv_slot(2) [OF inv i] fds by (simp add: pipe_fds_ok_def)
  have same: "p_write_fd ((pipe_slots s)[i := q] ! j) = p_write_fd (pipe_slots s ! j)"
    if "j < MAX_PIPES" for j
    using that inv fds(2) by (cases "i = j") (simp_all add: pipes_inv_def)
  show ?thesis
    unfolding pipes_inv_def using inv wf ok same
    by (auto simp: pipes_inv_def dest!: set_update_subset_insert [THEN subsetD])
qed

lemma pipes_inv_init: "pipes_inv pipes_init"
  by (auto simp: pipes_inv_def pipes_init_def pipe_fds_ok_def) (simp add: pipe_empty_def)+

lemma pipe_fds_ok_mono: "pipe_fds_ok n p \<Longrightarrow> n \<le> m \<Longrightarrow> pipe_fds_ok m p"
  by (auto simp: pipe_fds_ok_def)

lemma pipes_inv_create:
  assumes inv: "pipes_inv s" and room: "next_pipe_fd s + 2 \<le> 2147483648"
  shows "pipes_inv (snd (pipe_create s))"
proof -
  let ?n = "next_pipe_fd s"
  have n: "even ?n" "200 \<le> ?n" using inv by (simp_all add: pipes_inv_def)
  have nx: "wadd64 (wadd64 ?n 1) 1 = ?n + 2" "as_i32 ?n = int ?n" "as_i32 (wadd64 ?n 1) = int ?n + 1"
    using room by (simp_all add: machine_simps)
  have old: "\<forall>p \<in> set (pipe_slots s). pipe_wf p \<and> pipe_fds_ok (?n + 2) p"
    using inv by (auto simp: pipes_inv_def intro: pipe_fds_ok_mono)
  show ?thesis
  proof (cases "position (\<lambda>p. p_read_fd p = -1) (pipe_slots s)")
    case None
    then show ?thesis using inv room old
      by (simp add: pipe_create_def Let_def nx pipes_inv_def)
  next
    case (Some i)
    let ?q = "pipe_empty\<lparr>p_read_fd := int ?n, p_write_fd := int ?n + 1\<rparr>"
    have i: "i < MAX_PIPES" using Some inv by (auto simp: pipes_inv_def dest: position_SomeD)
    have q: "pipe_wf ?q" "pipe_fds_ok (?n + 2) ?q"
      using n by (auto simp: pipe_fds_ok_def pipe_wf_def pipe_empty_def)
    have fresh: "p_write_fd (pipe_slots s ! j) \<noteq> int ?n + 1" if "j < MAX_PIPES" for j
      using pipes_inv_slot(2) [OF inv that] n by (auto simp: pipe_fds_ok_def)
    show ?thesis
      using inv room old q fresh fresh [symmetric] i Some
      by (auto simp: pipe_create_def Let_def nx pipes_inv_def nth_list_update
          dest!: set_update_subset_insert [THEN subsetD])
  qed
qed

lemma pipes_inv_write: "pipes_inv s \<Longrightarrow> pipes_inv (snd (pipe_write fd data s))"
proof -
  assume inv: "pipes_inv s"
  show ?thesis
  proof (cases "position (\<lambda>p. p_write_fd p = fd) (pipe_slots s)")
    case None
    with inv show ?thesis by (simp add: pipe_write_def)
  next
    case (Some i)
    then have i: "i < MAX_PIPES" using inv by (auto simp: pipes_inv_def dest: position_SomeD)
    obtain w q where w: "pipe_write_loop data (pipe_slots s ! i) 0 = (w, q)" by force
    show ?thesis
      using pipes_inv_update [OF inv i] pipe_write_loop_spec [OF pipes_inv_slot(1) [OF inv i] w] Some w
      by (simp add: pipe_write_def)
  qed
qed

lemma pipes_inv_read: "pipes_inv s \<Longrightarrow> pipes_inv (snd (snd (snd (pipe_read fd count s))))"
proof -
  assume inv: "pipes_inv s"
  show ?thesis
  proof (cases "position (\<lambda>p. p_read_fd p = fd) (pipe_slots s)")
    case None
    with inv show ?thesis by (simp add: pipe_read_def)
  next
    case (Some i)
    then have i: "i < MAX_PIPES" using inv by (auto simp: pipes_inv_def dest: position_SomeD)
    obtain bs q where r: "pipe_read_loop count (pipe_slots s ! i) = (bs, q)" by force
    show ?thesis
      using pipes_inv_update [OF inv i] pipe_read_loop_spec [OF pipes_inv_slot(1) [OF inv i] r]
        Some r inv
      by (simp add: pipe_read_def Let_def)
  qed
qed

lemma pipes_inv_nonblock: "pipes_inv s \<Longrightarrow> pipes_inv (pipe_set_nonblock fd nb s)"
proof -
  assume inv: "pipes_inv s"
  show ?thesis
  proof (cases "position (\<lambda>p. p_read_fd p = fd \<or> p_write_fd p = fd) (pipe_slots s)")
    case None
    with inv show ?thesis by (simp add: pipe_set_nonblock_def)
  next
    case (Some i)
    then have i: "i < MAX_PIPES" using inv by (auto simp: pipes_inv_def dest: position_SomeD)
    show ?thesis
      using pipes_inv_update [OF inv i] pipes_inv_slot(1) [OF inv i] Some
      by (simp add: pipe_set_nonblock_def pipe_wf_def)
  qed
qed

lemma pipes_inv_close: "pipes_inv s \<Longrightarrow> fd \<noteq> -1 \<Longrightarrow> pipes_inv (pipe_close fd s)"
proof -
  assume inv: "pipes_inv s" and fd: "fd \<noteq> -1"
  define f where "f = (\<lambda>p. if p_read_fd p = fd then (if p_write_fd p = -1 then pipe_empty
      else p\<lparr>p_read_fd := -1\<rparr>) else p)"
  have close: "pipe_close fd s = s\<lparr>pipe_slots := map f (pipe_slots s)\<rparr>"
    by (simp add: pipe_close_def f_def)
  have wr: "p_write_fd (f p) = p_write_fd p" for p by (simp add: f_def pipe_empty_def)
  have ok: "pipe_wf (f p) \<and> pipe_fds_ok n (f p)" if "pipe_wf p" "pipe_fds_ok n p" for p n
    using that fd by (auto simp: f_def pipe_fds_ok_def pipe_wf_def pipe_empty_def)
  show ?thesis
    using inv ok by (auto simp: close pipes_inv_def wr)
qed

interpretation pipe_sys: transition_system "\<lambda>s. s = pipes_init" pipe_step pipes_inv
  by unfold_locales
    (auto elim!: pipe_step.cases intro: pipes_inv_init pipes_inv_create pipes_inv_write
      pipes_inv_read pipes_inv_nonblock pipes_inv_close)

section \<open>A descriptor pair as a byte channel\<close>

definition pipe_put :: "i32 \<Rightarrow> bytes \<Rightarrow> pipes \<Rightarrow> nat \<times> pipes" where
  "pipe_put wfd bs s = (let (r, s) = pipe_write wfd bs s in (nat r, s))"

definition pipe_get :: "i32 \<Rightarrow> nat \<Rightarrow> pipes \<Rightarrow> bytes \<times> pipes" where
  "pipe_get rfd n s = (let (r, bs, yielded, s) = pipe_read rfd n s in (bs, s))"

definition chan_ok :: "i32 \<Rightarrow> i32 \<Rightarrow> nat \<Rightarrow> pipes \<Rightarrow> bool" where
  "chan_ok rfd wfd i s \<longleftrightarrow> pipes_inv s \<and> i < MAX_PIPES \<and> rfd \<noteq> -1 \<and>
     p_read_fd (pipe_slots s ! i) = rfd \<and> p_write_fd (pipe_slots s ! i) = wfd"

lemma pipe_unique_writer:
  assumes inv: "pipes_inv s" and i: "i < MAX_PIPES" and wfd: "p_write_fd (pipe_slots s ! i) = wfd"
    and live: "wfd \<noteq> -1"
  shows "position (\<lambda>p. p_write_fd p = wfd) (pipe_slots s) = Some i"
proof -
  have "p_write_fd (pipe_slots s ! j) \<noteq> wfd" if "j < i" for j
  proof -
    have "j < MAX_PIPES" and "i \<noteq> j" using that i by simp_all
    then show ?thesis using inv i wfd live unfolding pipes_inv_def by metis
  qed
  with inv i wfd show ?thesis by (simp add: position_Some_iff pipes_inv_def)
qed

lemma pipe_unique_reader:
  assumes inv: "pipes_inv s" and i: "i < MAX_PIPES" and rfd: "p_read_fd (pipe_slots s ! i) = rfd"
    and live: "rfd \<noteq> -1"
  shows "position (\<lambda>p. p_read_fd p = rfd) (pipe_slots s) = Some i"
proof -
  have w: "p_write_fd (pipe_slots s ! i) = rfd + 1" "p_write_fd (pipe_slots s ! i) \<noteq> -1"
    using pipes_inv_slot(2) [OF inv i] rfd live by (auto simp: pipe_fds_ok_def)
  have "p_read_fd (pipe_slots s ! j) \<noteq> rfd" if "j < i" for j
  proof
    assume eq: "p_read_fd (pipe_slots s ! j) = rfd"
    have j: "j < MAX_PIPES" "i \<noteq> j" using that i by simp_all
    have "p_write_fd (pipe_slots s ! j) = rfd + 1"
      using pipes_inv_slot(2) [OF inv j(1)] eq live by (auto simp: pipe_fds_ok_def)
    with w j i inv show False unfolding pipes_inv_def by metis
  qed
  with inv i rfd show ?thesis by (simp add: position_Some_iff pipes_inv_def)
qed

lemma pipe_put_slot:
  assumes ok: "chan_ok rfd wfd i s" and w: "pipe_write_loop bs (pipe_slots s ! i) 0 = (n, q)"
  shows "pipe_put wfd bs s = (n, s\<lparr>pipe_slots := (pipe_slots s)[i := q]\<rparr>)"
proof -
  have inv: "pipes_inv s" and i: "i < MAX_PIPES" using ok by (simp_all add: chan_ok_def)
  have "wfd \<noteq> -1" using ok pipes_inv_slot(2) [OF inv i] by (auto simp: chan_ok_def pipe_fds_ok_def)
  then have pos: "position (\<lambda>p. p_write_fd p = wfd) (pipe_slots s) = Some i"
    using ok by (intro pipe_unique_writer) (simp_all add: chan_ok_def)
  have "n < PIPE_BUF_SIZE"
    using pipe_write_loop_spec [OF pipes_inv_slot(1) [OF inv i] w] pipe_size_pos by linarith
  then have "n < two63" by (simp add: PIPE_BUF_SIZE_def)
  with pos w show ?thesis by (simp add: pipe_put_def pipe_write_def machine_simps)
qed

lemma pipe_get_slot:
  assumes ok: "chan_ok rfd wfd i s" and r: "pipe_read_loop n (pipe_slots s ! i) = (bs, q)"
  shows "pipe_get rfd n s = (bs, s\<lparr>pipe_slots := (pipe_slots s)[i := q]\<rparr>)"
proof -
  have inv: "pipes_inv s" and i: "i < MAX_PIPES" using ok by (simp_all add: chan_ok_def)
  have pos: "position (\<lambda>p. p_read_fd p = rfd) (pipe_slots s) = Some i"
    using ok by (intro pipe_unique_reader) (simp_all add: chan_ok_def)
  show ?thesis
  proof (cases "pipe_is_empty (pipe_slots s ! i)")
    case True
    then have "bs = []" and "q = pipe_slots s ! i"
      using r by (cases n, simp_all add: pipe_is_empty_def)+
    with True pos show ?thesis by (simp add: pipe_get_def pipe_read_def Let_def)
  next
    case False
    with pos r show ?thesis by (simp add: pipe_get_def pipe_read_def)
  qed
qed

interpretation chan: byte_fifo "pipe_put wfd" "pipe_get rfd" "\<lambda>s. pipe_contents (pipe_slots s ! i)"
    "PIPE_BUF_SIZE - 1" "chan_ok rfd wfd i" for rfd wfd i
proof
  fix s bs n s'
  assume ok: "chan_ok rfd wfd i s" and put: "pipe_put wfd bs s = (n, s')"
  obtain m q where w: "pipe_write_loop bs (pipe_slots s ! i) 0 = (m, q)" by force
  have inv: "pipes_inv s" and i: "i < MAX_PIPES" and "length (pipe_slots s) = MAX_PIPES"
    using ok by (simp_all add: chan_ok_def pipes_inv_def)
  moreover have "m = n" and "s' = s\<lparr>pipe_slots := (pipe_slots s)[i := q]\<rparr>"
    using put pipe_put_slot [OF ok w] by simp_all
  moreover note ring.put_spec [OF pipes_inv_slot(1) [OF inv i] w]
    pipe_write_loop_spec [OF pipes_inv_slot(1) [OF inv i] w] pipes_inv_update [OF inv i]
  ultimately show "chan_ok rfd wfd i s' \<and>
      n = min (length bs) (PIPE_BUF_SIZE - 1 - length (pipe_contents (pipe_slots s ! i))) \<and>
      pipe_contents (pipe_slots s' ! i) = pipe_contents (pipe_slots s ! i) @ take n bs"
    using ok by (simp add: chan_ok_def)
next
  fix s n bs s'
  assume ok: "chan_ok rfd wfd i s" and get: "pipe_get rfd n s = (bs, s')"
  obtain bs' q where r: "pipe_read_loop n (pipe_slots s ! i) = (bs', q)" by force
  have inv: "pipes_inv s" and i: "i < MAX_PIPES" and "length (pipe_slots s) = MAX_PIPES"
    using ok by (simp_all add: chan_ok_def pipes_inv_def)
  moreover have "bs' = bs" and "s' = s\<lparr>pipe_slots := (pipe_slots s)[i := q]\<rparr>"
    using get pipe_get_slot [OF ok r] by simp_all
  moreover note pipe_read_loop_spec [OF pipes_inv_slot(1) [OF inv i] r] pipes_inv_update [OF inv i]
  ultimately show "chan_ok rfd wfd i s' \<and> bs = take n (pipe_contents (pipe_slots s ! i)) \<and>
      pipe_contents (pipe_slots s' ! i) = drop n (pipe_contents (pipe_slots s ! i))"
    using ok by (simp add: chan_ok_def)
qed

section \<open>Properties\<close>

lemma pipe_create_slot:
  assumes "pipes_inv s" and "next_pipe_fd s + 2 \<le> 2147483648"
    and "position (\<lambda>p. p_read_fd p = -1) (pipe_slots s) = Some i"
  shows "pipe_create s = ((int (next_pipe_fd s), int (next_pipe_fd s) + 1),
    s\<lparr>next_pipe_fd := next_pipe_fd s + 2, pipe_slots := (pipe_slots s)[i :=
       pipe_empty\<lparr>p_read_fd := int (next_pipe_fd s), p_write_fd := int (next_pipe_fd s) + 1\<rparr>]\<rparr>)"
  using assms by (simp add: pipe_create_def Let_def machine_simps)

text \<open>C6 (pipe order): in any state the pipe operations can reach, whatever sequence of writes
  to the write end and reads from the read end of a pipe is made, the bytes read, followed
  by the bytes still in the ring, are exactly the bytes that were in the ring followed by
  the bytes the writes accepted: nothing is lost, duplicated, reordered or invented.\<close>

theorem pipe_fifo:
  assumes "pipe_step\<^sup>*\<^sup>* pipes_init s" and "i < MAX_PIPES"
    and "p_read_fd (pipe_slots s ! i) = rfd" and "rfd \<noteq> -1"
    and "p_write_fd (pipe_slots s ! i) = wfd"
    and "transfer (pipe_put wfd) (pipe_get rfd) ops s = (accepted, delivered, s')"
  shows "delivered @ pipe_contents (pipe_slots s' ! i) = pipe_contents (pipe_slots s ! i) @ accepted"
proof -
  have "pipes_inv s" using pipe_sys.reachable_inv [OF refl assms(1)] .
  with assms have "chan_ok rfd wfd i s" by (simp add: chan_ok_def)
  from chan.transfer_fifo [OF this assms(6)] show ?thesis ..
qed

theorem pipe_fifo_witness:
  "\<exists>accepted delivered s'.
     transfer (pipe_put 201) (pipe_get 200) [Inl [1, 2, 3], Inr 2] (snd (pipe_create pipes_init)) =
       (accepted, delivered, s') \<and>
     delivered @ pipe_contents (pipe_slots s' ! 0) =
       pipe_contents (pipe_slots (snd (pipe_create pipes_init)) ! 0) @ accepted"
proof -
  let ?s = "snd (pipe_create pipes_init)"
  obtain accepted delivered s' where
    run: "transfer (pipe_put 201) (pipe_get 200) [Inl [1, 2, 3], Inr 2] ?s = (accepted, delivered, s')"
    by (metis prod_cases3)
  have "position (\<lambda>p. p_read_fd p = -1) (pipe_slots pipes_init) = Some 0"
    by (simp add: pipes_init_def MAX_PIPES_def pipe_empty_def position_Some_iff)
  then have "?s = pipes_init\<lparr>next_pipe_fd := 202, pipe_slots := (pipe_slots pipes_init)[0 :=
       pipe_empty\<lparr>p_read_fd := 200, p_write_fd := 201\<rparr>]\<rparr>"
    using pipe_create_slot [OF pipes_inv_init] by (simp add: pipes_init_def)
  then have slot: "p_read_fd (pipe_slots ?s ! 0) = 200" "p_write_fd (pipe_slots ?s ! 0) = 201"
    by (simp_all add: pipes_init_def MAX_PIPES_def)
  have "pipe_step\<^sup>*\<^sup>* pipes_init ?s"
    by (rule r_into_rtranclp, rule pipe_step.create) (simp add: pipes_init_def)
  then have "delivered @ pipe_contents (pipe_slots s' ! 0) = pipe_contents (pipe_slots ?s ! 0) @ accepted"
    by (rule pipe_fifo [OF _ _ slot(1) _ slot(2) run]) (simp_all add: MAX_PIPES_def)
  with run show ?thesis by blast
qed



text \<open>(descriptor \<open>-1\<close> reaches a free slot): a free slot is marked by \<open>-1\<close> in both
  descriptor fields, and the lookups of \<open>is_pipe_fd\<close>, \<open>write\<close> and \<open>read\<close> compare the
  caller's descriptor with those fields; so on a fresh table descriptor \<open>-1\<close> counts as a
  pipe, a write to it is accepted instead of failing with \<open>EBADF\<close>, and a read gives the byte back.\<close>

theorem pipe_minus_one_accepted:
  "is_pipe_fd (-1) pipes_init \<and>
   fst (pipe_write (-1) [b] pipes_init) = 1 \<and>
   (let (r, bs, yielded, s) = pipe_read (-1) 1 (snd (pipe_write (-1) [b] pipes_init))
    in r = 1 \<and> bs = [b])"
proof -
  have slots: "pipe_slots pipes_init = pipe_empty # replicate 15 pipe_empty"
    by (simp add: pipes_init_def MAX_PIPES_def numeral_eq_Suc)
  have fields: "p_read_fd pipe_empty = -1" "pipe_len pipe_empty = 0"
    by (simp_all add: pipe_empty_def pipe_len_def)
  obtain n q where w: "pipe_write_loop [b] pipe_empty 0 = (n, q)" by force
  have spec: "n = 1" "pipe_wf q" "pipe_contents q = [b]" "p_read_fd q = -1"
    using pipe_write_loop_spec [OF pipe_wf_empty w] fields
    by (auto simp: PIPE_BUF_SIZE_def)
  obtain bs q' where r: "pipe_read_loop 1 q = (bs, q')" by force
  have read: "bs = [b]" using pipe_read_loop_spec [OF spec(2) r] spec(3) by simp
  have ne: "\<not> pipe_is_empty q" using pipe_is_empty_iff [OF spec(2)] spec(3) by simp
  have wr: "pipe_write (-1) [b] pipes_init =
      (1, pipes_init\<lparr>pipe_slots := q # replicate 15 pipe_empty\<rparr>)"
    using w spec(1) by (simp add: pipe_write_def slots) (simp add: pipe_empty_def as_i64_small)
  show ?thesis
    using r read ne spec(4)
    by (simp add: wr is_pipe_fd_def slots pipe_read_def as_i64_small) (simp add: pipe_empty_def)
qed

end
