(* ===== verification/Btree.thy ===== *)
theory Btree
  imports Prelude "HOL-Library.List_Lexorder"
begin

text \<open>
  The ordered map \<open>alloc::collections::BTreeMap\<close> that \<open>src/src/tmpfs.rs\<close> keeps its nodes
  in, as far as the kernel uses it: lookup, insertion, removal and iteration over the keys
  in ascending order. The model is an association list with strictly ascending keys; keys
  of type \<open>Vec<u8>\<close> are compared lexicographically, as the list order of
  \<open>List_Lexorder\<close> does. The locale \<open>ordered_map\<close> is the interface the file system relies on.
\<close>

named_theorems bt_simps \<open>laws of the ordered map\<close>

type_synonym ('k, 'v) btree = "('k \<times> 'v) list"

definition bt_get :: "('k, 'v) btree \<Rightarrow> 'k \<Rightarrow> 'v option" where
  "bt_get t = map_of t"

fun bt_insert :: "'k::linorder \<Rightarrow> 'v \<Rightarrow> ('k, 'v) btree \<Rightarrow> ('k, 'v) btree" where
  "bt_insert k v [] = [(k, v)]"
| "bt_insert k v ((k', v') # t) =
     (if k < k' then (k, v) # (k', v') # t
      else if k = k' then (k, v) # t
      else (k', v') # bt_insert k v t)"

definition bt_remove :: "'k \<Rightarrow> ('k, 'v) btree \<Rightarrow> ('k, 'v) btree" where
  "bt_remove k t = filter (\<lambda>p. fst p \<noteq> k) t"

definition bt_keys :: "('k, 'v) btree \<Rightarrow> 'k list" where
  "bt_keys t = map fst t"

definition bt_inv :: "('k::linorder, 'v) btree \<Rightarrow> bool" where
  "bt_inv t \<longleftrightarrow> sorted_wrt (<) (map fst t)"

text \<open>A measure summed over the values, as the byte accounting of the file system.\<close>

definition bt_sum :: "('v \<Rightarrow> nat) \<Rightarrow> ('k, 'v) btree \<Rightarrow> nat" where
  "bt_sum f t = (\<Sum>(k, v) \<leftarrow> t. f v)"

section \<open>The interface\<close>

locale ordered_map =
  fixes get :: "'m \<Rightarrow> 'k::linorder \<Rightarrow> 'v option"
    and insert :: "'k \<Rightarrow> 'v \<Rightarrow> 'm \<Rightarrow> 'm"
    and remove :: "'k \<Rightarrow> 'm \<Rightarrow> 'm"
    and keys :: "'m \<Rightarrow> 'k list"
    and invar :: "'m \<Rightarrow> bool"
  assumes get_insert: "invar m \<Longrightarrow> get (insert k v m) = (get m)(k \<mapsto> v)"
    and get_remove: "invar m \<Longrightarrow> get (remove k m) = (get m)(k := None)"
    and keys_dom: "invar m \<Longrightarrow> set (keys m) = dom (get m)"
    and keys_ascending: "invar m \<Longrightarrow> sorted_wrt (<) (keys m)"
    and invar_insert: "invar m \<Longrightarrow> invar (insert k v m)"
    and invar_remove: "invar m \<Longrightarrow> invar (remove k m)"
begin

lemma keys_distinct: "invar m \<Longrightarrow> distinct (keys m)"
  using keys_ascending [of m] by (simp add: strict_sorted_iff)

lemma remove_insert_get:
  "invar m \<Longrightarrow> get (insert k' v (remove k m)) = (get m)(k := None, k' \<mapsto> v)"
  by (simp add: get_insert get_remove invar_remove)

lemma keys_insert_fresh:
  assumes "invar m" and "get m k = None"
  shows "set (keys (insert k v m)) = Set.insert k (set (keys m))"
  using assms by (simp add: keys_dom invar_insert get_insert)

end

lemma bt_insert_fst: "set (map fst (bt_insert k v t)) = insert k (set (map fst t))"
  by (induction t rule: bt_insert.induct [of _ k v]) auto

lemma bt_inv_Nil [simp]: "bt_inv []"
  by (simp add: bt_inv_def)

lemma bt_inv_Cons: "bt_inv ((k, v) # t) \<longleftrightarrow> (\<forall>p \<in> set t. k < fst p) \<and> bt_inv t"
  by (auto simp: bt_inv_def)

lemma bt_get_Nil [simp]: "bt_get [] k = None"
  by (simp add: bt_get_def)

lemma bt_get_Cons: "bt_get ((k', v) # t) k = (if k = k' then Some v else bt_get t k)"
  by (simp add: bt_get_def)

lemma bt_get_smaller: "\<forall>p \<in> set t. k < fst p \<Longrightarrow> bt_get t (k :: 'k::linorder) = None"
  by (auto simp: bt_get_def map_of_eq_None_iff)

lemma bt_get_insert [bt_simps]:
  "bt_get (bt_insert k v t) k' = (if k' = k then Some v else bt_get t k')"
  by (induction t rule: bt_insert.induct [of _ k v]) (auto simp: bt_get_Cons)

lemma bt_get_remove [bt_simps]: "bt_get (bt_remove k t) k' = (if k' = k then None else bt_get t k')"
  by (induction t) (auto simp: bt_remove_def bt_get_Cons)

lemma bt_inv_insert [bt_simps]: "bt_inv t \<Longrightarrow> bt_inv (bt_insert k v t)"
proof (induction t rule: bt_insert.induct [of _ k v])
  case (1 k v)
  then show ?case by (simp add: bt_inv_Cons)
next
  case (2 k v k' v' t)
  have "\<forall>p \<in> set (bt_insert k v t). fst p = k \<or> fst p \<in> set (map fst t)"
    using bt_insert_fst [of k v t] by force
  with 2 show ?case by (force simp: bt_inv_Cons)
qed

lemma bt_inv_remove [bt_simps]: "bt_inv t \<Longrightarrow> bt_inv (bt_remove k t)"
  by (induction t) (auto simp: bt_remove_def bt_inv_Cons split: prod.splits)

lemma bt_keys_dom: "set (bt_keys t) = dom (bt_get t)"
  by (auto simp: bt_keys_def bt_get_def dom_map_of_conv_image_fst)

interpretation bt: ordered_map bt_get bt_insert bt_remove bt_keys bt_inv
  by unfold_locales
    (auto simp: bt_simps bt_keys_dom fun_eq_iff, simp add: bt_inv_def bt_keys_def)

section \<open>Sums over the values\<close>

lemma bt_sum_Nil [simp]: "bt_sum f [] = 0"
  by (simp add: bt_sum_def)

lemma bt_sum_Cons [simp]: "bt_sum f ((k, v) # t) = f v + bt_sum f t"
  by (simp add: bt_sum_def)

lemma bt_sum_ge: "bt_get t k = Some v \<Longrightarrow> f v \<le> bt_sum f t"
  by (induction t) (auto simp: bt_get_Cons split: if_splits)

lemma bt_sum_remove_absent: "bt_get t k = None \<Longrightarrow> bt_sum f (bt_remove k t) = bt_sum f t"
  by (induction t) (auto simp: bt_remove_def bt_get_Cons split: if_splits)

lemma bt_sum_remove:
  "bt_inv t \<Longrightarrow> bt_get t k = Some v \<Longrightarrow> bt_sum f (bt_remove k t) + f v = bt_sum f t"
proof (induction t)
  case Nil
  then show ?case by simp
next
  case (Cons p t)
  obtain k' v' where p: "p = (k', v')" by force
  show ?case
  proof (cases "k = k'")
    case True
    then have "bt_get t k = None"
      using Cons.prems p by (intro bt_get_smaller) (auto simp: bt_inv_Cons)
    then have "bt_sum f (bt_remove k t) = bt_sum f t" by (rule bt_sum_remove_absent)
    with True Cons.prems p show ?thesis by (simp add: bt_get_Cons bt_remove_def)
  next
    case False
    with Cons p show ?thesis by (simp add: bt_get_Cons bt_inv_Cons bt_remove_def)
  qed
qed

lemma bt_sum_insert_fresh:
  "bt_get t k = None \<Longrightarrow> bt_sum f (bt_insert k v t) = f v + bt_sum f t"
  by (induction t rule: bt_insert.induct [of _ k v]) (auto simp: bt_get_Cons split: if_splits)

lemma bt_sum_insert:
  "bt_inv t \<Longrightarrow> bt_get t k = Some v \<Longrightarrow> bt_sum f (bt_insert k v' t) + f v = bt_sum f t + f v'"
proof (induction t rule: bt_insert.induct [of _ k v'])
  case (1 k v')
  then show ?case by simp
next
  case (2 k v' k' w t)
  have "\<not> k < k'"
  proof
    assume "k < k'"
    then have "bt_get ((k', w) # t) k = None"
      using "2.prems" by (intro bt_get_smaller) (auto simp: bt_inv_Cons)
    with "2.prems" show False by simp
  qed
  with 2 show ?case by (auto simp: bt_get_Cons bt_inv_Cons split: if_splits)
qed

end
