(* ===== verification/Dirent.thy ===== *)
theory Dirent
  imports Prelude
begin

text \<open>
  The \<open>linux_dirent64\<close> records that \<open>tmpfs::getdents64\<close> (\<open>src/src/tmpfs.rs\<close>) and
  \<open>vfs::fill_dir_entries\<close> (\<open>src/src/vfs.rs\<close>) store into the caller's buffer:
  \<open>d_ino\<close> (8 bytes), \<open>d_off\<close> (8), \<open>d_reclen\<close> (2), \<open>d_type\<close> (1), the name, a NUL and zero
  padding to a multiple of eight. \<open>dirents\<close> is the reader's side (the walk of a C library
  over the returned buffer by \<open>d_reclen\<close>), against which both producers are proved.
\<close>

record dirent =
  d_ino :: nat
  d_off :: nat
  d_type :: u8
  d_name :: bytes

definition dirent_reclen :: "bytes \<Rightarrow> nat" where
  "dirent_reclen name = align_down 8 (19 + length name + 1 + 7)"

definition dirent_bytes :: "dirent \<Rightarrow> bytes" where
  "dirent_bytes d =
     le 8 (d_ino d) @ le 8 (d_off d) @ le 2 (dirent_reclen (d_name d)) @ [d_type d] @
     d_name d @ [0] @ replicate (dirent_reclen (d_name d) - (19 + length (d_name d) + 1)) 0"

definition dirent_ok :: "dirent \<Rightarrow> bool" where
  "dirent_ok d \<longleftrightarrow> d_ino d < two64 \<and> d_off d < two64 \<and> 0 \<notin> set (d_name d) \<and>
     length (d_name d) < 65500"

definition dirent_first :: "bytes \<Rightarrow> dirent" where
  "dirent_first bs = \<lparr>d_ino = unle (take 8 bs), d_off = unle (take 8 (drop 8 bs)),
     d_type = bs ! 18, d_name = takeWhile (\<lambda>b. b \<noteq> 0) (drop 19 bs)\<rparr>"

function dirents :: "bytes \<Rightarrow> dirent list" where
  "dirents bs =
     (if length bs < 20 then []
      else let reclen = unle (take 2 (drop 16 bs))
           in if reclen < 20 then [] else dirent_first bs # dirents (drop reclen bs))"
  by pat_completeness auto

termination by (relation "measure length") auto

declare dirents.simps [simp del]

lemma dirent_reclen_ge: "length name + 20 \<le> dirent_reclen name"
  using align_up_ge [of 8 "length name + 20"]
  by (simp add: dirent_reclen_def align_up_def add.commute)

lemma dirent_reclen_lt: "dirent_reclen name < length name + 28"
  using align_up_lt [of 8 "length name + 20"]
  by (simp add: dirent_reclen_def align_up_def add.commute)

lemma dirent_reclen_aligned: "8 dvd dirent_reclen name"
  by (simp add: dirent_reclen_def)

lemma length_dirent_bytes [simp]: "length (dirent_bytes d) = dirent_reclen (d_name d)"
  using dirent_reclen_ge [of "d_name d"] by (simp add: dirent_bytes_def)

lemma dirent_bytes_reclen:
  assumes "dirent_ok d"
  shows "unle (take 2 (drop 16 (dirent_bytes d @ rest))) = dirent_reclen (d_name d)"
  using assms dirent_reclen_lt [of "d_name d"]
  by (simp add: dirent_bytes_def dirent_ok_def)

lemma dirent_first_bytes:
  assumes "dirent_ok d"
  shows "dirent_first (dirent_bytes d @ rest) = d"
proof -
  have nth: "(le 8 a @ le 8 b @ le 2 c @ t # ys) ! 18 = t" for a b c t ys
    by (simp add: nth_append)
  have name: "takeWhile (\<lambda>b. b \<noteq> 0) (n @ 0 # ys) = n" if "0 \<notin> set n" for n ys :: bytes
    using that by (induction n) auto
  show ?thesis
    using assms by (cases d) (simp add: dirent_first_def dirent_bytes_def dirent_ok_def nth name)
qed

lemma dirents_Cons:
  assumes "dirent_ok d"
  shows "dirents (dirent_bytes d @ rest) = d # dirents rest"
proof -
  define bs where "bs = dirent_bytes d @ rest"
  have "unle (take 2 (drop 16 bs)) = dirent_reclen (d_name d)" "dirent_first bs = d"
    using assms by (simp_all only: bs_def dirent_bytes_reclen dirent_first_bytes)
  moreover have "20 \<le> dirent_reclen (d_name d)"
    using dirent_reclen_ge [of "d_name d"] by simp
  ultimately have "dirents bs = d # dirents (drop (dirent_reclen (d_name d)) bs)"
    by (subst dirents.simps) (simp add: bs_def Let_def)
  then show ?thesis by (simp add: bs_def)
qed

lemma dirents_Nil [simp]: "dirents [] = []"
  by (subst dirents.simps) simp

text \<open>A reader recovers exactly the records that were laid out, in order.\<close>

lemma dirents_concat:
  "\<forall>d \<in> set ds. dirent_ok d \<Longrightarrow> dirents (concat (map dirent_bytes ds)) = ds"
  by (induction ds) (auto simp: dirents_Cons)

end
