(* ===== verification/Tmpfs.thy ===== *)
theory Tmpfs
  imports Btree Dirent
begin

text \<open>
  The writable in-memory file system of \<open>src/src/tmpfs.rs\<close>, mounted at \<open>/tmp\<close> and
  \<open>/dev/shm\<close>. \<open>tmpfs_state\<close> is \<open>TMPFS\<close> together with \<open>NEXT_FD\<close>; every public function
  holds the lock for its whole duration, so it is one definition from state to result and
  state. A source pointer with its count is a byte list; a function that stores through a
  pointer returns the bytes it stores from there on. \<open>truncate\<close> and \<open>ftruncate\<close> may panic
  in \<open>Vec::resize\<close> and return an \<open>outcome\<close>. Logging and heap exhaustion are left out.
\<close>

section \<open>Data\<close>

definition CAP :: usize where
  "CAP = 4 * 1024 * 1024"

definition TMPFS_FD_BASE :: i32 where
  "TMPFS_FD_BASE = 4000"

definition TMPFS_MAX_OPEN :: usize where
  "TMPFS_MAX_OPEN = 256"

definition O_WRONLY :: u64 where "O_WRONLY = 1"
definition O_RDWR :: u64 where "O_RDWR = 2"
definition O_CREAT :: u64 where "O_CREAT = 64"
definition O_EXCL :: u64 where "O_EXCL = 128"
definition O_TRUNC :: u64 where "O_TRUNC = 512"
definition O_APPEND :: u64 where "O_APPEND = 1024"
definition O_DIRECTORY :: u64 where "O_DIRECTORY = 65536"

definition ENOENT :: i64 where "ENOENT = -2"
definition EBADF :: i64 where "EBADF = -9"
definition EEXIST :: i64 where "EEXIST = -17"
definition ENOTDIR :: i64 where "ENOTDIR = -20"
definition EISDIR :: i64 where "EISDIR = -21"
definition EINVAL :: i64 where "EINVAL = -22"
definition EMFILE :: i64 where "EMFILE = -24"
definition ENOSPC :: i64 where "ENOSPC = -28"
definition ENOTEMPTY :: i64 where "ENOTEMPTY = -39"

lemmas tmpfs_consts = CAP_def TMPFS_FD_BASE_def TMPFS_MAX_OPEN_def O_WRONLY_def O_RDWR_def
  O_CREAT_def O_EXCL_def O_TRUNC_def O_APPEND_def O_DIRECTORY_def
lemmas errnos = ENOENT_def EBADF_def EEXIST_def ENOTDIR_def EISDIR_def EINVAL_def EMFILE_def
  ENOSPC_def ENOTEMPTY_def

record node =
  n_is_dir :: bool
  n_data :: bytes
  n_mode :: u32

record open_fd =
  o_fd :: i32
  o_path :: bytes
  o_pos :: usize
  o_append :: bool
  o_writable :: bool
  o_is_dir :: bool
  o_dir_pos :: usize

record tmpfs =
  t_nodes :: "(bytes, node) btree"
  t_total :: usize
  t_open :: "open_fd list"

record tmpfs_state =
  tfs :: "tmpfs option"
  tmpfs_next_fd :: i32

definition tmpfs_boot :: tmpfs_state where
  "tmpfs_boot = \<lparr>tfs = None, tmpfs_next_fd = TMPFS_FD_BASE\<rparr>"

definition new_file :: "u32 \<Rightarrow> node" where
  "new_file mode = \<lparr>n_is_dir = False, n_data = [], n_mode = mode\<rparr>"

definition new_dir :: "u32 \<Rightarrow> node" where
  "new_dir mode = \<lparr>n_is_dir = True, n_data = [], n_mode = mode\<rparr>"

definition tmpfs_init :: "tmpfs_state \<Rightarrow> tmpfs_state" where
  "tmpfs_init st =
     (let nodes = bt_insert (str ''/tmp'') (new_dir 511) [];
          nodes = bt_insert (str ''/dev/shm'') (new_dir 511) nodes
      in st\<lparr>tfs := Some \<lparr>t_nodes = nodes, t_total = 0, t_open = []\<rparr>\<rparr>)"

section \<open>Paths\<close>

definition slash :: u8 where
  "slash = 47"

function drop_trailing :: "bytes \<Rightarrow> bytes" where
  "drop_trailing v = (if 1 < length v \<and> last v = slash then drop_trailing (butlast v) else v)"
  by pat_completeness auto

termination by (relation "measure length") auto

declare drop_trailing.simps [simp del]

definition norm :: "bytes \<Rightarrow> bytes" where
  "norm path =
     (let p = (if starts_with path (str ''./'') then drop 1 path else path);
          v = (if starts_with p (str ''/'') then p else slash # p)
      in drop_trailing v)"

definition parent :: "bytes \<Rightarrow> bytes" where
  "parent path =
     (case rposition (\<lambda>c. c = slash) path of
        Some i \<Rightarrow> if i = 0 then str ''/'' else take i path
      | None \<Rightarrow> str ''/'')"

definition owns_path :: "bytes \<Rightarrow> bool" where
  "owns_path path =
     (let n = norm path
      in n = str ''/tmp'' \<or> starts_with n (str ''/tmp/'') \<or>
         n = str ''/dev/shm'' \<or> starts_with n (str ''/dev/shm/''))"

section \<open>Descriptors and status\<close>

definition is_tmpfs_fd :: "i32 \<Rightarrow> tmpfs_state \<Rightarrow> bool" where
  "is_tmpfs_fd fd st \<longleftrightarrow>
     (if fd < TMPFS_FD_BASE then False
      else case tfs st of Some fs \<Rightarrow> list_ex (\<lambda>od. o_fd od = fd) (t_open fs) | None \<Rightarrow> False)"

definition tmpfs_alloc_fd :: "tmpfs_state \<Rightarrow> i32 \<times> tmpfs_state" where
  "tmpfs_alloc_fd st =
     (tmpfs_next_fd st, st\<lparr>tmpfs_next_fd := wrap_i32 (tmpfs_next_fd st + 1)\<rparr>)"

text \<open>The 144 bytes of \<open>struct stat\<close>; nothing is stored through a null pointer.\<close>

definition write_stat :: "usize \<Rightarrow> u32 \<Rightarrow> usize \<Rightarrow> bytes" where
  "write_stat buf mode st_size =
     (if buf = 0 then []
      else overwrite 16 (le 8 (if mode AND 16384 \<noteq> 0 then 2 else 1))
           (overwrite 56 (le 8 4096)
           (overwrite 48 (le 8 st_size)
           (overwrite 24 (le 4 (unat mode))
           (replicate 144 0)))))"

definition node_stat :: "node \<Rightarrow> usize \<Rightarrow> bytes" where
  "node_stat nd buf =
     (if n_is_dir nd then write_stat buf (16384 OR (n_mode nd AND 4095)) 4096
      else write_stat buf (32768 OR (n_mode nd AND 4095)) (length (n_data nd)))"

definition tmpfs_stat :: "bytes \<Rightarrow> usize \<Rightarrow> tmpfs_state \<Rightarrow> i64 \<times> bytes" where
  "tmpfs_stat path buf st =
     (let n = norm path
      in case tfs st of
           None \<Rightarrow> (ENOENT, [])
         | Some fs \<Rightarrow>
             (case bt_get (t_nodes fs) n of
                Some nd \<Rightarrow> (0, node_stat nd buf)
              | None \<Rightarrow> (ENOENT, [])))"

text \<open>\<open>fs.nodes.get(path).map(|nd| nd.data.len()).unwrap_or(0)\<close>.\<close>

definition file_len :: "tmpfs \<Rightarrow> bytes \<Rightarrow> usize" where
  "file_len fs path = (case bt_get (t_nodes fs) path of Some nd \<Rightarrow> length (n_data nd) | None \<Rightarrow> 0)"

section \<open>Opening\<close>

definition push_open :: "open_fd \<Rightarrow> tmpfs \<Rightarrow> tmpfs" where
  "push_open od fs = fs\<lparr>t_open := t_open fs @ [od]\<rparr>"

definition tmpfs_open :: "bytes \<Rightarrow> u64 \<Rightarrow> u64 \<Rightarrow> tmpfs_state \<Rightarrow> i64 \<times> tmpfs_state" where
  "tmpfs_open path flags mode st =
     (let n = norm path
      in case tfs st of
        None \<Rightarrow> (ENOENT, st)
      | Some fs \<Rightarrow>
        if TMPFS_MAX_OPEN \<le> length (t_open fs) then (EMFILE, st)
        else
          let acc = flags AND 3;
              writable = (acc = O_WRONLY \<or> acc = O_RDWR)
          in case bt_get (t_nodes fs) n of
            Some nd \<Rightarrow>
              if flags AND O_CREAT \<noteq> 0 \<and> flags AND O_EXCL \<noteq> 0 then (EEXIST, st)
              else if n_is_dir nd then
                (if writable then (EISDIR, st)
                 else let (fd, st) = tmpfs_alloc_fd st
                      in (fd, st\<lparr>tfs := Some (push_open \<lparr>o_fd = fd, o_path = n, o_pos = 0,
                            o_append = False, o_writable = False, o_is_dir = True, o_dir_pos = 0\<rparr> fs)\<rparr>))
              else if flags AND O_DIRECTORY \<noteq> 0 then (ENOTDIR, st)
              else
                let fs = (if flags AND O_TRUNC \<noteq> 0 \<and> writable
                          then fs\<lparr>t_total := wsub64 (t_total fs) (length (n_data nd)),
                                  t_nodes := bt_insert n (nd\<lparr>n_data := []\<rparr>) (t_nodes fs)\<rparr>
                          else fs);
                    append = (flags AND O_APPEND \<noteq> 0);
                    pos = (if append then file_len fs n else 0);
                    (fd, st) = tmpfs_alloc_fd st
                in (fd, st\<lparr>tfs := Some (push_open \<lparr>o_fd = fd, o_path = n, o_pos = pos,
                      o_append = append, o_writable = writable, o_is_dir = False, o_dir_pos = 0\<rparr> fs)\<rparr>)
          | None \<Rightarrow>
              if flags AND O_CREAT = 0 then (ENOENT, st)
              else if flags AND O_DIRECTORY \<noteq> 0 then (ENOENT, st)
              else
                (case bt_get (t_nodes fs) (parent n) of
                   None \<Rightarrow> (ENOENT, st)
                 | Some p \<Rightarrow>
                     if \<not> n_is_dir p then (ENOTDIR, st)
                     else
                       let perm = ucast mode AND 4095;
                           perm = (if perm = 0 then 420 else perm);
                           fs = fs\<lparr>t_nodes := bt_insert n (new_file perm) (t_nodes fs)\<rparr>;
                           (fd, st) = tmpfs_alloc_fd st
                       in (fd, st\<lparr>tfs := Some (push_open \<lparr>o_fd = fd, o_path = n, o_pos = 0,
                             o_append = False, o_writable = True, o_is_dir = False, o_dir_pos = 0\<rparr> fs)\<rparr>)))"

section \<open>Reading and writing\<close>

text \<open>The largest count that \<open>write_at\<close> accepts at offset \<open>pos\<close> of a file of \<open>len\<close> bytes.\<close>

definition write_max :: "usize \<Rightarrow> usize \<Rightarrow> usize \<Rightarrow> usize" where
  "write_max used len pos =
     (let allowed_grow = CAP - used
      in if len \<le> pos then allowed_grow - (pos - len) else (len - pos) + allowed_grow)"

definition write_at :: "tmpfs \<Rightarrow> bytes \<Rightarrow> usize \<Rightarrow> bytes \<Rightarrow> i64 \<times> tmpfs" where
  "write_at fs path pos buf =
     (case bt_get (t_nodes fs) path of
        None \<Rightarrow> (ENOENT, fs)
      | Some nd \<Rightarrow>
          if n_is_dir nd then (EISDIR, fs)
          else if buf = [] then (0, fs)
          else
            let len = length (n_data nd);
                n = min (length buf) (write_max (t_total fs) len pos)
            in if n = 0 then (ENOSPC, fs)
               else
                 let new_end = pos + n;
                     data = (if len < new_end then resize0 new_end (n_data nd) else n_data nd);
                     total = (if len < new_end then wadd64 (t_total fs) (new_end - len)
                              else t_total fs)
                 in (as_i64 n,
                     fs\<lparr>t_total := total,
                        t_nodes := bt_insert path (nd\<lparr>n_data := overwrite pos (take n buf) data\<rparr>)
                                     (t_nodes fs)\<rparr>))"

definition set_open :: "nat \<Rightarrow> open_fd \<Rightarrow> tmpfs \<Rightarrow> tmpfs" where
  "set_open i od fs = fs\<lparr>t_open := (t_open fs)[i := od]\<rparr>"

definition tmpfs_write :: "i32 \<Rightarrow> bytes \<Rightarrow> tmpfs_state \<Rightarrow> i64 \<times> tmpfs_state" where
  "tmpfs_write fd buf st =
     (case tfs st of
        None \<Rightarrow> (EBADF, st)
      | Some fs \<Rightarrow>
          (case position (\<lambda>od. o_fd od = fd) (t_open fs) of
             None \<Rightarrow> (EBADF, st)
           | Some idx \<Rightarrow>
               let od = t_open fs ! idx
               in if \<not> o_writable od \<or> o_is_dir od then (EBADF, st)
                  else
                    let path = o_path od;
                        pos = (if o_append od then file_len fs path else o_pos od);
                        (r, fs) = write_at fs path pos buf;
                        fs = (if 0 < r then set_open idx (od\<lparr>o_pos := wadd64 pos (as_usize r)\<rparr>) fs else fs)
                    in (r, st\<lparr>tfs := Some fs\<rparr>)))"

definition tmpfs_pwrite :: "i32 \<Rightarrow> bytes \<Rightarrow> usize \<Rightarrow> tmpfs_state \<Rightarrow> i64 \<times> tmpfs_state" where
  "tmpfs_pwrite fd buf offset st =
     (case tfs st of
        None \<Rightarrow> (EBADF, st)
      | Some fs \<Rightarrow>
          (case position (\<lambda>od. o_fd od = fd) (t_open fs) of
             None \<Rightarrow> (EBADF, st)
           | Some idx \<Rightarrow>
               let od = t_open fs ! idx
               in if \<not> o_writable od \<or> o_is_dir od then (EBADF, st)
                  else let (r, fs) = write_at fs (o_path od) offset buf
                       in (r, st\<lparr>tfs := Some fs\<rparr>)))"

definition read_at :: "node \<Rightarrow> usize \<Rightarrow> usize \<Rightarrow> i64 \<times> bytes" where
  "read_at nd pos count =
     (if length (n_data nd) \<le> pos then (0, [])
      else let n = min count (length (n_data nd) - pos)
           in (as_i64 n, take n (drop pos (n_data nd))))"

definition tmpfs_read :: "i32 \<Rightarrow> usize \<Rightarrow> tmpfs_state \<Rightarrow> i64 \<times> bytes \<times> tmpfs_state" where
  "tmpfs_read fd count st =
     (case tfs st of
        None \<Rightarrow> (EBADF, [], st)
      | Some fs \<Rightarrow>
          (case position (\<lambda>od. o_fd od = fd) (t_open fs) of
             None \<Rightarrow> (EBADF, [], st)
           | Some idx \<Rightarrow>
               let od = t_open fs ! idx
               in if o_is_dir od then (EISDIR, [], st)
                  else
                    (case bt_get (t_nodes fs) (o_path od) of
                       None \<Rightarrow> (EBADF, [], st)
                     | Some nd \<Rightarrow>
                         let (r, bs) = read_at nd (o_pos od) count;
                             fs = (if 0 < r then set_open idx (od\<lparr>o_pos := wadd64 (o_pos od) (as_usize r)\<rparr>) fs
                                   else fs)
                         in (r, bs, st\<lparr>tfs := Some fs\<rparr>))))"

definition tmpfs_pread :: "i32 \<Rightarrow> usize \<Rightarrow> usize \<Rightarrow> tmpfs_state \<Rightarrow> i64 \<times> bytes" where
  "tmpfs_pread fd count offset st =
     (case tfs st of
        None \<Rightarrow> (EBADF, [])
      | Some fs \<Rightarrow>
          (case List.find (\<lambda>od. o_fd od = fd) (t_open fs) of
             None \<Rightarrow> (EBADF, [])
           | Some od \<Rightarrow>
               if o_is_dir od then (EISDIR, [])
               else (case bt_get (t_nodes fs) (o_path od) of
                       None \<Rightarrow> (EBADF, [])
                     | Some nd \<Rightarrow> read_at nd offset count)))"

section \<open>Offsets, sizes and status\<close>

definition tmpfs_lseek :: "i32 \<Rightarrow> i64 \<Rightarrow> i32 \<Rightarrow> tmpfs_state \<Rightarrow> i64 \<times> tmpfs_state" where
  "tmpfs_lseek fd offset whence st =
     (case tfs st of
        None \<Rightarrow> (EBADF, st)
      | Some fs \<Rightarrow>
          (case position (\<lambda>od. o_fd od = fd) (t_open fs) of
             None \<Rightarrow> (EBADF, st)
           | Some idx \<Rightarrow>
               let od = t_open fs ! idx;
                   len = file_len fs (o_path od)
               in if whence \<noteq> 0 \<and> whence \<noteq> 1 \<and> whence \<noteq> 2 then (-22, st)
                  else
                    let base = (if whence = 0 then 0
                                else if whence = 1 then as_i64 (o_pos od)
                                else as_i64 len);
                        np = wrap_i64 (base + offset)
                    in if np < 0 then (-22, st)
                       else (np, st\<lparr>tfs := Some (set_open idx (od\<lparr>o_pos := as_usize np\<rparr>) fs)\<rparr>)))"

text \<open>\<open>Vec::resize\<close> panics when the new length exceeds \<open>isize::MAX\<close>.\<close>

definition resize_path :: "tmpfs \<Rightarrow> bytes \<Rightarrow> usize \<Rightarrow> (i64 \<times> tmpfs) outcome" where
  "resize_path fs path len =
     (case bt_get (t_nodes fs) path of
        None \<Rightarrow> Done (ENOENT, fs)
      | Some nd \<Rightarrow>
          if n_is_dir nd then Done (EISDIR, fs)
          else
            let cur = length (n_data nd)
            in if cur < len \<and> CAP < wadd64 (t_total fs) (len - cur) then Done (ENOSPC, fs)
               else
                 let total = (if cur < len then wadd64 (t_total fs) (len - cur)
                              else wsub64 (t_total fs) (cur - len))
                 in if two63 \<le> len then Panic
                    else Done (0, fs\<lparr>t_total := total,
                      t_nodes := bt_insert path (nd\<lparr>n_data := resize0 len (n_data nd)\<rparr>) (t_nodes fs)\<rparr>))"

definition tmpfs_ftruncate :: "i32 \<Rightarrow> usize \<Rightarrow> tmpfs_state \<Rightarrow> (i64 \<times> tmpfs_state) outcome" where
  "tmpfs_ftruncate fd len st =
     (case tfs st of
        None \<Rightarrow> Done (EBADF, st)
      | Some fs \<Rightarrow>
          (case List.find (\<lambda>od. o_fd od = fd) (t_open fs) of
             None \<Rightarrow> Done (EBADF, st)
           | Some od \<Rightarrow>
               if o_is_dir od then Done (EISDIR, st)
               else map_outcome (\<lambda>(r, fs). (r, st\<lparr>tfs := Some fs\<rparr>)) (resize_path fs (o_path od) len)))"

definition tmpfs_truncate :: "bytes \<Rightarrow> usize \<Rightarrow> tmpfs_state \<Rightarrow> (i64 \<times> tmpfs_state) outcome" where
  "tmpfs_truncate path len st =
     (let n = norm path
      in case tfs st of
           None \<Rightarrow> Done (ENOENT, st)
         | Some fs \<Rightarrow>
             if bt_get (t_nodes fs) n = None then Done (ENOENT, st)
             else map_outcome (\<lambda>(r, fs). (r, st\<lparr>tfs := Some fs\<rparr>)) (resize_path fs n len))"

definition tmpfs_fstat :: "i32 \<Rightarrow> usize \<Rightarrow> tmpfs_state \<Rightarrow> i64 \<times> bytes" where
  "tmpfs_fstat fd buf st =
     (case tfs st of
        None \<Rightarrow> (EBADF, [])
      | Some fs \<Rightarrow>
          (case List.find (\<lambda>od. o_fd od = fd) (t_open fs) of
             None \<Rightarrow> (EBADF, [])
           | Some od \<Rightarrow>
               (case bt_get (t_nodes fs) (o_path od) of
                  Some nd \<Rightarrow> (0, node_stat nd buf)
                | None \<Rightarrow> (EBADF, []))))"

definition tmpfs_close :: "i32 \<Rightarrow> tmpfs_state \<Rightarrow> i64 \<times> tmpfs_state" where
  "tmpfs_close fd st =
     (if fd < TMPFS_FD_BASE then (EBADF, st)
      else case tfs st of
             None \<Rightarrow> (EBADF, st)
           | Some fs \<Rightarrow>
               (case position (\<lambda>od. o_fd od = fd) (t_open fs) of
                  Some i \<Rightarrow> (0, st\<lparr>tfs := Some (fs\<lparr>t_open := remove_at i (t_open fs)\<rparr>)\<rparr>)
                | None \<Rightarrow> (EBADF, st)))"

section \<open>The name space\<close>

definition tmpfs_unlink :: "bytes \<Rightarrow> tmpfs_state \<Rightarrow> i64 \<times> tmpfs_state" where
  "tmpfs_unlink path st =
     (let n = norm path
      in case tfs st of
           None \<Rightarrow> (ENOENT, st)
         | Some fs \<Rightarrow>
             (case bt_get (t_nodes fs) n of
                None \<Rightarrow> (ENOENT, st)
              | Some nd \<Rightarrow>
                  if n_is_dir nd then (EISDIR, st)
                  else (0, st\<lparr>tfs := Some (fs\<lparr>t_nodes := bt_remove n (t_nodes fs),
                              t_total := wsub64 (t_total fs) (length (n_data nd))\<rparr>)\<rparr>)))"

definition has_children :: "tmpfs \<Rightarrow> bytes \<Rightarrow> bool" where
  "has_children fs dir \<longleftrightarrow>
     (let prefix = dir @ [slash]
      in list_ex (\<lambda>k. starts_with k prefix) (bt_keys (t_nodes fs)))"

definition tmpfs_rename :: "bytes \<Rightarrow> bytes \<Rightarrow> tmpfs_state \<Rightarrow> i64 \<times> tmpfs_state" where
  "tmpfs_rename old new st =
     (let src = norm old; nw = norm new
      in if src = nw then (0, st)
         else case tfs st of
           None \<Rightarrow> (ENOENT, st)
         | Some fs \<Rightarrow>
             (case bt_get (t_nodes fs) src of
                None \<Rightarrow> (ENOENT, st)
              | Some snode \<Rightarrow>
                  (case bt_get (t_nodes fs) (parent nw) of
                     None \<Rightarrow> (ENOENT, st)
                   | Some p \<Rightarrow>
                       if \<not> n_is_dir p then (ENOTDIR, st)
                       else
                         let src_is_dir = n_is_dir snode;
                             dest = bt_get (t_nodes fs) nw;
                             finish = (\<lambda>fs. if src_is_dir \<and> has_children fs src
                                then (-22, st\<lparr>tfs := Some fs\<rparr>)
                                else (0, st\<lparr>tfs := Some (fs\<lparr>t_nodes :=
                                       bt_insert nw snode (bt_remove src (t_nodes fs))\<rparr>)\<rparr>))
                         in case dest of
                              None \<Rightarrow> finish fs
                            | Some dst \<Rightarrow>
                                if n_is_dir dst \<noteq> src_is_dir
                                then (if n_is_dir dst then EISDIR else ENOTDIR, st)
                                else if n_is_dir dst \<and> has_children fs nw then (ENOTEMPTY, st)
                                else
                                  let total = (if n_is_dir dst then t_total fs
                                               else wsub64 (t_total fs) (length (n_data dst)))
                                  in finish (fs\<lparr>t_total := total, t_nodes := bt_remove nw (t_nodes fs)\<rparr>))))"

definition tmpfs_mkdir :: "bytes \<Rightarrow> u64 \<Rightarrow> tmpfs_state \<Rightarrow> i64 \<times> tmpfs_state" where
  "tmpfs_mkdir path mode st =
     (let n = norm path
      in case tfs st of
           None \<Rightarrow> (ENOENT, st)
         | Some fs \<Rightarrow>
             if bt_get (t_nodes fs) n \<noteq> None then (EEXIST, st)
             else
               (case bt_get (t_nodes fs) (parent n) of
                  None \<Rightarrow> (ENOENT, st)
                | Some p \<Rightarrow>
                    if \<not> n_is_dir p then (ENOTDIR, st)
                    else
                      let perm = ucast mode AND 4095;
                          perm = (if perm = 0 then 493 else perm)
                      in (0, st\<lparr>tfs := Some (fs\<lparr>t_nodes := bt_insert n (new_dir perm) (t_nodes fs)\<rparr>)\<rparr>)))"

definition tmpfs_rmdir :: "bytes \<Rightarrow> tmpfs_state \<Rightarrow> i64 \<times> tmpfs_state" where
  "tmpfs_rmdir path st =
     (let n = norm path
      in if n = str ''/tmp'' \<or> n = str ''/dev/shm'' then (-1, st)
         else case tfs st of
           None \<Rightarrow> (ENOENT, st)
         | Some fs \<Rightarrow>
             (case bt_get (t_nodes fs) n of
                None \<Rightarrow> (ENOENT, st)
              | Some nd \<Rightarrow>
                  if \<not> n_is_dir nd then (ENOTDIR, st)
                  else if has_children fs n then (ENOTEMPTY, st)
                  else (0, st\<lparr>tfs := Some (fs\<lparr>t_nodes := bt_remove n (t_nodes fs)\<rparr>)\<rparr>)))"

definition tmpfs_access :: "bytes \<Rightarrow> tmpfs_state \<Rightarrow> i64" where
  "tmpfs_access path st =
     (case tfs st of
        Some fs \<Rightarrow> if bt_get (t_nodes fs) (norm path) \<noteq> None then 0 else ENOENT
      | None \<Rightarrow> ENOENT)"

section \<open>Directory listing\<close>

text \<open>The names of the immediate children below \<open>prefix\<close> (which ends in a slash), in key order.\<close>

definition child_names :: "tmpfs \<Rightarrow> bytes \<Rightarrow> bytes list" where
  "child_names fs prefix =
     map (drop (length prefix))
       (filter (\<lambda>k. length prefix < length k \<and> starts_with k prefix \<and>
                    slash \<notin> set (drop (length prefix) k))
          (bt_keys (t_nodes fs)))"

definition tmpfs_dirent :: "tmpfs \<Rightarrow> bytes \<Rightarrow> usize \<Rightarrow> bytes \<Rightarrow> dirent" where
  "tmpfs_dirent fs prefix emitted name =
     \<lparr>d_ino = wadd64 emitted 1, d_off = wadd64 emitted 1,
      d_type = (case bt_get (t_nodes fs) (prefix @ name) of
                  Some nd \<Rightarrow> if n_is_dir nd then 4 else 8 | None \<Rightarrow> 8),
      d_name = name\<rparr>"

text \<open>The emission loop over the names not yet emitted: the bytes stored so far and the cursor.\<close>

fun emit_loop :: "(usize \<Rightarrow> bytes \<Rightarrow> dirent) \<Rightarrow> usize \<Rightarrow> bytes list \<Rightarrow> bytes \<Rightarrow> usize \<Rightarrow> bytes \<times> usize" where
  "emit_loop mk count [] out emitted = (out, emitted)"
| "emit_loop mk count (name # names) out emitted =
     (if count < length out + dirent_reclen name then (out, emitted)
      else emit_loop mk count names (out @ dirent_bytes (mk emitted name)) (emitted + 1))"

definition tmpfs_getdents64 :: "i32 \<Rightarrow> usize \<Rightarrow> tmpfs_state \<Rightarrow> i64 \<times> bytes \<times> tmpfs_state" where
  "tmpfs_getdents64 fd count st =
     (case tfs st of
        None \<Rightarrow> (EBADF, [], st)
      | Some fs \<Rightarrow>
          (case position (\<lambda>od. o_fd od = fd) (t_open fs) of
             None \<Rightarrow> (EBADF, [], st)
           | Some idx \<Rightarrow>
               let od = t_open fs ! idx
               in if \<not> o_is_dir od then (ENOTDIR, [], st)
                  else
                    let dir = o_path od;
                        start = o_dir_pos od;
                        prefix = (if dir \<noteq> str ''/'' then dir @ [slash] else dir);
                        names = child_names fs prefix;
                        (out, emitted) = emit_loop (tmpfs_dirent fs prefix) count (drop start names) [] start
                    in (as_i64 (length out), out,
                        st\<lparr>tfs := Some (set_open idx (od\<lparr>o_dir_pos := emitted\<rparr>) fs)\<rparr>)))"

end
