(* ===== verification/Tmpfs_Inv.thy ===== *)
theory Tmpfs_Inv
  imports Tmpfs
begin

text \<open>
  The invariant of the tmpfs and its preservation along every run. Three parts: the byte
  accounting (\<open>total\<close> is the sum of the file lengths and never exceeds \<open>CAP\<close>), the tree
  (every node but the two mount roots has a directory as parent, directories carry no
  data) and the table of open descriptors (unique, from the private base, below the next
  one to be allocated, at most \<open>MAX_OPEN\<close>). \<open>tmpfs_step\<close> is one call of a state-changing
  operation; the locale \<open>transition_system\<close> is interpreted on it.
\<close>

section \<open>The invariant\<close>

definition mount_roots :: "bytes set" where
  "mount_roots = {str ''/tmp'', str ''/dev/shm''}"

definition used :: "(bytes, node) btree \<Rightarrow> nat" where
  "used t = bt_sum (\<lambda>nd. length (n_data nd)) t"

definition is_dir_at :: "(bytes, node) btree \<Rightarrow> bytes \<Rightarrow> bool" where
  "is_dir_at t k \<longleftrightarrow> (\<exists>nd. bt_get t k = Some nd \<and> n_is_dir nd)"

definition tree_ok :: "(bytes, node) btree \<Rightarrow> bool" where
  "tree_ok t \<longleftrightarrow>
     bt_get t (str ''/'') = None \<and>
     (\<forall>r \<in> mount_roots. is_dir_at t r) \<and>
     (\<forall>k nd. bt_get t k = Some nd \<longrightarrow>
        (n_is_dir nd \<longrightarrow> n_data nd = []) \<and> (k \<in> mount_roots \<or> is_dir_at t (parent k)))"

definition table_ok :: "open_fd list \<Rightarrow> i32 \<Rightarrow> bool" where
  "table_ok tab nfd \<longleftrightarrow>
     length tab \<le> TMPFS_MAX_OPEN \<and> distinct (map o_fd tab) \<and>
     (\<forall>od \<in> set tab. TMPFS_FD_BASE \<le> o_fd od \<and> o_fd od < nfd) \<and>
     TMPFS_FD_BASE \<le> nfd \<and> nfd < 2147483648"

definition fs_ok :: "tmpfs \<Rightarrow> bool" where
  "fs_ok fs \<longleftrightarrow> bt_inv (t_nodes fs) \<and> t_total fs = used (t_nodes fs) \<and> t_total fs \<le> CAP \<and>
     tree_ok (t_nodes fs)"

definition tmpfs_inv :: "tmpfs_state \<Rightarrow> bool" where
  "tmpfs_inv st \<longleftrightarrow>
     (\<exists>fs. tfs st = Some fs \<and> fs_ok fs \<and> table_ok (t_open fs) (tmpfs_next_fd st))"

section \<open>Paths\<close>

lemma slash_neq_Nil: "str ''/'' = [slash]"
  by (simp add: str_def slash_def)

lemma parent_cases:
  obtains (root) "parent k = str ''/''"
  | (inner) rest where "k = parent k @ slash # rest" and "parent k \<noteq> []" and "slash \<notin> set rest"
proof (cases "rposition (\<lambda>c. c = slash) k")
  case None
  then show ?thesis using root by (simp add: parent_def)
next
  case (Some i)
  show ?thesis
  proof (cases "i = 0")
    case True
    with Some show ?thesis using root by (simp add: parent_def)
  next
    case False
    then have p: "parent k = take i k" using Some by (simp add: parent_def)
    have i: "i < length k" "k ! i = slash" and after: "\<forall>j < length k. i < j \<longrightarrow> k ! j \<noteq> slash"
      using Some by (auto simp: rposition_Some_iff)
    have "k = take i k @ slash # drop (Suc i) k"
      using i by (metis id_take_nth_drop)
    moreover have "slash \<notin> set (drop (Suc i) k)"
      using after i by (auto simp: in_set_conv_nth)
    moreover have "take i k \<noteq> []" using False i by auto
    ultimately show ?thesis using inner p by auto
  qed
qed

lemma parent_of_child: "p \<noteq> [] \<Longrightarrow> slash \<notin> set rest \<Longrightarrow> parent (p @ slash # rest) = p"
proof -
  assume p: "p \<noteq> []" and rest: "slash \<notin> set rest"
  have "rposition (\<lambda>c. c = slash) (p @ slash # rest) = Some (length p)"
    using rest by (auto simp: rposition_Some_iff nth_append nth_Cons' in_set_conv_nth)
  with p show ?thesis by (simp add: parent_def)
qed

lemma parent_root: "parent (str ''/'') = str ''/''"
  by (simp add: parent_def str_def rposition_def)

section \<open>Preservation for the node map\<close>

lemma is_dir_at_insert:
  "is_dir_at (bt_insert k nd t) k' \<longleftrightarrow> (if k' = k then n_is_dir nd else is_dir_at t k')"
  by (auto simp: is_dir_at_def bt_get_insert)

lemma is_dir_at_remove: "is_dir_at (bt_remove k t) k' \<longleftrightarrow> k' \<noteq> k \<and> is_dir_at t k'"
  by (auto simp: is_dir_at_def bt_get_remove)

lemma tree_ok_update:
  assumes "tree_ok t" and "bt_get t k = Some nd" and "n_is_dir nd' = n_is_dir nd"
    and "n_is_dir nd' \<Longrightarrow> n_data nd' = []"
  shows "tree_ok (bt_insert k nd' t)"
proof -
  have "is_dir_at (bt_insert k nd' t) = is_dir_at t"
    using assms(2,3) by (auto simp: fun_eq_iff is_dir_at_def bt_get_insert)
  then show ?thesis
    using assms unfolding tree_ok_def by (auto simp: bt_get_insert split: if_splits)
qed

lemma tree_ok_fresh:
  assumes "tree_ok t" and "bt_get t k = None" and "is_dir_at t (parent k)"
    and "n_is_dir nd \<Longrightarrow> n_data nd = []"
  shows "tree_ok (bt_insert k nd t)"
proof -
  have k: "k \<noteq> str ''/''" using assms(1,3) parent_root by (auto simp: tree_ok_def is_dir_at_def)
  have "k \<notin> mount_roots" and par: "parent k \<noteq> k"
    using assms(1-3) by (auto simp: tree_ok_def is_dir_at_def)
  have keep: "is_dir_at (bt_insert k nd t) k'" if "is_dir_at t k'" for k'
    using that assms(2) by (auto simp: is_dir_at_def bt_get_insert)
  show ?thesis
    using assms k keep unfolding tree_ok_def bt_get_insert by (auto split: if_splits)
qed

lemma tree_ok_remove:
  assumes "tree_ok t" and "k \<notin> mount_roots"
    and "\<And>k' nd. bt_get t k' = Some nd \<Longrightarrow> k' \<noteq> k \<Longrightarrow> k' \<notin> mount_roots \<Longrightarrow> parent k' \<noteq> k"
  shows "tree_ok (bt_remove k t)"
  unfolding tree_ok_def is_dir_at_remove bt_get_remove
  using assms by (auto simp: tree_ok_def split: if_splits)

lemma file_no_children:
  assumes "tree_ok t" and "bt_get t k = Some nd" and "\<not> n_is_dir nd"
    and "bt_get t k' = Some nd'" and "k' \<notin> mount_roots"
  shows "parent k' \<noteq> k"
  using assms by (fastforce simp: tree_ok_def is_dir_at_def)

lemma no_children_parent:
  assumes "\<not> has_children fs k" and "tree_ok t" and "is_dir_at t k"
    and "bt_get (t_nodes fs) k' = Some nd"
  shows "parent k' \<noteq> k"
proof
  assume par: "parent k' = k"
  have "k \<noteq> str ''/''" using assms(2,3) by (auto simp: tree_ok_def is_dir_at_def)
  then obtain rest where "k' = (k @ [slash]) @ rest"
    using par by (cases k' rule: parent_cases) auto
  then have "starts_with k' (k @ [slash])" by (metis starts_with_self_append)
  moreover have "k' \<in> set (bt_keys (t_nodes fs))"
    using assms(4) by (auto simp: bt_keys_dom)
  ultimately show False using assms(1) by (auto simp: has_children_def list_ex_iff)
qed

lemma used_insert: "bt_inv t \<Longrightarrow> bt_get t k = Some nd \<Longrightarrow>
    used (bt_insert k nd' t) + length (n_data nd) = used t + length (n_data nd')"
  unfolding used_def by (rule bt_sum_insert)

lemma used_fresh: "bt_get t k = None \<Longrightarrow> used (bt_insert k nd t) = length (n_data nd) + used t"
  unfolding used_def by (rule bt_sum_insert_fresh)

lemma used_remove: "bt_inv t \<Longrightarrow> bt_get t k = Some nd \<Longrightarrow>
    used (bt_remove k t) + length (n_data nd) = used t"
  unfolding used_def by (rule bt_sum_remove)

lemma used_ge: "bt_get t k = Some nd \<Longrightarrow> length (n_data nd) \<le> used t"
  unfolding used_def by (rule bt_sum_ge)

lemma cap_lt [simp]: "x \<le> CAP \<Longrightarrow> x < two63" "x \<le> CAP \<Longrightarrow> x < two64"
  by (simp_all add: CAP_def)

text \<open>Replacing the contents of a file, with the total adjusted by the difference.\<close>

lemma fs_ok_update:
  assumes "fs_ok fs" and "bt_get (t_nodes fs) k = Some nd" and "\<not> n_is_dir nd"
    and "n_is_dir nd' = n_is_dir nd"
    and "tot + length (n_data nd) = t_total fs + length (n_data nd')" and "tot \<le> CAP"
  shows "fs_ok (fs\<lparr>t_total := tot, t_nodes := bt_insert k nd' (t_nodes fs)\<rparr>)"
  using assms used_insert [of "t_nodes fs" k nd nd'] tree_ok_update [of "t_nodes fs" k nd nd']
  by (simp add: fs_ok_def bt_inv_insert)

section \<open>Preservation by the operations\<close>

lemma table_ok_push:
  assumes "table_ok tab nfd" and "length tab < TMPFS_MAX_OPEN" and "nfd < 2147483647"
    and "o_fd od = nfd"
  shows "table_ok (tab @ [od]) (wrap_i32 (nfd + 1))"
proof -
  have "wrap_i32 (nfd + 1) = nfd + 1"
    using assms by (simp add: wrap_i32_small table_ok_def TMPFS_FD_BASE_def)
  then show ?thesis using assms by (auto simp: table_ok_def)
qed

lemma table_ok_update:
  assumes "table_ok tab nfd" and "i < length tab" and "o_fd od = o_fd (tab ! i)"
  shows "table_ok (tab[i := od]) nfd"
proof -
  have "map o_fd (tab[i := od]) = map o_fd tab"
    using assms(2,3) by (simp add: map_update list_update_same_conv)
  moreover have "TMPFS_FD_BASE \<le> o_fd x \<and> o_fd x < nfd" if "x \<in> set (tab[i := od])" for x
    using that assms set_update_subset_insert [of tab i od] by (auto simp: table_ok_def)
  ultimately show ?thesis using assms(1) by (simp add: table_ok_def)
qed

lemma table_ok_remove: "table_ok tab nfd \<Longrightarrow> table_ok (remove_at i tab) nfd"
  using set_remove_at [of i tab] distinct_remove_at [of "map o_fd tab" i]
    length_remove_at [of i tab]
  by (auto simp: table_ok_def map_remove_at)

lemma tmpfs_invI:
  "tfs st = Some fs \<Longrightarrow> fs_ok fs \<Longrightarrow> table_ok (t_open fs) (tmpfs_next_fd st) \<Longrightarrow> tmpfs_inv st"
  by (auto simp: tmpfs_inv_def)

lemma fs_ok_open [simp]: "fs_ok (fs\<lparr>t_open := tab\<rparr>) = fs_ok fs"
  by (simp add: fs_ok_def)

lemma fs_ok_set_open [simp]: "fs_ok (set_open i od fs) = fs_ok fs" "fs_ok (push_open od fs) = fs_ok fs"
  by (simp_all add: set_open_def push_open_def)

lemma open_inv_push:
  assumes "fs_ok fs" and "table_ok (t_open fs) (tmpfs_next_fd st)"
    and "length (t_open fs) < TMPFS_MAX_OPEN"
    and "tmpfs_next_fd st < 2147483647" and "o_fd od = tmpfs_next_fd st"
  shows "tmpfs_inv (st\<lparr>tmpfs_next_fd := wrap_i32 (tmpfs_next_fd st + 1), tfs := Some (push_open od fs)\<rparr>)"
  using assms by (auto simp: tmpfs_inv_def push_open_def intro: table_ok_push)

lemma fs_ok_truncate:
  assumes "fs_ok fs" and "bt_get (t_nodes fs) k = Some nd" and "\<not> n_is_dir nd"
  shows "fs_ok (fs\<lparr>t_total := wsub64 (t_total fs) (length (n_data nd)),
                  t_nodes := bt_insert k (nd\<lparr>n_data := []\<rparr>) (t_nodes fs)\<rparr>)"
proof -
  have le: "length (n_data nd) \<le> t_total fs" and cap: "t_total fs \<le> CAP"
    using assms used_ge by (auto simp: fs_ok_def)
  then have "wsub64 (t_total fs) (length (n_data nd)) = t_total fs - length (n_data nd)"
    by (simp add: wsub64_small)
  with assms le cap show ?thesis by (intro fs_ok_update) auto
qed

lemma fs_ok_create:
  assumes "fs_ok fs" and "bt_get (t_nodes fs) k = None" and "bt_get (t_nodes fs) (parent k) = Some p"
    and "n_is_dir p" and "n_data nd = []"
  shows "fs_ok (fs\<lparr>t_nodes := bt_insert k nd (t_nodes fs)\<rparr>)"
  using assms used_fresh [of "t_nodes fs" k nd] tree_ok_fresh [of "t_nodes fs" k nd]
  by (auto simp: fs_ok_def bt_inv_insert is_dir_at_def)

lemma tmpfs_open_inv:
  assumes "tmpfs_inv st" and "tmpfs_next_fd st < 2147483647"
    and "tmpfs_open path flags mode st = (r, st')"
  shows "tmpfs_inv st'"
proof -
  obtain fs where fs: "tfs st = Some fs" "fs_ok fs" "table_ok (t_open fs) (tmpfs_next_fd st)"
    using assms(1) by (auto simp: tmpfs_inv_def)
  note ok = fs(2) fs_ok_truncate [OF fs(2)] fs_ok_create [OF fs(2)]
  show ?thesis
    using assms fs unfolding tmpfs_open_def
    by (auto simp: Let_def tmpfs_alloc_fd_def not_le new_file_def bt_get_insert
        intro!: open_inv_push intro: ok split: option.splits if_splits)
qed

text \<open>What \<open>write_at\<close> does on an existing file, with the wrap-around discharged.\<close>

definition write_result :: "bytes \<Rightarrow> usize \<Rightarrow> bytes \<Rightarrow> bytes" where
  "write_result data pos buf = overwrite pos buf (resize0 (max (length data) (pos + length buf)) data)"

lemma length_write_result [simp]:
  "length (write_result data pos buf) = max (length data) (pos + length buf)"
  by (simp add: write_result_def)

lemma resize0_same [simp]: "resize0 (length xs) xs = xs"
  by (simp add: resize0_def)

lemma write_max_grow:
  assumes "0 < n" and "n \<le> write_max tot len pos" and "tot \<le> CAP"
  shows "tot + (pos + n - len) \<le> CAP"
  using assms by (auto simp: write_max_def Let_def split: if_splits)

lemma write_at_file:
  assumes "fs_ok fs" and "bt_get (t_nodes fs) path = Some nd" and "\<not> n_is_dir nd"
    and "n = min (length buf) (write_max (t_total fs) (length (n_data nd)) pos)" and "0 < n"
  shows "write_at fs path pos buf =
    (int n, fs\<lparr>t_total := t_total fs + (pos + n - length (n_data nd)),
       t_nodes := bt_insert path (nd\<lparr>n_data := write_result (n_data nd) pos (take n buf)\<rparr>) (t_nodes fs)\<rparr>)"
proof -
  have cap: "t_total fs \<le> CAP" using assms(1) by (simp add: fs_ok_def)
  have grow: "t_total fs + (pos + n - length (n_data nd)) \<le> CAP"
    using assms(4,5) cap by (intro write_max_grow) auto
  have len: "length (n_data nd) \<le> CAP" using used_ge [OF assms(2)] assms(1) by (simp add: fs_ok_def)
  have n: "n \<le> 2 * CAP"
    using assms(4) cap len by (auto simp: write_max_def Let_def split: if_splits)
  then have "as_i64 n = int n" by (simp add: as_i64_small CAP_def)
  moreover have "wadd64 (t_total fs) (pos + n - length (n_data nd)) =
      t_total fs + (pos + n - length (n_data nd))"
    using grow by (intro wadd64_small) (auto dest: cap_lt(2))
  moreover have "length (take n buf) = n" using assms(4) by simp
  moreover have "buf \<noteq> []" using assms(4,5) by auto
  ultimately show ?thesis
    using assms(2,3,5) unfolding write_at_def
    by (simp add: Let_def write_result_def max_def not_less flip: assms(4))
qed

lemma write_at_full:
  assumes "bt_get (t_nodes fs) path = Some nd" and "\<not> n_is_dir nd"
    and "min (length buf) (write_max (t_total fs) (length (n_data nd)) pos) = 0"
  shows "write_at fs path pos buf = (if buf = [] then 0 else ENOSPC, fs)"
  using assms by (auto simp: write_at_def Let_def)

lemma write_at_error:
  assumes "\<And>nd. bt_get (t_nodes fs) path = Some nd \<Longrightarrow> n_is_dir nd"
  shows "write_at fs path pos buf = (if bt_get (t_nodes fs) path = None then ENOENT else EISDIR, fs)"
  using assms by (auto simp: write_at_def split: option.splits)

lemma write_at_ok:
  assumes "fs_ok fs" and "write_at fs path pos buf = (r, fs')"
  shows "fs_ok fs' \<and> t_open fs' = t_open fs"
proof (cases "\<exists>nd. bt_get (t_nodes fs) path = Some nd \<and> \<not> n_is_dir nd")
  case False
  then show ?thesis using write_at_error [of fs path pos buf] assms by auto
next
  case True
  then obtain nd where nd: "bt_get (t_nodes fs) path = Some nd" "\<not> n_is_dir nd" by blast
  define n where "n = min (length buf) (write_max (t_total fs) (length (n_data nd)) pos)"
  show ?thesis
  proof (cases "n = 0")
    case True
    then show ?thesis using write_at_full [OF nd] assms by (auto simp: n_def)
  next
    case False
    then have pos: "0 < n" by simp
    note w = write_at_file [OF assms(1) nd n_def pos]
    have "t_total fs + (pos + n - length (n_data nd)) \<le> CAP"
      using pos assms(1) by (intro write_max_grow) (auto simp: n_def fs_ok_def)
    moreover have "length (take n buf) = n" by (simp add: n_def)
    ultimately have "fs_ok (fs\<lparr>t_total := t_total fs + (pos + n - length (n_data nd)), t_nodes :=
        bt_insert path (nd\<lparr>n_data := write_result (n_data nd) pos (take n buf)\<rparr>) (t_nodes fs)\<rparr>)"
      using nd by (intro fs_ok_update [OF assms(1)]) (auto simp: max_def)
    with w assms(2) show ?thesis by auto
  qed
qed

lemma tmpfs_invE:
  assumes "tmpfs_inv st"
  obtains fs where "tfs st = Some fs" and "fs_ok fs" and "table_ok (t_open fs) (tmpfs_next_fd st)"
  using assms by (auto simp: tmpfs_inv_def)

lemma tmpfs_inv_set_open:
  assumes "fs_ok fs" and "table_ok (t_open fs) (tmpfs_next_fd st)" and "i < length (t_open fs)"
    and "o_fd od = o_fd (t_open fs ! i)"
  shows "tmpfs_inv (st\<lparr>tfs := Some (set_open i od fs)\<rparr>)"
  using assms by (auto simp: tmpfs_inv_def set_open_def intro: table_ok_update)

lemma tmpfs_write_inv:
  assumes "tmpfs_inv st" and "tmpfs_write fd buf st = (r, st')"
  shows "tmpfs_inv st'"
proof -
  obtain fs where fs: "tfs st = Some fs" "fs_ok fs" "table_ok (t_open fs) (tmpfs_next_fd st)"
    using assms(1) by (rule tmpfs_invE)
  have "tmpfs_inv st'" if pos: "position (\<lambda>od. o_fd od = fd) (t_open fs) = Some i" for i
  proof -
    define od where "od = t_open fs ! i"
    define at where "at = (if o_append od then file_len fs (o_path od) else o_pos od)"
    obtain r0 fs0 where w: "write_at fs (o_path od) at buf = (r0, fs0)" by force
    have ok: "fs_ok fs0" "t_open fs0 = t_open fs" using write_at_ok [OF fs(2) w] by auto
    have i: "i < length (t_open fs)" using pos by (rule position_SomeD)
    have "tmpfs_inv (st\<lparr>tfs := Some fs0\<rparr>)" using ok fs by (simp add: tmpfs_inv_def)
    moreover have "tmpfs_inv (st\<lparr>tfs := Some (set_open i (od\<lparr>o_pos := p\<rparr>) fs0)\<rparr>)" for p
      using ok fs i by (intro tmpfs_inv_set_open) (auto simp: od_def)
    moreover have "tmpfs_write fd buf st = (if \<not> o_writable od \<or> o_is_dir od then (EBADF, st)
        else (r0, st\<lparr>tfs := Some (if 0 < r0 then set_open i (od\<lparr>o_pos := wadd64 at (as_usize r0)\<rparr>) fs0
                               else fs0)\<rparr>))"
      by (cases "o_writable od"; cases "o_is_dir od"; cases "o_append od")
        (use fs(1) pos w in \<open>simp_all add: tmpfs_write_def Let_def od_def at_def\<close>)
    ultimately show ?thesis using assms by (auto split: if_splits)
  qed
  then show ?thesis using assms fs(1)
    by (cases "position (\<lambda>od. o_fd od = fd) (t_open fs)") (auto simp: tmpfs_write_def)
qed

lemma tmpfs_pwrite_inv:
  assumes "tmpfs_inv st" and "tmpfs_pwrite fd buf offset st = (r, st')"
  shows "tmpfs_inv st'"
proof -
  obtain fs where fs: "tfs st = Some fs" "fs_ok fs" "table_ok (t_open fs) (tmpfs_next_fd st)"
    using assms(1) by (rule tmpfs_invE)
  have "tmpfs_inv (st\<lparr>tfs := Some fs0\<rparr>)" if "write_at fs k p buf = (r0, fs0)" for k p r0 fs0
    using write_at_ok [OF fs(2) that] fs(3) by (simp add: tmpfs_inv_def)
  then show ?thesis using assms fs(1)
    by (auto simp: tmpfs_pwrite_def Let_def split: option.splits if_splits prod.splits)
qed

lemma tmpfs_read_inv:
  assumes "tmpfs_inv st" and "tmpfs_read fd count st = (r, bs, st')"
  shows "tmpfs_inv st'"
  using assms unfolding tmpfs_read_def tmpfs_inv_def
  by (auto simp: Let_def set_open_def intro!: table_ok_update
      dest: position_SomeD split: option.splits if_splits prod.splits)

lemma tmpfs_lseek_inv:
  assumes "tmpfs_inv st" and "tmpfs_lseek fd offset whence st = (r, st')"
  shows "tmpfs_inv st'"
  using assms unfolding tmpfs_lseek_def tmpfs_inv_def Let_def
  by (auto simp: set_open_def intro!: table_ok_update dest: position_SomeD
      simp del: One_nat_def split: option.splits if_splits)

lemma tmpfs_getdents64_inv:
  assumes "tmpfs_inv st" and "tmpfs_getdents64 fd count st = (r, bs, st')"
  shows "tmpfs_inv st'"
  using assms unfolding tmpfs_getdents64_def tmpfs_inv_def Let_def
  by (auto simp: set_open_def intro!: table_ok_update dest: position_SomeD
      split: option.splits if_splits prod.splits)

lemma tmpfs_close_inv:
  assumes "tmpfs_inv st" and "tmpfs_close fd st = (r, st')"
  shows "tmpfs_inv st'"
  using assms unfolding tmpfs_close_def tmpfs_inv_def
  by (auto intro!: table_ok_remove split: option.splits if_splits)

lemma resize_path_ok:
  assumes "fs_ok fs" and "resize_path fs path len = Done (r, fs')" and "len < two64"
  shows "fs_ok fs' \<and> t_open fs' = t_open fs"
proof (cases "\<exists>nd. bt_get (t_nodes fs) path = Some nd \<and> \<not> n_is_dir nd")
  case False
  then show ?thesis using assms by (auto simp: resize_path_def split: option.splits)
next
  case True
  then obtain nd where nd: "bt_get (t_nodes fs) path = Some nd" "\<not> n_is_dir nd" by blast
  define cur where "cur = length (n_data nd)"
  have le: "cur \<le> t_total fs" and cap: "t_total fs \<le> CAP"
    using used_ge [OF nd(1)] assms(1) by (auto simp: cur_def fs_ok_def)
  define tot where "tot = (if cur < len then wadd64 (t_total fs) (len - cur)
                           else wsub64 (t_total fs) (cur - len))"
  consider (full) "fs' = fs"
    | (resized) "tot \<le> CAP" "len < two63"
        "fs' = fs\<lparr>t_total := tot, t_nodes := bt_insert path (nd\<lparr>n_data := resize0 len (n_data nd)\<rparr>) (t_nodes fs)\<rparr>"
  proof -
    have "wsub64 (t_total fs) (cur - len) = t_total fs - (cur - len)"
      using le cap by (intro wsub64_small) (auto dest: cap_lt(2))
    then have "\<not> (cur < len \<and> CAP < wadd64 (t_total fs) (len - cur)) \<Longrightarrow> tot \<le> CAP"
      using cap by (auto simp: tot_def)
    then show ?thesis using assms(2) nd that
      by (auto simp: resize_path_def Let_def cur_def tot_def not_le split: if_splits)
  qed
  then show ?thesis
  proof cases
    case full
    with assms(1) show ?thesis by simp
  next
    case resized
    have "tot + cur = t_total fs + len"
    proof (cases "cur < len")
      case True
      then have "t_total fs + (len - cur) < two64"
        using resized(2) cap cap_lt(1) [OF cap] by linarith
      with True show ?thesis by (simp add: tot_def wadd64_small)
    next
      case False
      then show ?thesis using le cap by (simp add: tot_def wsub64_small)
    qed
    then show ?thesis
      using fs_ok_update [OF assms(1) nd, of "nd\<lparr>n_data := resize0 len (n_data nd)\<rparr>" tot] resized nd
      by (simp add: cur_def)
  qed
qed

lemma tmpfs_ftruncate_inv:
  assumes "tmpfs_inv st" and "tmpfs_ftruncate fd len st = Done (r, st')" and "len < two64"
  shows "tmpfs_inv st'"
proof -
  obtain fs where fs: "tfs st = Some fs" "fs_ok fs" "table_ok (t_open fs) (tmpfs_next_fd st)"
    using assms(1) by (rule tmpfs_invE)
  have "tmpfs_inv (st\<lparr>tfs := Some fs0\<rparr>)" if "resize_path fs k len = Done (r0, fs0)" for k r0 fs0
    using resize_path_ok [OF fs(2) that assms(3)] fs(3) by (simp add: tmpfs_inv_def)
  then show ?thesis using assms fs(1)
    by (auto simp: tmpfs_ftruncate_def map_outcome_Done_iff split: option.splits if_splits prod.splits)
qed

lemma fs_ok_unlink:
  assumes "fs_ok fs" and "bt_get (t_nodes fs) k = Some nd" and "\<not> n_is_dir nd"
  shows "fs_ok (fs\<lparr>t_nodes := bt_remove k (t_nodes fs), t_total := wsub64 (t_total fs) (length (n_data nd))\<rparr>)"
proof -
  have "k \<notin> mount_roots" using assms by (fastforce simp: fs_ok_def tree_ok_def is_dir_at_def)
  then have "tree_ok (bt_remove k (t_nodes fs))"
    using assms file_no_children [OF _ assms(2,3)] by (intro tree_ok_remove) (auto simp: fs_ok_def)
  moreover have "wsub64 (t_total fs) (length (n_data nd)) = t_total fs - length (n_data nd)"
    using assms(1) used_ge [OF assms(2)] by (intro wsub64_small) (auto simp: fs_ok_def)
  ultimately show ?thesis
    using assms(1) used_remove [OF _ assms(2)] by (auto simp: fs_ok_def bt_inv_remove)
qed

lemma tmpfs_truncate_inv:
  assumes "tmpfs_inv st" and "tmpfs_truncate path len st = Done (r, st')" and "len < two64"
  shows "tmpfs_inv st'"
proof -
  obtain fs where fs: "tfs st = Some fs" "fs_ok fs" "table_ok (t_open fs) (tmpfs_next_fd st)"
    using assms(1) by (rule tmpfs_invE)
  have "tmpfs_inv (st\<lparr>tfs := Some fs0\<rparr>)" if "resize_path fs k len = Done (r0, fs0)" for k r0 fs0
    using resize_path_ok [OF fs(2) that assms(3)] fs(3) by (simp add: tmpfs_inv_def)
  then show ?thesis using assms fs(1)
    by (auto simp: tmpfs_truncate_def Let_def map_outcome_Done_iff split: if_splits prod.splits)
qed

lemma tmpfs_unlink_inv:
  assumes "tmpfs_inv st" and "tmpfs_unlink path st = (r, st')"
  shows "tmpfs_inv st'"
proof -
  obtain fs where fs: "tfs st = Some fs" "fs_ok fs" "table_ok (t_open fs) (tmpfs_next_fd st)"
    using assms(1) by (rule tmpfs_invE)
  show ?thesis using assms fs fs_ok_unlink [OF fs(2)]
    by (auto simp: tmpfs_unlink_def Let_def split: option.splits if_splits intro!: tmpfs_invI)
qed

lemma tmpfs_mkdir_inv:
  assumes "tmpfs_inv st" and "tmpfs_mkdir path mode st = (r, st')"
  shows "tmpfs_inv st'"
proof -
  obtain fs where fs: "tfs st = Some fs" "fs_ok fs" "table_ok (t_open fs) (tmpfs_next_fd st)"
    using assms(1) by (rule tmpfs_invE)
  show ?thesis using assms fs
    by (auto simp: tmpfs_mkdir_def new_dir_def Let_def split: option.splits if_splits
        intro!: tmpfs_invI fs_ok_create)
qed

text \<open>Removing an empty directory.\<close>

lemma fs_ok_remove_dir:
  assumes "fs_ok fs" and "bt_get (t_nodes fs) k = Some nd" and "n_is_dir nd"
    and "\<not> has_children fs k" and "k \<notin> mount_roots"
  shows "fs_ok (fs\<lparr>t_nodes := bt_remove k (t_nodes fs)\<rparr>)"
proof -
  have ok: "bt_inv (t_nodes fs)" "tree_ok (t_nodes fs)" using assms(1) by (auto simp: fs_ok_def)
  have "n_data nd = []" using ok assms by (auto simp: tree_ok_def)
  then have "used (bt_remove k (t_nodes fs)) = used (t_nodes fs)"
    using used_remove [OF ok(1) assms(2)] by simp
  moreover have "is_dir_at (t_nodes fs) k" using assms by (simp add: is_dir_at_def)
  then have "tree_ok (bt_remove k (t_nodes fs))"
    using assms ok no_children_parent by (intro tree_ok_remove) auto
  ultimately show ?thesis using assms(1) by (simp add: fs_ok_def bt_inv_remove)
qed

lemma tmpfs_rmdir_inv:
  assumes "tmpfs_inv st" and "tmpfs_rmdir path st = (r, st')"
  shows "tmpfs_inv st'"
proof -
  obtain fs where fs: "tfs st = Some fs" "fs_ok fs" "table_ok (t_open fs) (tmpfs_next_fd st)"
    using assms(1) by (rule tmpfs_invE)
  show ?thesis using assms fs
    by (auto simp: tmpfs_rmdir_def Let_def mount_roots_def split: option.splits if_splits
        intro!: tmpfs_invI fs_ok_remove_dir)
qed

subsection \<open>Renaming\<close>

text \<open>
  \<open>rename\<close> keeps the tree when the source is no mount root and the destination is not
  placed inside the (then removed) source; the code checks neither. A mount root is never
  the destination, because its parent is not a node.
\<close>

definition rename_safe :: "bytes \<Rightarrow> bytes \<Rightarrow> bool" where
  "rename_safe old new \<longleftrightarrow>
     norm old \<notin> mount_roots \<and> parent (norm new) \<noteq> norm old"

text \<open>Every node lies under a mount root.\<close>

definition under_mount :: "bytes \<Rightarrow> bool" where
  "under_mount k \<longleftrightarrow> (\<exists>r \<in> mount_roots. k = r \<or> starts_with k (r @ [slash]))"

lemma tree_ok_under_mount: "tree_ok t \<Longrightarrow> bt_get t k = Some nd \<Longrightarrow> under_mount k"
proof (induction "length k" arbitrary: k nd rule: less_induct)
  case less
  show ?case
  proof (cases "k \<in> mount_roots")
    case True
    then show ?thesis by (auto simp: under_mount_def)
  next
    case False
    then have dir: "is_dir_at t (parent k)" using less.prems by (auto simp: tree_ok_def)
    then obtain p where p: "bt_get t (parent k) = Some p" by (auto simp: is_dir_at_def)
    show ?thesis
    proof (cases k rule: parent_cases)
      case root
      with dir less.prems show ?thesis by (auto simp: tree_ok_def is_dir_at_def)
    next
      case (inner rest)
      then have "length (parent k) < length k" by (metis length_append less_add_same_cancel1
            length_greater_0_conv list.discI)
      from less.hyps [OF this less.prems(1) p] obtain r where r: "r \<in> mount_roots"
        and "parent k = r \<or> starts_with (parent k) (r @ [slash])" by (auto simp: under_mount_def)
      then have "\<exists>ys. parent k @ slash # rest = (r @ [slash]) @ ys"
        by (auto simp: starts_with_iff)
      then have "starts_with k (r @ [slash])" using inner(1) by (auto simp: starts_with_iff)
      with r show ?thesis by (auto simp: under_mount_def)
    qed
  qed
qed

lemma root_parent_no_node:
  assumes "tree_ok t" and "r \<in> mount_roots"
  shows "\<not> is_dir_at t (parent r)"
proof
  assume "is_dir_at t (parent r)"
  then have "under_mount (parent r)" "parent r \<noteq> str ''/''"
    using assms(1) tree_ok_under_mount by (auto simp: is_dir_at_def tree_ok_def)
  moreover have "parent r = str ''/'' \<or> parent r = str ''/dev''"
    using assms(2) by (auto simp: mount_roots_def parent_def rposition_def slash_def str_def)
  ultimately show False
    by (auto simp: under_mount_def mount_roots_def starts_with_def str_def slash_def)
qed

lemma parent_neq: "tree_ok t \<Longrightarrow> is_dir_at t (parent k) \<Longrightarrow> parent k \<noteq> k"
proof
  assume t: "tree_ok t" "is_dir_at t (parent k)" "parent k = k"
  show False
  proof (cases k rule: parent_cases)
    case root
    with t show ?thesis by (auto simp: tree_ok_def is_dir_at_def)
  next
    case (inner rest)
    with t(3) have "length k = length k + Suc (length rest)"
      by (metis length_append length_Cons)
    then show ?thesis by simp
  qed
qed

lemma fs_ok_move:
  assumes "fs_ok fs" and "bt_get (t_nodes fs) src = Some nd" and "bt_get (t_nodes fs) dst = None"
    and "src \<notin> mount_roots" and "is_dir_at (t_nodes fs) (parent dst)" and "parent dst \<noteq> src"
    and "n_is_dir nd \<Longrightarrow> \<not> has_children fs src"
  shows "fs_ok (fs\<lparr>t_nodes := bt_insert dst nd (bt_remove src (t_nodes fs))\<rparr>)"
proof -
  let ?t = "t_nodes fs" and ?u = "bt_remove src (t_nodes fs)"
  have ok: "bt_inv ?t" "tree_ok ?t" using assms(1) by (auto simp: fs_ok_def)
  have "parent k' \<noteq> src" if "bt_get ?t k' = Some nd'" "k' \<notin> mount_roots" for k' nd'
  proof (cases "n_is_dir nd")
    case True
    then have "is_dir_at ?t src" using assms(2) by (simp add: is_dir_at_def)
    with that(1) assms(7) [OF True] ok(2) show ?thesis using no_children_parent by blast
  next
    case False
    then show ?thesis using file_no_children [OF ok(2) assms(2) False that] by simp
  qed
  then have u: "tree_ok ?u" using ok(2) assms(4) by (intro tree_ok_remove) auto
  have fresh: "bt_get ?u dst = None" using assms(3) by (simp add: bt_get_remove)
  have "tree_ok (bt_insert dst nd ?u)"
    using u fresh assms ok(2)
    by (intro tree_ok_fresh) (auto simp: is_dir_at_remove tree_ok_def)
  moreover have "used (bt_insert dst nd ?u) = used ?t"
    using used_fresh [OF fresh] used_remove [OF ok(1) assms(2)] by simp
  ultimately show ?thesis
    using assms(1) ok(1) by (simp add: fs_ok_def bt_inv_insert bt_inv_remove)
qed

text \<open>The file system after an existing destination has been taken away.\<close>

definition drop_dest :: "tmpfs \<Rightarrow> bytes \<Rightarrow> node \<Rightarrow> tmpfs" where
  "drop_dest fs nw dst = fs\<lparr>t_total := (if n_is_dir dst then t_total fs
     else wsub64 (t_total fs) (length (n_data dst))), t_nodes := bt_remove nw (t_nodes fs)\<rparr>"

lemma drop_dest_ok:
  assumes "fs_ok fs" and "bt_get (t_nodes fs) nw = Some dst" and "nw \<notin> mount_roots"
    and "n_is_dir dst \<Longrightarrow> \<not> has_children fs nw"
  shows "fs_ok (drop_dest fs nw dst)"
proof (cases "n_is_dir dst")
  case True
  then show ?thesis
    using fs_ok_remove_dir [OF assms(1,2) True _ assms(3)] assms(4)
    by (cases fs) (simp add: drop_dest_def)
next
  case False
  then show ?thesis using fs_ok_unlink [OF assms(1,2) False] by (cases fs) (simp add: drop_dest_def)
qed

definition rename_finish :: "bytes \<Rightarrow> bytes \<Rightarrow> node \<Rightarrow> tmpfs_state \<Rightarrow> tmpfs \<Rightarrow> i64 \<times> tmpfs_state" where
  "rename_finish src nw snode st fs =
     (if n_is_dir snode \<and> has_children fs src then (-22, st\<lparr>tfs := Some fs\<rparr>)
      else (0, st\<lparr>tfs := Some (fs\<lparr>t_nodes := bt_insert nw snode (bt_remove src (t_nodes fs))\<rparr>)\<rparr>))"

lemma tmpfs_rename_unfold:
  assumes "tfs st = Some fs" and "norm old \<noteq> norm new"
    and "bt_get (t_nodes fs) (norm old) = Some snode"
    and "bt_get (t_nodes fs) (parent (norm new)) = Some p" and "n_is_dir p"
  shows "tmpfs_rename old new st =
    (case bt_get (t_nodes fs) (norm new) of
       None \<Rightarrow> rename_finish (norm old) (norm new) snode st fs
     | Some dst \<Rightarrow>
         if n_is_dir dst \<noteq> n_is_dir snode then (if n_is_dir dst then EISDIR else ENOTDIR, st)
         else if n_is_dir dst \<and> has_children fs (norm new) then (ENOTEMPTY, st)
         else rename_finish (norm old) (norm new) snode st (drop_dest fs (norm new) dst))"
  using assms unfolding tmpfs_rename_def Let_def
  by (auto simp: rename_finish_def drop_dest_def split: option.splits)

lemma rename_finish_inv:
  assumes "fs_ok fs" and "table_ok (t_open fs) (tmpfs_next_fd st)"
    and "bt_get (t_nodes fs) src = Some snode" and "bt_get (t_nodes fs) nw = None"
    and "src \<notin> mount_roots" and "is_dir_at (t_nodes fs) (parent nw)" and "parent nw \<noteq> src"
  shows "tmpfs_inv (snd (rename_finish src nw snode st fs))"
  using assms fs_ok_move [OF assms(1,3,4,5,6,7)]
  by (auto simp: rename_finish_def intro!: tmpfs_invI split: if_splits)

lemma tmpfs_rename_inv:
  assumes "tmpfs_inv st" and "rename_safe old new" and "tmpfs_rename old new st = (r, st')"
  shows "tmpfs_inv st'"
proof -
  let ?src = "norm old" and ?nw = "norm new"
  obtain fs where fs: "tfs st = Some fs" "fs_ok fs" "table_ok (t_open fs) (tmpfs_next_fd st)"
    using assms(1) by (rule tmpfs_invE)
  have safe: "?src \<notin> mount_roots" "parent ?nw \<noteq> ?src"
    using assms(2) by (auto simp: rename_safe_def)
  show ?thesis
  proof (cases "?src \<noteq> ?nw \<and> (\<exists>snode. bt_get (t_nodes fs) ?src = Some snode) \<and>
      (\<exists>p. bt_get (t_nodes fs) (parent ?nw) = Some p \<and> n_is_dir p)")
    case False
    then have "st' = st"
      using assms(3) fs(1) by (auto simp: tmpfs_rename_def Let_def split: option.splits if_splits)
    with assms(1) show ?thesis by simp
  next
    case True
    then obtain snode p where src: "?src \<noteq> ?nw" "bt_get (t_nodes fs) ?src = Some snode"
      and p: "bt_get (t_nodes fs) (parent ?nw) = Some p" "n_is_dir p" by blast
    note unf = tmpfs_rename_unfold [OF fs(1) src p]
    have st': "st' = snd (tmpfs_rename old new st)" using assms(3) by simp
    have dir: "is_dir_at (t_nodes fs) (parent ?nw)" using p by (simp add: is_dir_at_def)
    have "parent ?nw \<noteq> ?nw" using fs(2) dir parent_neq by (auto simp: fs_ok_def)
    have nw: "?nw \<notin> mount_roots" using fs(2) dir root_parent_no_node by (auto simp: fs_ok_def)
    show ?thesis
    proof (cases "bt_get (t_nodes fs) ?nw")
      case None
      with unf st' show ?thesis
        using rename_finish_inv [OF fs(2,3) src(2) None safe(1) dir safe(2)] by simp
    next
      case (Some dst)
      let ?fs = "drop_dest fs ?nw dst"
      have "bt_get (t_nodes ?fs) ?src = Some snode" "bt_get (t_nodes ?fs) ?nw = None"
        "is_dir_at (t_nodes ?fs) (parent ?nw)" "t_open ?fs = t_open fs"
        using src dir \<open>parent ?nw \<noteq> ?nw\<close>
        by (auto simp: drop_dest_def bt_get_remove is_dir_at_remove)
      moreover have "fs_ok ?fs" if "n_is_dir dst \<longrightarrow> \<not> has_children fs ?nw"
        using drop_dest_ok [OF fs(2) Some nw] that by simp
      ultimately show ?thesis
        using unf Some assms(1) st' fs(3) safe rename_finish_inv [of ?fs st ?src snode ?nw]
        by simp
    qed
  qed
qed

section \<open>Runs\<close>

text \<open>
  One call of an operation that may change the state. Calls of \<open>open\<close> are considered until
  the descriptor counter is about to leave \<open>i32\<close> (after more than two thousand million opens).
\<close>

inductive tmpfs_step :: "tmpfs_state \<Rightarrow> tmpfs_state \<Rightarrow> bool" where
  ts_open: "tmpfs_next_fd st < 2147483647 \<Longrightarrow> tmpfs_open path flags mode st = (r, st') \<Longrightarrow> tmpfs_step st st'"
| ts_write: "tmpfs_write fd buf st = (r, st') \<Longrightarrow> tmpfs_step st st'"
| ts_pwrite: "tmpfs_pwrite fd buf offset st = (r, st') \<Longrightarrow> tmpfs_step st st'"
| ts_read: "tmpfs_read fd count st = (r, bs, st') \<Longrightarrow> tmpfs_step st st'"
| ts_lseek: "tmpfs_lseek fd pos whence st = (r, st') \<Longrightarrow> tmpfs_step st st'"
| ts_ftruncate: "len < two64 \<Longrightarrow> tmpfs_ftruncate fd len st = Done (r, st') \<Longrightarrow> tmpfs_step st st'"
| ts_truncate: "len < two64 \<Longrightarrow> tmpfs_truncate path len st = Done (r, st') \<Longrightarrow> tmpfs_step st st'"
| ts_close: "tmpfs_close fd st = (r, st') \<Longrightarrow> tmpfs_step st st'"
| ts_unlink: "tmpfs_unlink path st = (r, st') \<Longrightarrow> tmpfs_step st st'"
| ts_rename: "rename_safe path path' \<Longrightarrow> tmpfs_rename path path' st = (r, st') \<Longrightarrow> tmpfs_step st st'"
| ts_mkdir: "tmpfs_mkdir path mode st = (r, st') \<Longrightarrow> tmpfs_step st st'"
| ts_rmdir: "tmpfs_rmdir path st = (r, st') \<Longrightarrow> tmpfs_step st st'"
| ts_getdents: "tmpfs_getdents64 fd count st = (r, bs, st') \<Longrightarrow> tmpfs_step st st'"

lemmas tmpfs_op_invs = tmpfs_open_inv tmpfs_write_inv tmpfs_pwrite_inv tmpfs_read_inv tmpfs_lseek_inv
  tmpfs_ftruncate_inv tmpfs_truncate_inv tmpfs_close_inv tmpfs_unlink_inv tmpfs_rename_inv
  tmpfs_mkdir_inv tmpfs_rmdir_inv tmpfs_getdents64_inv

lemma str_simps [simp]: "str [] = []" "str (c # cs) = of_nat (of_char c) # str cs"
  by (simp_all add: str_def)

lemma tmpfs_init_inv: "tmpfs_inv (tmpfs_init tmpfs_boot)"
proof -
  have "fs_ok \<lparr>t_nodes = bt_insert (str ''/dev/shm'') (new_dir 511) (bt_insert (str ''/tmp'') (new_dir 511) []),
      t_total = 0, t_open = []\<rparr>"
    by (auto simp: fs_ok_def bt_inv_insert used_def new_dir_def tree_ok_def mount_roots_def
        is_dir_at_def bt_get_insert bt_get_def bt_sum_def bt_inv_Cons)
  then show ?thesis
    by (simp add: tmpfs_inv_def tmpfs_init_def tmpfs_boot_def Let_def table_ok_def TMPFS_FD_BASE_def)
qed

interpretation tmpfs_sys:
  transition_system "\<lambda>st. st = tmpfs_init tmpfs_boot" tmpfs_step tmpfs_inv
proof
  fix s assume "s = tmpfs_init tmpfs_boot"
  then show "tmpfs_inv s" using tmpfs_init_inv by simp
next
  fix s t assume "tmpfs_inv s" and "tmpfs_step s t"
  from this(2,1) show "tmpfs_inv t" by cases (blast intro: tmpfs_op_invs)+
qed

end
