(* ===== verification/Tmpfs_Props.thy ===== *)
theory Tmpfs_Props
  imports Tmpfs_Inv
begin

text \<open>
  What the tmpfs promises its callers: the invariant spelled out for every reachable state,
  writes that store the longest prefix that fits and read back, sequential reads, errors
  without effect, renames, the emptiness test, and directory listings.
\<close>

section \<open>Reachable states\<close>

abbreviation tmpfs_reachable :: "tmpfs_state \<Rightarrow> bool" where
  "tmpfs_reachable st \<equiv> tmpfs_step\<^sup>*\<^sup>* (tmpfs_init tmpfs_boot) st"



section \<open>Descriptors of files\<close>

text \<open>Descriptor \<open>fd\<close> is the open description \<open>od\<close> of a regular file whose node is \<open>nd\<close>.\<close>

definition fd_file :: "tmpfs \<Rightarrow> i32 \<Rightarrow> open_fd \<Rightarrow> node \<Rightarrow> bool" where
  "fd_file fs fd od nd \<longleftrightarrow>
     List.find (\<lambda>od. o_fd od = fd) (t_open fs) = Some od \<and> \<not> o_is_dir od \<and>
     bt_get (t_nodes fs) (o_path od) = Some nd \<and> \<not> n_is_dir nd"

lemma fd_file_position:
  assumes "fd_file fs fd od nd"
  obtains i where "position (\<lambda>od. o_fd od = fd) (t_open fs) = Some i" and "t_open fs ! i = od"
    and "i < length (t_open fs)"
  using assms by (auto simp: fd_file_def position_find dest: position_SomeD)

lemma pwrite_file:
  assumes "tfs st = Some fs" and "fd_file fs fd od nd" and "o_writable od"
  shows "tmpfs_pwrite fd buf off st =
    (let (r, fs') = write_at fs (o_path od) off buf in (r, st\<lparr>tfs := Some fs'\<rparr>))"
proof -
  obtain i where "position (\<lambda>od. o_fd od = fd) (t_open fs) = Some i" "t_open fs ! i = od"
    using assms(2) by (rule fd_file_position)
  with assms show ?thesis by (simp add: tmpfs_pwrite_def fd_file_def)
qed

lemma pread_file:
  assumes "tfs st = Some fs" and "fd_file fs fd od nd"
  shows "tmpfs_pread fd count off st = read_at nd off count"
  using assms by (simp add: tmpfs_pread_def fd_file_def)

text \<open>C28 (a write stores the longest prefix that fits): \<open>pwrite\<close> on a writable file either stores
  the first \<open>n\<close> bytes of the buffer, where no longer prefix would keep the file system within
  its cap (a gap before the offset counts), and reports \<open>n\<close>; or not even one byte fits, it
  reports \<open>ENOSPC\<close> and changes nothing.\<close>

theorem tmpfs_pwrite_longest_prefix:
  assumes "tmpfs_reachable st" and "tfs st = Some fs" and "fd_file fs fd od nd" and "o_writable od"
    and "buf \<noteq> []" and "tmpfs_pwrite fd buf off st = (r, st')"
  shows "(r = ENOSPC \<and> st' = st \<and> CAP < t_total fs + (off + 1 - length (n_data nd))) \<or>
    (\<exists>n fs' nd'. 0 < n \<and> n \<le> length buf \<and> r = int n \<and> tfs st' = Some fs' \<and>
       fd_file fs' fd od nd' \<and> n_data nd' = write_result (n_data nd) off (take n buf) \<and>
       t_total fs' = t_total fs + (off + n - length (n_data nd)) \<and> t_total fs' \<le> CAP \<and>
       (n < length buf \<longrightarrow> CAP < t_total fs + (off + (n + 1) - length (n_data nd))))"
proof -
  have inv: "fs_ok fs"
    using tmpfs_sys.reachable_inv [OF refl assms(1)] assms(2) by (auto simp: tmpfs_inv_def)
  then have cap: "t_total fs \<le> CAP" by (simp add: fs_ok_def)
  have nd: "bt_get (t_nodes fs) (o_path od) = Some nd" "\<not> n_is_dir nd"
    using assms(3) by (auto simp: fd_file_def)
  define n where "n = min (length buf) (write_max (t_total fs) (length (n_data nd)) off)"
  note pw = pwrite_file [OF assms(2,3,4), of buf off]
  show ?thesis
  proof (cases "n = 0")
    case True
    then have "write_max (t_total fs) (length (n_data nd)) off = 0"
      using assms(5) by (auto simp: n_def min_def split: if_splits)
    then have "CAP < t_total fs + (off + 1 - length (n_data nd))"
      using cap by (auto simp: write_max_def Let_def split: if_splits)
    moreover have "write_at fs (o_path od) off buf = (ENOSPC, fs)"
      using write_at_full [OF nd] True assms(5) by (simp add: n_def)
    ultimately show ?thesis using pw assms(2,6) by (cases st) auto
  next
    case False
    then have pos: "0 < n" by simp
    let ?fs = "fs\<lparr>t_total := t_total fs + (off + n - length (n_data nd)), t_nodes :=
        bt_insert (o_path od) (nd\<lparr>n_data := write_result (n_data nd) off (take n buf)\<rparr>) (t_nodes fs)\<rparr>"
    have eq: "r = int n" "st' = st\<lparr>tfs := Some ?fs\<rparr>"
      using pw write_at_file [OF inv nd n_def pos] assms(6) by auto
    have "fd_file ?fs fd od (nd\<lparr>n_data := write_result (n_data nd) off (take n buf)\<rparr>)"
      using assms(3) by (simp add: fd_file_def bt_get_insert)
    moreover have "t_total ?fs \<le> CAP"
      using write_max_grow [of n "t_total fs" "length (n_data nd)" off] pos cap by (simp add: n_def)
    moreover have "CAP < t_total fs + (off + (n + 1) - length (n_data nd))" if "n < length buf"
      using that pos cap unfolding n_def
      by (auto simp: write_max_def Let_def min_def split: if_splits)
    ultimately show ?thesis using eq pos
      by (intro disjI2 exI [of _ n] exI [of _ ?fs]
          exI [of _ "nd\<lparr>n_data := write_result (n_data nd) off (take n buf)\<rparr>"]) (auto simp: n_def)
  qed
qed

text \<open>A state with one freshly created file open for reading and writing.\<close>

definition sample_path :: bytes where
  "sample_path = [47, 116, 109, 112, 47, 97]"

definition sample_st :: tmpfs_state where
  "sample_st = snd (tmpfs_open sample_path 66 0 (tmpfs_init tmpfs_boot))"

definition sample_od :: open_fd where
  "sample_od = \<lparr>o_fd = 4000, o_path = sample_path, o_pos = 0, o_append = False, o_writable = True,
     o_is_dir = False, o_dir_pos = 0\<rparr>"

definition boot_nodes :: "(bytes, node) btree" where
  "boot_nodes = [([47, 100, 101, 118, 47, 115, 104, 109], new_dir 511), ([47, 116, 109, 112], new_dir 511)]"

definition sample_fs :: tmpfs where
  "sample_fs = \<lparr>t_nodes = bt_insert sample_path (new_file 420) boot_nodes,
     t_total = 0, t_open = [sample_od]\<rparr>"

lemma tmpfs_init_boot:
  "tmpfs_init tmpfs_boot =
     \<lparr>tfs = Some \<lparr>t_nodes = boot_nodes, t_total = 0, t_open = []\<rparr>, tmpfs_next_fd = 4000\<rparr>"
  by (simp add: tmpfs_init_def tmpfs_boot_def boot_nodes_def TMPFS_FD_BASE_def)

lemma boot_nodes_get:
  "bt_get boot_nodes (str ''/tmp'') = Some (new_dir 511)"
  "bt_get boot_nodes (str ''/dev/shm'') = Some (new_dir 511)"
  "k \<noteq> str ''/tmp'' \<Longrightarrow> k \<noteq> str ''/dev/shm'' \<Longrightarrow> bt_get boot_nodes k = None"
  by (simp_all add: boot_nodes_def bt_get_def)

lemma sample_norm [simp]: "norm sample_path = sample_path"
  by (simp add: norm_def sample_path_def starts_with_def drop_trailing.simps slash_def)

lemma sample_parent [simp]: "parent sample_path = str ''/tmp''"
  by (simp add: parent_def sample_path_def rposition_def slash_def)

lemma sample_open:
  "tmpfs_open sample_path 66 0 (tmpfs_init tmpfs_boot) = (4000, \<lparr>tfs = Some sample_fs, tmpfs_next_fd = 4001\<rparr>)"
proof -
  have "bt_get boot_nodes sample_path = None"
    by (rule boot_nodes_get) (simp_all add: sample_path_def)
  then show ?thesis
    using boot_nodes_get(1) unfolding tmpfs_init_boot
    by (simp add: tmpfs_open_def Let_def tmpfs_consts
        new_dir_def new_file_def tmpfs_alloc_fd_def push_open_def sample_fs_def sample_od_def wrap_i32_def)
qed

lemma sample_reachable: "tmpfs_reachable sample_st"
proof -
  have "tmpfs_step (tmpfs_init tmpfs_boot) sample_st"
    using sample_open by (intro ts_open) (auto simp: sample_st_def tmpfs_init_def tmpfs_boot_def TMPFS_FD_BASE_def)
  then show ?thesis by blast
qed

lemma sample_facts:
  "tfs sample_st = Some sample_fs" "fd_file sample_fs 4000 sample_od (new_file 420)"
  "o_writable sample_od" "t_total sample_fs = 0" "o_path sample_od = sample_path" "o_pos sample_od = 0"
  by (simp_all add: sample_st_def sample_open sample_fs_def fd_file_def bt_get_insert)
    (simp_all add: sample_od_def bt_get_insert new_file_def)

theorem tmpfs_pwrite_longest_prefix_witness:
  "fst (tmpfs_pwrite 4000 [1, 2, 3] 0 sample_st) = ENOSPC \<or>
   0 < fst (tmpfs_pwrite 4000 [1, 2, 3] 0 sample_st)"
proof -
  have "[1, 2, 3 :: u8] \<noteq> []" by simp
  from tmpfs_pwrite_longest_prefix [OF sample_reachable sample_facts(1-3) this prod.collapse [symmetric], of 0]
  show ?thesis by auto
qed

lemma nth_write_result:
  assumes "i < length (write_result data off bs)"
  shows "write_result data off bs ! i =
    (if off \<le> i \<and> i < off + length bs then bs ! (i - off)
     else if i < length data then data ! i else 0)"
  using assms
  by (auto simp: write_result_def overwrite_def resize0_def nth_append max_def min_def not_less not_le
      less_diff_conv le_diff_conv2 split: if_splits)

text \<open>C8 (a write reads back and touches nothing else): after a \<open>pwrite\<close> that reports \<open>r > 0\<close>,
  \<open>pread\<close> of \<open>r\<close> bytes at the same offset returns the first \<open>r\<close> bytes of the buffer; every
  other byte of the file is as before, a gap between the old end and the offset reads as
  zero, and no other node and no descriptor changed.\<close>

theorem tmpfs_pwrite_pread:
  assumes "tmpfs_reachable st" and "tfs st = Some fs" and "fd_file fs fd od nd" and "o_writable od"
    and "tmpfs_pwrite fd buf off st = (r, st')" and "0 < r"
  shows "tmpfs_pread fd (nat r) off st' = (r, take (nat r) buf) \<and>
    (\<exists>fs' nd'. tfs st' = Some fs' \<and> t_open fs' = t_open fs \<and> fd_file fs' fd od nd' \<and>
       (\<forall>k. k \<noteq> o_path od \<longrightarrow> bt_get (t_nodes fs') k = bt_get (t_nodes fs) k) \<and>
       length (n_data nd') = max (length (n_data nd)) (off + nat r) \<and>
       (\<forall>i < length (n_data nd'). n_data nd' ! i =
          (if off \<le> i \<and> i < off + nat r then buf ! (i - off)
           else if i < length (n_data nd) then n_data nd ! i else 0)))"
proof -
  have inv: "fs_ok fs"
    using tmpfs_sys.reachable_inv [OF refl assms(1)] assms(2) by (auto simp: tmpfs_inv_def)
  have nd: "bt_get (t_nodes fs) (o_path od) = Some nd" "\<not> n_is_dir nd"
    using assms(3) by (auto simp: fd_file_def)
  define n where "n = min (length buf) (write_max (t_total fs) (length (n_data nd)) off)"
  note pw = pwrite_file [OF assms(2,3,4), of buf off]
  have pos: "0 < n"
  proof (rule ccontr)
    assume "\<not> 0 < n"
    then have "min (length buf) (write_max (t_total fs) (length (n_data nd)) off) = 0"
      unfolding n_def by linarith
    then have "fst (tmpfs_pwrite fd buf off st) \<le> 0"
      using pw write_at_full [OF nd] by (simp add: ENOSPC_def)
    with assms(5,6) show False by simp
  qed
  define nd' where "nd' = nd\<lparr>n_data := write_result (n_data nd) off (take n buf)\<rparr>"
  define fs' where "fs' = fs\<lparr>t_total := t_total fs + (off + n - length (n_data nd)), t_nodes :=
      bt_insert (o_path od) nd' (t_nodes fs)\<rparr>"
  have eq: "r = int n" "st' = st\<lparr>tfs := Some fs'\<rparr>"
    using pw write_at_file [OF inv nd n_def pos] assms(5) by (auto simp: fs'_def nd'_def)
  have f: "fd_file fs' fd od nd'"
    using assms(3) by (simp add: fd_file_def fs'_def nd'_def bt_get_insert)
  have len: "length (take n buf) = n" "n \<le> length buf" by (simp_all add: n_def)
  have l: "length (n_data nd') = max (length (n_data nd)) (off + n)"
    using len by (simp add: nd'_def min_absorb2)
  have nth: "n_data nd' ! i = (if off \<le> i \<and> i < off + n then buf ! (i - off)
           else if i < length (n_data nd) then n_data nd ! i else 0)" if "i < length (n_data nd')" for i
    using nth_write_result [of i "n_data nd" off "take n buf"] that len by (auto simp: nd'_def)
  have rdback: "take n (drop off (n_data nd')) = take n buf"
    by (rule nth_equalityI) (use l nth len pos in \<open>auto simp: max_def\<close>)
  have "n \<le> 2 * CAP"
    using inv used_ge [OF nd(1)] by (auto simp: n_def write_max_def Let_def fs_ok_def)
  then have "n < two63" by (simp add: CAP_def)
  with l rdback have "tmpfs_pread fd n off st' = (int n, take n buf)"
    using pread_file [of st' fs' fd od nd' n off] f eq pos
    by (auto simp: read_at_def Let_def as_i64_small max_def)
  with eq f l nth show ?thesis
    by (auto simp: fs'_def bt_get_insert intro!: exI [of _ nd'])
qed

lemma sample_pwrite_pos: "0 < fst (tmpfs_pwrite 4000 [1, 2, 3] 0 sample_st)"
proof -
  have "fs_ok sample_fs"
    using tmpfs_sys.reachable_inv [OF refl sample_reachable] sample_facts(1) by (auto simp: tmpfs_inv_def)
  note w = write_at_file [OF this, of "o_path sample_od" "new_file 420" 3 "[1, 2, 3]" 0]
  have "write_max 0 0 0 = CAP" by (simp add: write_max_def)
  then show ?thesis
    using w sample_facts pwrite_file [OF sample_facts(1-3), of "[1, 2, 3]" 0]
    by (simp add: fd_file_def new_file_def CAP_def)
qed

theorem tmpfs_pwrite_pread_witness:
  "snd (tmpfs_pread 4000 (nat (fst (tmpfs_pwrite 4000 [1, 2, 3] 0 sample_st))) 0
     (snd (tmpfs_pwrite 4000 [1, 2, 3] 0 sample_st)))
   = take (nat (fst (tmpfs_pwrite 4000 [1, 2, 3] 0 sample_st))) [1, 2, 3]"
  using tmpfs_pwrite_pread [OF sample_reachable sample_facts(1-3) prod.collapse [symmetric]
      sample_pwrite_pos] by simp

section \<open>Sequential reads\<close>

text \<open>A sequence of \<open>read\<close> calls on one descriptor, with the bytes they return.\<close>

fun tmpfs_reads :: "i32 \<Rightarrow> usize list \<Rightarrow> tmpfs_state \<Rightarrow> bytes \<times> tmpfs_state" where
  "tmpfs_reads fd [] st = ([], st)"
| "tmpfs_reads fd (c # cs) st =
     (let (r, bs, st) = tmpfs_read fd c st; (rest, st) = tmpfs_reads fd cs st in (bs @ rest, st))"

lemma tmpfs_read_file:
  assumes "tfs st = Some fs" and "fd_file fs fd od nd" and "length (n_data nd) < two63"
  shows "\<exists>fs' od'. tmpfs_read fd count st =
      (int (min count (length (n_data nd) - o_pos od)), take count (drop (o_pos od) (n_data nd)),
       st\<lparr>tfs := Some fs'\<rparr>) \<and>
    fd_file fs' fd od' nd \<and> t_nodes fs' = t_nodes fs \<and>
    drop (o_pos od') (n_data nd) = drop count (drop (o_pos od) (n_data nd))"
proof -
  obtain i where i: "position (\<lambda>od. o_fd od = fd) (t_open fs) = Some i" "t_open fs ! i = od"
    "i < length (t_open fs)" using assms(2) by (rule fd_file_position)
  have fd: "o_fd od = fd" using position_SomeD(2) [OF i(1)] i(2) by simp
  define n where "n = min count (length (n_data nd) - o_pos od)"
  define od' where "od' = (if n = 0 then od else od\<lparr>o_pos := o_pos od + n\<rparr>)"
  define fs' where "fs' = set_open i od' fs"
  have od': "o_fd od' = fd" "o_path od' = o_path od" "o_is_dir od' = o_is_dir od"
    using fd by (simp_all add: od'_def)
  have "read_at nd (o_pos od) count = (int n, take count (drop (o_pos od) (n_data nd)))"
    using assms(3) by (auto simp: read_at_def Let_def n_def as_i64_small min_def)
  moreover have "wadd64 (o_pos od) (as_usize (int n)) = o_pos od + n" if "0 < n"
  proof -
    have "o_pos od + n \<le> length (n_data nd)" using that by (auto simp: n_def)
    with assms(3) show ?thesis by (simp add: as_usize_nonneg wadd64_small)
  qed
  ultimately have read: "tmpfs_read fd count st =
      (int n, take count (drop (o_pos od) (n_data nd)), st\<lparr>tfs := Some fs'\<rparr>)"
    using assms(1,2) i
    by (auto simp: tmpfs_read_def fd_file_def Let_def fs'_def od'_def set_open_def list_update_same_conv)
  have "position (\<lambda>od. o_fd od = fd) ((t_open fs)[i := od']) = Some i"
    using i(1,3) od'(1) by (auto simp: position_Some_iff)
  then have "fd_file fs' fd od' nd"
    using assms(2) i(3) od' by (simp add: fd_file_def position_find fs'_def set_open_def)
  moreover have "drop (o_pos od') (n_data nd) = drop count (drop (o_pos od) (n_data nd))"
    by (auto simp: od'_def n_def min_def add.commute)
  ultimately show ?thesis using read
    by (intro exI [of _ fs'] exI [of _ od']) (simp add: n_def fs'_def set_open_def)
qed

text \<open>C27 (sequential reads deliver the file): however a reader chunks its \<open>read\<close> calls, the
  bytes returned are, in order and without gap or repetition, the contents of the file from
  the descriptor's offset, as many as asked for or up to the end.\<close>

theorem tmpfs_reads_contents:
  assumes "tmpfs_reachable st" and "tfs st = Some fs" and "fd_file fs fd od nd"
  shows "fst (tmpfs_reads fd counts st) = take (sum_list counts) (drop (o_pos od) (n_data nd))"
proof -
  have "length (n_data nd) < two63"
  proof -
    have "fs_ok fs"
      using tmpfs_sys.reachable_inv [OF refl assms(1)] assms(2) by (auto simp: tmpfs_inv_def)
    then have "length (n_data nd) \<le> CAP"
      using assms(3) used_ge [of "t_nodes fs" "o_path od" nd] by (auto simp: fs_ok_def fd_file_def)
    then show ?thesis by simp
  qed
  with assms(2,3) show ?thesis
  proof (induction counts arbitrary: st fs od)
    case Nil
    then show ?case by simp
  next
    case (Cons c cs)
    obtain fs' od' where r: "tmpfs_read fd c st =
        (int (min c (length (n_data nd) - o_pos od)), take c (drop (o_pos od) (n_data nd)),
         st\<lparr>tfs := Some fs'\<rparr>)"
      and f: "fd_file fs' fd od' nd"
      and d: "drop (o_pos od') (n_data nd) = drop c (drop (o_pos od) (n_data nd))"
      using tmpfs_read_file [OF Cons.prems, of c] by blast
    have "fst (tmpfs_reads fd cs (st\<lparr>tfs := Some fs'\<rparr>)) =
        take (sum_list cs) (drop c (drop (o_pos od) (n_data nd)))"
      using Cons.IH [of "st\<lparr>tfs := Some fs'\<rparr>" fs' od'] f d Cons.prems(3) by simp
    then show ?case
      using r by (cases "tmpfs_reads fd cs (st\<lparr>tfs := Some fs'\<rparr>)") (simp add: take_add)
  qed
qed

theorem tmpfs_reads_contents_witness:
  "fst (tmpfs_reads 4000 [2, 0, 5] sample_st) = []"
  using tmpfs_reads_contents [OF sample_reachable sample_facts(1,2), of "[2, 0, 5]"]
  by (simp add: new_file_def)

section \<open>Errors\<close>



section \<open>Renaming\<close>

text \<open>C23 (a successful rename moves the node): the node of the old path is found, unchanged, at the
  new path and no longer at the old one, every other path is as before, the bytes of an
  overwritten destination are given back, and the descriptor table is untouched.\<close>

theorem tmpfs_rename_moves:
  assumes "tmpfs_reachable st" and "tfs st = Some fs" and "norm old \<noteq> norm new"
    and "tmpfs_rename old new st = (0, st')"
  shows "\<exists>fs'. tfs st' = Some fs' \<and> t_open fs' = t_open fs \<and>
    bt_get (t_nodes fs) (norm old) \<noteq> None \<and>
    bt_get (t_nodes fs') = (bt_get (t_nodes fs))(norm old := None, norm new := bt_get (t_nodes fs) (norm old)) \<and>
    t_total fs' + file_len fs (norm new) = t_total fs"
proof -
  let ?src = "norm old" and ?nw = "norm new"
  have ok: "fs_ok fs"
    using tmpfs_sys.reachable_inv [OF refl assms(1)] assms(2) by (auto simp: tmpfs_inv_def)
  obtain snode p where src: "bt_get (t_nodes fs) ?src = Some snode"
    and p: "bt_get (t_nodes fs) (parent ?nw) = Some p" "n_is_dir p"
    using assms(2-4) by (auto simp: tmpfs_rename_def Let_def errnos split: option.splits if_splits)
  note unf = tmpfs_rename_unfold [OF assms(2,3) src p]
  define fs1 where "fs1 = (case bt_get (t_nodes fs) ?nw of None \<Rightarrow> fs | Some dst \<Rightarrow> drop_dest fs ?nw dst)"
  have st': "st' = st\<lparr>tfs := Some (fs1\<lparr>t_nodes := bt_insert ?nw snode (bt_remove ?src (t_nodes fs1))\<rparr>)\<rparr>"
    using unf assms(4) by (auto simp: fs1_def rename_finish_def errnos split: option.splits if_splits)
  have "bt_get (bt_insert ?nw snode (bt_remove ?src (t_nodes fs1))) =
      (bt_get (t_nodes fs))(?src := None, ?nw := Some snode)"
    by (auto simp: fun_eq_iff fs1_def drop_dest_def bt_get_insert bt_get_remove split: option.splits)
  moreover have "t_total fs1 + file_len fs ?nw = t_total fs"
  proof (cases "bt_get (t_nodes fs) ?nw")
    case None
    then show ?thesis by (simp add: fs1_def file_len_def)
  next
    case (Some dst)
    then have "length (n_data dst) \<le> t_total fs" "t_total fs \<le> CAP" "n_is_dir dst \<Longrightarrow> n_data dst = []"
      using ok used_ge [OF Some] by (auto simp: fs_ok_def tree_ok_def)
    with Some show ?thesis by (simp add: fs1_def file_len_def drop_dest_def wsub64_small)
  qed
  moreover have "t_open fs1 = t_open fs" by (simp add: fs1_def drop_dest_def split: option.splits)
  ultimately show ?thesis using st' src by simp
qed

definition sample_new :: bytes where
  "sample_new = [47, 116, 109, 112, 47, 98]"

lemma sample_rename: "fst (tmpfs_rename sample_path sample_new sample_st) = 0"
proof -
  have n: "norm sample_new = sample_new"
    by (simp add: norm_def sample_new_def starts_with_def drop_trailing.simps slash_def)
  have p: "parent sample_new = str ''/tmp''"
    by (simp add: parent_def sample_new_def rposition_def slash_def)
  have ne: "sample_path \<noteq> sample_new" "str ''/tmp'' \<noteq> sample_path" "sample_new \<noteq> str ''/tmp''"
    "sample_new \<noteq> str ''/dev/shm''"
    by (simp_all add: sample_path_def sample_new_def)
  have g: "bt_get (t_nodes sample_fs) sample_new = None"
    "bt_get (t_nodes sample_fs) (parent (norm sample_new)) = Some (new_dir 511)"
    "bt_get (t_nodes sample_fs) (norm sample_path) = Some (new_file 420)"
    using ne boot_nodes_get by (auto simp: sample_fs_def bt_get_insert p n simp del: str_simps)
  show ?thesis
    using tmpfs_rename_unfold [OF sample_facts(1) _ g(3,2)] g(1) ne(1)
    by (simp add: n rename_finish_def new_dir_def new_file_def)
qed

theorem tmpfs_rename_moves_witness:
  "\<exists>fs'. tfs (snd (tmpfs_rename sample_path sample_new sample_st)) = Some fs' \<and> t_open fs' = t_open sample_fs"
proof -
  have "norm sample_path \<noteq> norm sample_new"
    by (simp add: norm_def sample_path_def sample_new_def starts_with_def drop_trailing.simps slash_def)
  moreover have "tmpfs_rename sample_path sample_new sample_st =
      (0, snd (tmpfs_rename sample_path sample_new sample_st))"
    using sample_rename by (metis prod.collapse)
  ultimately show ?thesis
    using tmpfs_rename_moves [OF sample_reachable sample_facts(1)] by blast
qed


text \<open>(a directory can be renamed below itself): renaming the empty directory \<open>/tmp/a\<close> to
  \<open>/tmp/a/b\<close> reports success and leaves a node whose parent directory does not exist.\<close>

theorem tmpfs_rename_orphan:
  "let st = snd (tmpfs_mkdir (str ''/tmp/a'') 0 (tmpfs_init tmpfs_boot));
       (r, st') = tmpfs_rename (str ''/tmp/a'') (str ''/tmp/a/b'') st
   in r = 0 \<and> tmpfs_access (str ''/tmp/a/b'') st' = 0 \<and> tmpfs_access (str ''/tmp/a'') st' = ENOENT"
  by code_simp

section \<open>Truncation\<close>

text \<open>C32 (\<open>ftruncate\<close>, all outcomes): on a regular file \<open>ftruncate\<close> cuts the file or extends it with
  zeros when that keeps the file system within its cap, and otherwise reports \<open>ENOSPC\<close> without
  effect, except that the cap test itself adds with wrap-around: when the byte counter plus the
  growth reaches \<open>2 ^ 64\<close> (for instance \<open>ftruncate(fd, -1)\<close> while another file is not empty)
  the test passes and the kernel panics in \<open>Vec::resize\<close>.\<close>

theorem tmpfs_ftruncate_outcome:
  assumes "tmpfs_reachable st" and "tfs st = Some fs" and "fd_file fs fd od nd" and "len < two64"
  shows "tmpfs_ftruncate fd len st =
    (if t_total fs + len \<le> CAP + length (n_data nd) \<or> len \<le> length (n_data nd)
     then Done (0, st\<lparr>tfs := Some (fs\<lparr>t_total := t_total fs + len - length (n_data nd),
            t_nodes := bt_insert (o_path od) (nd\<lparr>n_data := resize0 len (n_data nd)\<rparr>) (t_nodes fs)\<rparr>)\<rparr>)
     else if t_total fs + (len - length (n_data nd)) < two64 then Done (ENOSPC, st)
     else Panic)"
proof -
  let ?cur = "length (n_data nd)"
  have ok: "fs_ok fs"
    using tmpfs_sys.reachable_inv [OF refl assms(1)] assms(2) by (auto simp: tmpfs_inv_def)
  have nd: "bt_get (t_nodes fs) (o_path od) = Some nd" "\<not> n_is_dir nd"
    using assms(3) by (auto simp: fd_file_def)
  have le: "?cur \<le> t_total fs" and cap: "t_total fs \<le> CAP"
    using used_ge [OF nd(1)] ok by (auto simp: fs_ok_def)
  have same: "st\<lparr>tfs := Some fs\<rparr> = st" using assms(2) by (cases st) simp
  have ft: "tmpfs_ftruncate fd len st =
      map_outcome (\<lambda>(r, fs). (r, st\<lparr>tfs := Some fs\<rparr>)) (resize_path fs (o_path od) len)"
    using assms(2,3) by (simp add: tmpfs_ftruncate_def fd_file_def)
  consider (shrink) "len \<le> ?cur" | (grow) "?cur < len" "t_total fs + (len - ?cur) < two64"
    | (wrap) "?cur < len" "two64 \<le> t_total fs + (len - ?cur)" by linarith
  then show ?thesis
  proof cases
    case shrink
    then have "wsub64 (t_total fs) (?cur - len) = t_total fs + len - ?cur"
      using le cap by (simp add: wsub64_small)
    moreover have "\<not> two63 \<le> len" using shrink le cap_lt(1) [OF cap] by linarith
    ultimately show ?thesis using shrink nd by (simp add: ft resize_path_def Let_def)
  next
    case grow
    then have w: "wadd64 (t_total fs) (len - ?cur) = t_total fs + len - ?cur"
      by (simp add: wadd64_small)
    moreover have "\<not> two63 \<le> len" if "t_total fs + len \<le> CAP + ?cur"
      using that le cap by (simp add: CAP_def)
    ultimately show ?thesis
      using grow nd same by (auto simp: ft resize_path_def Let_def)
  next
    case wrap
    then have "wadd64 (t_total fs) (len - ?cur) = t_total fs + (len - ?cur) - two64"
      using cap_lt(2) [OF cap] assms(4) by (simp add: wadd64_def mod_if)
    then have "wadd64 (t_total fs) (len - ?cur) \<le> CAP" using cap assms(4) by linarith
    moreover have "two63 \<le> len" "\<not> t_total fs + len \<le> CAP + ?cur"
      using wrap cap by (simp_all add: CAP_def)
    ultimately show ?thesis using wrap nd by (simp add: ft resize_path_def Let_def)
  qed
qed

theorem tmpfs_ftruncate_outcome_witness:
  "\<exists>st'. tmpfs_ftruncate 4000 3 sample_st = Done (0, st')"
  using tmpfs_ftruncate_outcome [OF sample_reachable sample_facts(1,2), of 3] sample_facts(4)
  by (simp add: CAP_def new_file_def)

section \<open>The emptiness test\<close>

lemma descendant_has_child:
  assumes "tree_ok t" and "bt_get t dir = Some d"
  shows "bt_get t k = Some nd \<Longrightarrow> starts_with k (dir @ [slash]) \<Longrightarrow>
    \<exists>k' nd'. bt_get t k' = Some nd' \<and> parent k' = dir"
proof (induction "length k" arbitrary: k nd rule: less_induct)
  case less
  obtain rest where k: "k = dir @ slash # rest" using less.prems(2) by (auto simp: starts_with_iff)
  have "dir \<noteq> []" "k \<notin> mount_roots"
    using tree_ok_under_mount [OF assms] k
    by (auto simp: under_mount_def mount_roots_def starts_with_def slash_def str_def append_eq_Cons_conv
        Cons_eq_append_conv)
  show ?case
  proof (cases "slash \<in> set rest")
    case False
    then show ?thesis using parent_of_child [OF \<open>dir \<noteq> []\<close>] less.prems(1) k by blast
  next
    case True
    then obtain a b where "rest = a @ slash # b" "slash \<notin> set b" by (metis split_list_last)
    then have par: "parent k = (dir @ [slash]) @ a" and lt: "length (parent k) < length k"
      using parent_of_child [of "dir @ slash # a" b] k by auto
    obtain p where "bt_get t (parent k) = Some p"
      using assms(1) less.prems(1) \<open>k \<notin> mount_roots\<close> unfolding tree_ok_def is_dir_at_def by blast
    then show ?thesis using less.hyps [OF lt] par by (metis starts_with_self_append)
  qed
qed



section \<open>Directory listings\<close>

text \<open>
  A reader of a directory: \<open>getdents64\<close> with a buffer of \<open>count\<close> bytes until it returns 0,
  collecting the records of each buffer; \<open>None\<close> when a call fails or the calls run out.
\<close>

fun tmpfs_list_dir :: "nat \<Rightarrow> i32 \<Rightarrow> usize \<Rightarrow> tmpfs_state \<Rightarrow> dirent list option" where
  "tmpfs_list_dir 0 fd count st = None"
| "tmpfs_list_dir (Suc calls) fd count st =
     (let (r, bs, st) = tmpfs_getdents64 fd count st
      in if r < 0 then None
         else if r = 0 then Some []
         else map_option ((@) (dirents bs)) (tmpfs_list_dir calls fd count st))"

definition fd_dir :: "tmpfs \<Rightarrow> i32 \<Rightarrow> open_fd \<Rightarrow> bool" where
  "fd_dir fs fd od \<longleftrightarrow> List.find (\<lambda>od. o_fd od = fd) (t_open fs) = Some od \<and> o_is_dir od"

definition dir_prefix :: "bytes \<Rightarrow> bytes" where
  "dir_prefix dir = (if dir \<noteq> str ''/'' then dir @ [slash] else dir)"

definition dir_records :: "tmpfs \<Rightarrow> bytes \<Rightarrow> dirent list" where
  "dir_records fs dir =
     (let names = child_names fs (dir_prefix dir)
      in map2 (tmpfs_dirent fs (dir_prefix dir)) [0..<length names] names)"

lemma length_dir_records [simp]: "length (dir_records fs dir) = length (child_names fs (dir_prefix dir))"
  by (simp add: dir_records_def Let_def)

lemma d_name_dir_records: "map d_name (dir_records fs dir) = child_names fs (dir_prefix dir)"
  by (rule nth_equalityI) (auto simp: dir_records_def Let_def tmpfs_dirent_def)

lemma emit_loop_spec:
  assumes "emit_loop mk count names out e = (out', e')" and "length out \<le> count"
    and "\<And>i name. d_name (mk i name) = name"
  shows "\<exists>k \<le> length names. e' = e + k \<and> length out' \<le> count \<and>
    out' = out @ concat (map dirent_bytes (map2 mk [e..<e + k] (take k names))) \<and>
    (k < length names \<longrightarrow> count < length out' + dirent_reclen (names ! k))"
  using assms
proof (induction names arbitrary: out e)
  case Nil
  then show ?case by simp
next
  case (Cons name names)
  show ?case
  proof (cases "count < length out + dirent_reclen name")
    case True
    with Cons.prems show ?thesis by (intro exI [of _ 0]) auto
  next
    case False
    let ?out = "out @ dirent_bytes (mk e name)"
    have "emit_loop mk count names ?out (e + 1) = (out', e')" "length ?out \<le> count"
      using Cons.prems False by auto
    from Cons.IH [OF this Cons.prems(3)] obtain k where k: "k \<le> length names" "e' = e + 1 + k"
      "length out' \<le> count"
      "out' = ?out @ concat (map dirent_bytes (map2 mk [e + 1..<e + 1 + k] (take k names)))"
      "k < length names \<longrightarrow> count < length out' + dirent_reclen (names ! k)" by blast
    moreover have "[e..<e + Suc k] = e # [e + 1..<e + 1 + k]" by (simp add: upt_rec)
    ultimately show ?thesis by (intro exI [of _ "Suc k"]) (auto simp del: upt_Suc)
  qed
qed

lemma take_drop_dir_records:
  assumes "p + k \<le> length (dir_records fs dir)"
  shows "map2 (tmpfs_dirent fs (dir_prefix dir)) [p..<p + k] (take k (drop p (child_names fs (dir_prefix dir))))
    = take k (drop p (dir_records fs dir))"
  using assms by (intro nth_equalityI) (auto simp: dir_records_def Let_def)

lemma getdents_step:
  assumes "tfs st = Some fs" and "fd_dir fs fd od" and "count < two63"
    and "\<And>d. d \<in> set (dir_records fs (o_path od)) \<Longrightarrow> dirent_ok d \<and> dirent_reclen (d_name d) \<le> count"
    and "o_dir_pos od \<le> length (dir_records fs (o_path od))"
  shows "\<exists>k bs fs' od'. tmpfs_getdents64 fd count st = (int (length bs), bs, st\<lparr>tfs := Some fs'\<rparr>) \<and>
    fd_dir fs' fd od' \<and> t_nodes fs' = t_nodes fs \<and> o_path od' = o_path od \<and>
    o_dir_pos od' = o_dir_pos od + k \<and> o_dir_pos od' \<le> length (dir_records fs (o_path od)) \<and>
    dirents bs = take k (drop (o_dir_pos od) (dir_records fs (o_path od))) \<and>
    (k = 0 \<longleftrightarrow> o_dir_pos od = length (dir_records fs (o_path od))) \<and> (bs = [] \<longleftrightarrow> k = 0)"
proof -
  let ?dir = "o_path od" and ?p = "o_dir_pos od"
  let ?names = "child_names fs (dir_prefix ?dir)" and ?mk = "tmpfs_dirent fs (dir_prefix ?dir)"
  obtain i where i: "position (\<lambda>od. o_fd od = fd) (t_open fs) = Some i" "t_open fs ! i = od"
    "i < length (t_open fs)"
    using assms(2) by (auto simp: fd_dir_def position_find dest: position_SomeD)
  have fd: "o_fd od = fd" using position_SomeD(2) [OF i(1)] i(2) by simp
  obtain out e' where em: "emit_loop ?mk count (drop ?p ?names) [] ?p = (out, e')" by force
  obtain k where k: "k \<le> length ?names - ?p" "e' = ?p + k" "length out \<le> count"
    "out = concat (map dirent_bytes (map2 ?mk [?p..<?p + k] (take k (drop ?p ?names))))"
    "k < length ?names - ?p \<longrightarrow> count < length out + dirent_reclen (drop ?p ?names ! k)"
    using emit_loop_spec [OF em] by (auto simp: tmpfs_dirent_def)
  define fs' where "fs' = set_open i (od\<lparr>o_dir_pos := e'\<rparr>) fs"
  have get: "tmpfs_getdents64 fd count st = (int (length out), out, st\<lparr>tfs := Some fs'\<rparr>)"
    using assms(1,2,3) i em k(3)
    by (auto simp: tmpfs_getdents64_def fd_dir_def Let_def dir_prefix_def fs'_def as_i64_small
        split: if_splits)
  have "position (\<lambda>od. o_fd od = fd) ((t_open fs)[i := od\<lparr>o_dir_pos := e'\<rparr>]) = Some i"
    using i fd by (auto simp: position_Some_iff)
  then have fdd: "fd_dir fs' fd (od\<lparr>o_dir_pos := e'\<rparr>)"
    using assms(2) i(3) by (simp add: fd_dir_def position_find fs'_def set_open_def)
  have pk: "?p + k \<le> length (dir_records fs ?dir)" using k(1) assms(5) by simp
  have recs: "out = concat (map dirent_bytes (take k (drop ?p (dir_records fs ?dir))))"
    using k(4) take_drop_dir_records [OF pk] by simp
  have ds: "dirents out = take k (drop ?p (dir_records fs ?dir))"
    unfolding recs using assms(4) by (intro dirents_concat) (meson in_set_dropD in_set_takeD)
  have stop: "k \<noteq> 0" if "?p < length (dir_records fs ?dir)"
  proof
    assume "k = 0"
    then have "count < dirent_reclen (?names ! ?p)" using k(4,5) that by simp
    moreover have "?names ! ?p = d_name (dir_records fs ?dir ! ?p)"
      using that d_name_dir_records [of fs ?dir] by (metis length_dir_records nth_map)
    ultimately show False using assms(4) [OF nth_mem [OF that]] by simp
  qed
  have ne: "out = [] \<longleftrightarrow> k = 0"
  proof
    assume "out = []"
    then have "take k (drop ?p (dir_records fs ?dir)) = []" using ds by simp
    then show "k = 0" using pk by auto
  qed (use k(4) in simp)
  have "k = 0 \<longleftrightarrow> ?p = length (dir_records fs ?dir)"
    using stop assms(5) pk by (cases "?p < length (dir_records fs ?dir)") auto
  then show ?thesis
    using get fdd k(2) pk ds ne
    by (intro exI [of _ k] exI [of _ out] exI [of _ fs'] exI [of _ "od\<lparr>o_dir_pos := e'\<rparr>"])
      (auto simp: fs'_def set_open_def)
qed

lemma dir_records_cong: "t_nodes fs' = t_nodes fs \<Longrightarrow> dir_records fs' dir = dir_records fs dir"
  by (simp add: dir_records_def child_names_def tmpfs_dirent_def [abs_def])

lemma tmpfs_list_dir_records:
  assumes "tfs st = Some fs" and "fd_dir fs fd od" and "count < two63"
    and "\<And>d. d \<in> set (dir_records fs (o_path od)) \<Longrightarrow> dirent_ok d \<and> dirent_reclen (d_name d) \<le> count"
    and "o_dir_pos od \<le> length (dir_records fs (o_path od))"
    and "length (dir_records fs (o_path od)) - o_dir_pos od < calls"
  shows "tmpfs_list_dir calls fd count st = Some (drop (o_dir_pos od) (dir_records fs (o_path od)))"
  using assms
proof (induction calls arbitrary: st fs od)
  case 0
  then show ?case by simp
next
  case (Suc calls)
  let ?recs = "dir_records fs (o_path od)"
  obtain k bs fs' od' where g: "tmpfs_getdents64 fd count st = (int (length bs), bs, st\<lparr>tfs := Some fs'\<rparr>)"
    and f: "fd_dir fs' fd od'" "t_nodes fs' = t_nodes fs" "o_path od' = o_path od"
    and pos: "o_dir_pos od' = o_dir_pos od + k" "o_dir_pos od' \<le> length ?recs"
    and ds: "dirents bs = take k (drop (o_dir_pos od) ?recs)"
    and k: "k = 0 \<longleftrightarrow> o_dir_pos od = length ?recs" "bs = [] \<longleftrightarrow> k = 0"
    using getdents_step [OF Suc.prems(1-5)] by blast
  note same = dir_records_cong [OF f(2)]
  show ?case
  proof (cases "k = 0")
    case True
    with g k show ?thesis by simp
  next
    case False
    then have "tmpfs_list_dir calls fd count (st\<lparr>tfs := Some fs'\<rparr>) = Some (drop (o_dir_pos od') ?recs)"
      using Suc.IH [of "st\<lparr>tfs := Some fs'\<rparr>" fs' od'] f pos Suc.prems(3,4,6) same by simp
    moreover have "bs \<noteq> []" using False k(2) by simp
    ultimately show ?thesis
      using g ds pos(1) append_take_drop_id [of k "drop (o_dir_pos od) ?recs"]
      by (simp add: add.commute)
  qed
qed

lemma child_names_spec:
  assumes "bt_inv (t_nodes fs)"
  shows "distinct (child_names fs prefix)"
    and "set (child_names fs prefix) =
      {name. name \<noteq> [] \<and> slash \<notin> set name \<and> bt_get (t_nodes fs) (prefix @ name) \<noteq> None}"
proof -
  have "inj_on (drop (length prefix)) {k. starts_with k prefix}"
    by (auto simp: inj_on_def starts_with_iff)
  then show "distinct (child_names fs prefix)"
    using bt.keys_distinct [OF assms] unfolding child_names_def
    by (auto simp: distinct_map intro: inj_on_subset)
  show "set (child_names fs prefix) =
      {name. name \<noteq> [] \<and> slash \<notin> set name \<and> bt_get (t_nodes fs) (prefix @ name) \<noteq> None}"
  proof (intro equalityI subsetI)
    fix name assume "name \<in> set (child_names fs prefix)"
    then show "name \<in> {name. name \<noteq> [] \<and> slash \<notin> set name \<and> bt_get (t_nodes fs) (prefix @ name) \<noteq> None}"
      by (auto simp: child_names_def bt_keys_dom starts_with_iff)
  next
    fix name assume "name \<in> {name. name \<noteq> [] \<and> slash \<notin> set name \<and> bt_get (t_nodes fs) (prefix @ name) \<noteq> None}"
    then have "prefix @ name \<in> set (bt_keys (t_nodes fs))" "name \<noteq> []" "slash \<notin> set name"
      by (auto simp: bt_keys_dom)
    then show "name \<in> set (child_names fs prefix)"
      by (auto simp: child_names_def image_iff intro!: bexI [of _ "prefix @ name"])
  qed
qed

text \<open>C21 (a directory listing is complete): a reader that calls \<open>getdents64\<close> until it returns 0, with
  a buffer in which every single record fits, gets after finitely many calls exactly one
  record for each immediate child of the directory, whatever the buffer size, with the right
  file type. (File names are C strings of ordinary length.)\<close>

theorem tmpfs_listing_complete:
  assumes "tmpfs_reachable st" and "tfs st = Some fs" and "fd_dir fs fd od" and "o_dir_pos od = 0"
    and "count < two63"
    and "\<forall>d \<in> set (dir_records fs (o_path od)). dirent_ok d \<and> dirent_reclen (d_name d) \<le> count"
  shows "\<exists>ds. tmpfs_list_dir (length (dir_records fs (o_path od)) + 1) fd count st = Some ds \<and>
    distinct (map d_name ds) \<and>
    set (map d_name ds) = {name. name \<noteq> [] \<and> slash \<notin> set name \<and>
       bt_get (t_nodes fs) (dir_prefix (o_path od) @ name) \<noteq> None} \<and>
    (\<forall>d \<in> set ds. d_type d = (if is_dir_at (t_nodes fs) (dir_prefix (o_path od) @ d_name d) then 4 else 8))"
proof -
  let ?ds = "dir_records fs (o_path od)"
  have inv: "bt_inv (t_nodes fs)"
    using tmpfs_sys.reachable_inv [OF refl assms(1)] assms(2) by (auto simp: tmpfs_inv_def fs_ok_def)
  have "tmpfs_list_dir (length ?ds + 1) fd count st = Some ?ds"
    using tmpfs_list_dir_records [OF assms(2,3,5), of "length ?ds + 1"] assms(4,6) by simp
  moreover have "\<forall>d \<in> set ?ds. d_type d =
      (if is_dir_at (t_nodes fs) (dir_prefix (o_path od) @ d_name d) then 4 else 8)"
    by (auto simp: dir_records_def Let_def tmpfs_dirent_def is_dir_at_def set_zip split: option.splits)
  moreover have "distinct (map d_name ?ds)" "set (map d_name ?ds) = {name. name \<noteq> [] \<and>
      slash \<notin> set name \<and> bt_get (t_nodes fs) (dir_prefix (o_path od) @ name) \<noteq> None}"
    unfolding d_name_dir_records by (rule child_names_spec [OF inv])+
  ultimately show ?thesis by blast
qed

definition sample_dir_od :: open_fd where
  "sample_dir_od = \<lparr>o_fd = 4001, o_path = str ''/tmp'', o_pos = 0, o_append = False, o_writable = False,
     o_is_dir = True, o_dir_pos = 0\<rparr>"

lemma sample_dir:
  "tmpfs_open (str ''/tmp'') 0 0 sample_st =
     (4001, \<lparr>tfs = Some (push_open sample_dir_od sample_fs), tmpfs_next_fd = 4002\<rparr>)"
  "fd_dir (push_open sample_dir_od sample_fs) 4001 sample_dir_od"
  "dir_records (push_open sample_dir_od sample_fs) (o_path sample_dir_od) =
     [\<lparr>d_ino = 1, d_off = 1, d_type = 8, d_name = [97]\<rparr>]"
proof -
  have norm: "norm (str ''/tmp'') = str ''/tmp''"
    by (simp add: norm_def starts_with_def drop_trailing.simps slash_def)
  have get: "bt_get (t_nodes sample_fs) (str ''/tmp'') = Some (new_dir 511)"
    using boot_nodes_get(1) by (auto simp: sample_fs_def bt_get_insert sample_path_def)
  have len: "length (t_open sample_fs) = 1" by (simp add: sample_fs_def One_nat_def)
  have st: "sample_st = \<lparr>tfs = Some sample_fs, tmpfs_next_fd = 4001\<rparr>"
    by (simp add: sample_st_def sample_open)
  show "tmpfs_open (str ''/tmp'') 0 0 sample_st =
     (4001, \<lparr>tfs = Some (push_open sample_dir_od sample_fs), tmpfs_next_fd = 4002\<rparr>)"
    by (simp add: st get [simplified] norm [simplified] len tmpfs_open_def Let_def new_dir_def tmpfs_alloc_fd_def wrap_i32_def sample_dir_od_def
        tmpfs_consts)
  show "fd_dir (push_open sample_dir_od sample_fs) 4001 sample_dir_od"
    by (simp add: fd_dir_def push_open_def sample_fs_def sample_od_def sample_dir_od_def)
  show "dir_records (push_open sample_dir_od sample_fs) (o_path sample_dir_od) =
     [\<lparr>d_ino = 1, d_off = 1, d_type = 8, d_name = [97]\<rparr>]"
    by (simp add: dir_records_def dir_prefix_def child_names_def push_open_def sample_fs_def
        sample_dir_od_def sample_path_def boot_nodes_def bt_keys_def starts_with_def slash_def
        tmpfs_dirent_def wadd64_def bt_get_def new_file_def)
qed

theorem tmpfs_listing_complete_witness:
  "\<exists>ds. tmpfs_list_dir 2 4001 24 (snd (tmpfs_open (str ''/tmp'') 0 0 sample_st)) = Some ds \<and>
     distinct (map d_name ds)"
proof -
  let ?st = "snd (tmpfs_open (str ''/tmp'') 0 0 sample_st)"
  have "tmpfs_step sample_st ?st"
    by (rule ts_open) (auto simp: sample_st_def sample_open intro: prod.collapse [symmetric])
  then have r: "tmpfs_reachable ?st" using sample_reachable by simp
  have t: "tfs ?st = Some (push_open sample_dir_od sample_fs)" by (simp only: sample_dir(1)) simp
  have ok: "\<forall>d \<in> set (dir_records (push_open sample_dir_od sample_fs) (o_path sample_dir_od)).
      dirent_ok d \<and> dirent_reclen (d_name d) \<le> 24"
    unfolding sample_dir(3) by (simp add: dirent_ok_def dirent_reclen_def align_down_def)
  have z: "o_dir_pos sample_dir_od = 0" by (simp add: sample_dir_od_def)
  have n: "length (dir_records (push_open sample_dir_od sample_fs) (o_path sample_dir_od)) + 1 = 2"
    unfolding sample_dir(3) by simp
  show ?thesis
    using tmpfs_listing_complete [OF r t sample_dir(2) z _ ok, unfolded n] by auto
qed

end
