(* ===== verification/Vfs.thy ===== *)
theory Vfs
  imports Dirent
begin

text \<open>
  The read-only file system of \<open>src/src/vfs.rs\<close>: a cpio archive in the \<open>newc\<close> format, a table of
  256 open files and eight directory slots. The record \<open>vfs\<close> holds the archive
  (\<open>cpio_data()\<close>), the descriptor counter \<open>NEXT_VFS_FD\<close>, \<open>OPEN_FILES\<close> and \<open>DIR_SLOTS\<close>. The
  scans over the archive are total functions (the offset grows at every entry); slice
  expressions that are out of range make the outcome \<open>Panic\<close>. Archive offsets are sums of a
  few 32-bit fields and an offset inside the archive, so they are written without wrap-around.
\<close>

section \<open>Data\<close>

definition VFS_MAX_OPEN :: usize where
  "VFS_MAX_OPEN = 256"

definition MAX_DIRS :: usize where
  "MAX_DIRS = 8"

definition DIR_FD_BASE :: i32 where
  "DIR_FD_BASE = 900"

record open_file =
  f_fd :: i32
  f_data_offset :: usize
  f_data_len :: usize
  f_pos :: usize

record dir_slot =
  ds_fd :: i32
  ds_prefix :: bytes
  ds_prefix_len :: usize
  ds_done :: bool

record vfs =
  cpio_data :: bytes
  next_vfs_fd :: nat
  open_files :: "open_file option list"
  dir_slots :: "dir_slot list"

definition empty_dir_slot :: dir_slot where
  "empty_dir_slot = \<lparr>ds_fd = -1, ds_prefix = replicate 128 0, ds_prefix_len = 0, ds_done = False\<rparr>"

definition vfs_start :: "bytes \<Rightarrow> vfs" where
  "vfs_start archive = \<lparr>cpio_data = archive, next_vfs_fd = 1000,
     open_files = replicate VFS_MAX_OPEN None, dir_slots = replicate MAX_DIRS empty_dir_slot\<rparr>"

section \<open>The archive\<close>

definition hex_digit :: "u8 \<Rightarrow> u64" where
  "hex_digit b =
     (if 48 \<le> b \<and> b \<le> 57 then ucast (b - 48)
      else if 97 \<le> b \<and> b \<le> 102 then ucast (b - 97 + 10)
      else if 65 \<le> b \<and> b \<le> 70 then ucast (b - 65 + 10)
      else 0)"

definition parse_hex :: "bytes \<Rightarrow> u64" where
  "parse_hex bs = foldl (\<lambda>val b. push_bit 4 val OR hex_digit b) 0 bs"

text \<open>The slice \<open>data[a..b]\<close>.\<close>

definition slice :: "'a list \<Rightarrow> nat \<Rightarrow> nat \<Rightarrow> 'a list" where
  "slice xs a b = take (b - a) (drop a xs)"

text \<open>The fields of the entry whose header starts at \<open>offset\<close>.\<close>

definition cpio_magic :: "bytes \<Rightarrow> nat \<Rightarrow> bool" where
  "cpio_magic data offset \<longleftrightarrow> slice data offset (offset + 6) = str ''070701''"

definition cpio_filesize :: "bytes \<Rightarrow> nat \<Rightarrow> nat" where
  "cpio_filesize data offset = unat (parse_hex (slice data (offset + 54) (offset + 62)))"

definition cpio_namesize :: "bytes \<Rightarrow> nat \<Rightarrow> nat" where
  "cpio_namesize data offset = unat (parse_hex (slice data (offset + 94) (offset + 102)))"

definition cpio_name_end :: "bytes \<Rightarrow> nat \<Rightarrow> nat" where
  "cpio_name_end data offset = offset + 110 + cpio_namesize data offset - 1"

definition cpio_data_start :: "bytes \<Rightarrow> nat \<Rightarrow> nat" where
  "cpio_data_start data offset = align_down 4 (offset + 110 + cpio_namesize data offset + 3)"

definition cpio_data_end :: "bytes \<Rightarrow> nat \<Rightarrow> nat" where
  "cpio_data_end data offset = cpio_data_start data offset + cpio_filesize data offset"

definition cpio_next_entry :: "bytes \<Rightarrow> nat \<Rightarrow> nat" where
  "cpio_next_entry data offset = align_down 4 (cpio_data_end data offset + 3)"

text \<open>\<open>&data[name_start..name_end]\<close>, which panics when the name size is 0.\<close>

definition cpio_name :: "bytes \<Rightarrow> nat \<Rightarrow> bytes outcome" where
  "cpio_name data offset =
     (if cpio_name_end data offset < offset + 110 then Panic
      else Done (slice data (offset + 110) (cpio_name_end data offset)))"

lemma align_up3: "x \<le> align_down 4 (x + 3)"
  using align_up_ge [of 4 x] by (simp add: align_up_def)

lemma cpio_next_entry_gt: "offset + 110 \<le> cpio_next_entry data offset"
proof -
  have "offset + 110 \<le> cpio_data_start data offset"
    using align_up3 [of "offset + 110 + cpio_namesize data offset"]
    unfolding cpio_data_start_def by linarith
  moreover have "cpio_data_start data offset \<le> cpio_next_entry data offset"
    using align_up3 [of "cpio_data_end data offset"]
    unfolding cpio_next_entry_def cpio_data_end_def by linarith
  ultimately show ?thesis by linarith
qed

definition normalized :: "bytes \<Rightarrow> bytes" where
  "normalized path =
     (if starts_with path (str ''/'') then drop 1 path
      else if starts_with path (str ''./'') then drop 2 path
      else path)"

function cpio_lookup_from :: "bytes \<Rightarrow> bytes \<Rightarrow> nat \<Rightarrow> (usize \<times> usize) option outcome" where
  "cpio_lookup_from data path offset =
     (if length data < offset + 110 then Done None
      else if \<not> cpio_magic data offset then Done None
      else if length data < cpio_name_end data offset \<or> length data < cpio_data_end data offset
        then Done None
      else case cpio_name data offset of
             Panic \<Rightarrow> Panic
           | Done entry_name \<Rightarrow>
               if entry_name = str ''TRAILER!!!'' then Done None
               else if entry_name = normalized path
                 then Done (Some (cpio_data_start data offset, cpio_filesize data offset))
               else cpio_lookup_from data path (cpio_next_entry data offset))"
  by pat_completeness auto

termination
proof (relation "measure (\<lambda>(data, path, offset). length data - offset)", goal_cases)
  case (2 data path offset)
  then show ?case using cpio_next_entry_gt [of offset data] by simp
qed simp

declare cpio_lookup_from.simps [simp del]

definition cpio_lookup :: "bytes \<Rightarrow> bytes \<Rightarrow> (usize \<times> usize) option outcome" where
  "cpio_lookup data path = cpio_lookup_from data path 0"

definition vfs_exists :: "bytes \<Rightarrow> vfs \<Rightarrow> bool outcome" where
  "vfs_exists path v = map_outcome (\<lambda>r. r \<noteq> None) (cpio_lookup (cpio_data v) path)"

text \<open>The loop of \<open>init\<close>, which counts the entries for the log.\<close>

function cpio_count_from :: "bytes \<Rightarrow> nat \<Rightarrow> nat outcome" where
  "cpio_count_from data offset =
     (if length data < offset + 110 then Done 0
      else if \<not> cpio_magic data offset then Done 0
      else if length data < cpio_name_end data offset then Done 0
      else case cpio_name data offset of
             Panic \<Rightarrow> Panic
           | Done name \<Rightarrow>
               if name = str ''TRAILER!!!'' then Done 0
               else map_outcome Suc (cpio_count_from data (cpio_next_entry data offset)))"
  by pat_completeness auto

termination
proof (relation "measure (\<lambda>(data, offset). length data - offset)", goal_cases)
  case (2 data offset)
  then show ?case using cpio_next_entry_gt [of offset data] by simp
qed simp

declare cpio_count_from.simps [simp del]

definition vfs_init :: "vfs \<Rightarrow> nat outcome" where
  "vfs_init v = cpio_count_from (cpio_data v) 0"

section \<open>Open files\<close>

text \<open>Claiming the first free slot of the table, as \<open>open\<close> and \<open>dup\<close> do.\<close>

definition vfs_claim :: "usize \<Rightarrow> usize \<Rightarrow> usize \<Rightarrow> vfs \<Rightarrow> i64 \<times> vfs" where
  "vfs_claim data_offset data_len pos v =
     (let fd = as_i32 (next_vfs_fd v);
          v = v\<lparr>next_vfs_fd := wadd64 (next_vfs_fd v) 1\<rparr>
      in case position (\<lambda>slot. slot = None) (open_files v) of
           Some i \<Rightarrow> (fd, v\<lparr>open_files := (open_files v)[i :=
               Some \<lparr>f_fd = fd, f_data_offset = data_offset, f_data_len = data_len, f_pos = pos\<rparr>]\<rparr>)
         | None \<Rightarrow> (-24, v))"

definition vfs_open :: "bytes \<Rightarrow> vfs \<Rightarrow> (i64 \<times> vfs) outcome" where
  "vfs_open path v =
     (case cpio_lookup (cpio_data v) path of
        Panic \<Rightarrow> Panic
      | Done None \<Rightarrow> Done (-2, v)
      | Done (Some (data_offset, data_len)) \<Rightarrow> Done (vfs_claim data_offset data_len 0 v))"

definition has_fd :: "i32 \<Rightarrow> open_file option \<Rightarrow> bool" where
  "has_fd fd slot = (case slot of Some f \<Rightarrow> f_fd f = fd | None \<Rightarrow> False)"

text \<open>The scan for the slot with a given descriptor.\<close>

definition vfs_find :: "i32 \<Rightarrow> vfs \<Rightarrow> (nat \<times> open_file) option" where
  "vfs_find fd v =
     (case position (has_fd fd) (open_files v) of
        Some i \<Rightarrow> map_option (\<lambda>f. (i, f)) (open_files v ! i)
      | None \<Rightarrow> None)"

definition vfs_dup :: "i32 \<Rightarrow> vfs \<Rightarrow> i64 \<times> vfs" where
  "vfs_dup oldfd v =
     (case vfs_find oldfd v of
        None \<Rightarrow> (-9, v)
      | Some (i, f) \<Rightarrow> vfs_claim (f_data_offset f) (f_data_len f) (f_pos f) v)"

definition vfs_read :: "i32 \<Rightarrow> usize \<Rightarrow> vfs \<Rightarrow> (i64 \<times> bytes \<times> vfs) outcome" where
  "vfs_read fd count v =
     (case vfs_find fd v of
        None \<Rightarrow> Done (-9, [], v)
      | Some (i, f) \<Rightarrow>
          let remaining = wsub64 (f_data_len f) (f_pos f)
          in if remaining = 0 then Done (0, [], v)
             else
               let to_read = min count remaining;
                   start = wadd64 (f_data_offset f) (f_pos f)
               in if length (cpio_data v) < start then Panic
                  else Done (as_i64 to_read, slice (cpio_data v) start (start + to_read),
                    v\<lparr>open_files := (open_files v)[i := Some (f\<lparr>f_pos := wadd64 (f_pos f) to_read\<rparr>)]\<rparr>))"

definition vfs_pread :: "i32 \<Rightarrow> usize \<Rightarrow> usize \<Rightarrow> vfs \<Rightarrow> (i64 \<times> bytes) outcome" where
  "vfs_pread fd count offset v =
     (case vfs_find fd v of
        None \<Rightarrow> Done (-9, [])
      | Some (i, f) \<Rightarrow>
          if f_data_len f \<le> offset then Done (0, [])
          else
            let remaining = f_data_len f - offset;
                to_read = min count remaining;
                start = wadd64 (f_data_offset f) offset
            in if length (cpio_data v) < start then Panic
               else Done (as_i64 to_read, slice (cpio_data v) start (start + to_read)))"

definition vfs_fstat_size :: "i32 \<Rightarrow> vfs \<Rightarrow> usize option" where
  "vfs_fstat_size fd v = map_option (\<lambda>(i, f). f_data_len f) (vfs_find fd v)"

definition vfs_lseek :: "i32 \<Rightarrow> i64 \<Rightarrow> i32 \<Rightarrow> vfs \<Rightarrow> i64 \<times> vfs" where
  "vfs_lseek fd offset whence v =
     (case vfs_find fd v of
        None \<Rightarrow> (-9, v)
      | Some (i, f) \<Rightarrow>
          if whence \<noteq> 0 \<and> whence \<noteq> 1 \<and> whence \<noteq> 2 then (-22, v)
          else
            let new_pos = as_usize (max 0
                  (if whence = 0 then offset
                   else if whence = 1 then sat_add_i64 (as_i64 (f_pos f)) offset
                   else sat_add_i64 (as_i64 (f_data_len f)) offset));
                pos = min new_pos (f_data_len f)
            in (as_i64 pos, v\<lparr>open_files := (open_files v)[i := Some (f\<lparr>f_pos := pos\<rparr>)]\<rparr>))"

definition vfs_close :: "i32 \<Rightarrow> vfs \<Rightarrow> i64 \<times> vfs" where
  "vfs_close fd v =
     (case vfs_find fd v of
        Some (i, f) \<Rightarrow> (0, v\<lparr>open_files := (open_files v)[i := None]\<rparr>)
      | None \<Rightarrow> (0, v))"

definition is_vfs_fd :: "i32 \<Rightarrow> vfs \<Rightarrow> bool" where
  "is_vfs_fd fd v \<longleftrightarrow> list_ex (has_fd fd) (open_files v)"

section \<open>Directories\<close>

text \<open>The prefix that \<open>is_dir_prefix\<close> searches for; \<open>None\<close> for a path that is too long.\<close>

definition dir_search_prefix :: "bytes \<Rightarrow> bytes option" where
  "dir_search_prefix path =
     (let p = (if starts_with path (str ''/'') then drop 1 path else path)
      in if 127 \<le> length p then None
         else Some (if ends_with p (str ''/'') then p else p @ str ''/''))"

function dir_prefix_from :: "bytes \<Rightarrow> bytes \<Rightarrow> nat \<Rightarrow> bool outcome" where
  "dir_prefix_from data prefix offset =
     (if length data \<le> offset + 110 then Done False
      else if \<not> cpio_magic data offset then Done False
      else if length data < cpio_name_end data offset then Done False
      else case cpio_name data offset of
             Panic \<Rightarrow> Panic
           | Done name \<Rightarrow>
               if name = str ''TRAILER!!!'' then Done False
               else if length prefix \<le> length name \<and> take (length prefix) name = prefix then Done True
               else dir_prefix_from data prefix (cpio_next_entry data offset))"
  by pat_completeness auto

termination
proof (relation "measure (\<lambda>(data, prefix, offset). length data - offset)", goal_cases)
  case (2 data prefix offset)
  then show ?case using cpio_next_entry_gt [of offset data] by simp
qed simp

declare dir_prefix_from.simps [simp del]

definition is_dir_prefix :: "bytes \<Rightarrow> vfs \<Rightarrow> bool outcome" where
  "is_dir_prefix path v =
     (case dir_search_prefix path of
        None \<Rightarrow> Done False
      | Some prefix \<Rightarrow> dir_prefix_from (cpio_data v) prefix 0)"

definition open_dir :: "bytes \<Rightarrow> vfs \<Rightarrow> i64 \<times> vfs" where
  "open_dir path v =
     (case position (\<lambda>s. ds_fd s = -1) (dir_slots v) of
        Some i \<Rightarrow>
          let fd = DIR_FD_BASE + int i;
              p = (if starts_with path (str ''/'') then drop 1 path else path);
              len = min (length p) 127;
              slot = dir_slots v ! i
          in (fd, v\<lparr>dir_slots := (dir_slots v)[i := \<lparr>ds_fd = fd,
                ds_prefix = overwrite 0 (take len p) (ds_prefix slot), ds_prefix_len = len,
                ds_done = False\<rparr>]\<rparr>)
      | None \<Rightarrow> (-24, v))"

definition close_dir :: "i32 \<Rightarrow> vfs \<Rightarrow> bool \<times> vfs" where
  "close_dir fd v =
     (case position (\<lambda>s. ds_fd s = fd) (dir_slots v) of
        Some i \<Rightarrow> (True, v\<lparr>dir_slots := (dir_slots v)[i := (dir_slots v ! i)
            \<lparr>ds_fd := -1, ds_prefix_len := 0, ds_done := False\<rparr>]\<rparr>)
      | None \<Rightarrow> (False, v))"

definition is_dir_fd :: "i32 \<Rightarrow> vfs \<Rightarrow> bool" where
  "is_dir_fd fd v \<longleftrightarrow> list_ex (\<lambda>s. ds_fd s = fd) (dir_slots v)"

text \<open>The first component of a path: the bytes before the next slash.\<close>

definition child_end :: "bytes \<Rightarrow> nat" where
  "child_end rest = (case position (\<lambda>b. b = 47) rest of Some i \<Rightarrow> i | None \<Rightarrow> length rest)"

text \<open>The comparison of a child with an entry of the \<open>seen\<close> array (zero-padded to 64 bytes).\<close>

definition seen_match :: "bytes \<Rightarrow> bytes \<Rightarrow> bool" where
  "seen_match child entry \<longleftrightarrow> take (length child) entry = child \<and> entry ! length child = 0"

text \<open>
  The loop of \<open>fill_dir_entries\<close>: the bytes written so far and the \<open>seen\<close> entries. One archive
  entry is handled by \<open>fill_step\<close>, which returns \<open>None\<close> when it breaks out of the loop.
\<close>

definition fill_step :: "usize \<Rightarrow> bytes \<Rightarrow> bytes \<Rightarrow> bytes \<Rightarrow> bytes list \<Rightarrow> (bytes \<times> bytes list) option" where
  "fill_step count prefix name out seen =
     (if length prefix < length name \<and> take (length prefix) name = prefix then
        let rest = drop (length prefix) name;
            child = take (child_end rest) rest
        in if 0 < length child \<and> length child < 64 \<and>
              \<not> list_ex (seen_match child) seen \<and> length seen < 32 then
             let seen = seen @ [resize0 64 child];
                 reclen = dirent_reclen child
             in if count < length out + reclen then None
                else Some (out @ dirent_bytes \<lparr>d_ino = length seen, d_off = length out + reclen,
                       d_type = (if child_end rest < length rest then 4 else 8), d_name = child\<rparr>, seen)
           else Some (out, seen)
      else Some (out, seen))"

function fill_dir_from :: "bytes \<Rightarrow> usize \<Rightarrow> bytes \<Rightarrow> nat \<Rightarrow> bytes \<Rightarrow> bytes list \<Rightarrow> bytes outcome" where
  "fill_dir_from data count prefix offset out seen =
     (if length data \<le> offset + 110 then Done out
      else if \<not> cpio_magic data offset then Done out
      else if length data < cpio_name_end data offset then Done out
      else case cpio_name data offset of
             Panic \<Rightarrow> Panic
           | Done name \<Rightarrow>
               if name = str ''TRAILER!!!'' then Done out
               else (case fill_step count prefix name out seen of
                       None \<Rightarrow> Done out
                     | Some (out', seen') \<Rightarrow>
                         fill_dir_from data count prefix (cpio_next_entry data offset) out' seen'))"
  by pat_completeness auto

termination
proof (relation "measure (\<lambda>(data, count, prefix, offset, out, seen). length data - offset)", goal_cases)
  case (2 data count prefix offset)
  then show ?case using cpio_next_entry_gt [of offset data] by simp
qed simp

declare fill_dir_from.simps [simp del]

definition fill_dir_entries :: "bytes \<Rightarrow> usize \<Rightarrow> bytes \<Rightarrow> bytes outcome" where
  "fill_dir_entries data count prefix = fill_dir_from data count prefix 0 [] []"

text \<open>The prefix with its trailing slash, as \<open>getdents64\<close> builds it from a slot.\<close>

definition slot_prefix :: "dir_slot \<Rightarrow> bytes" where
  "slot_prefix slot =
     (let p = take (ds_prefix_len slot) (ds_prefix slot)
      in if 0 < ds_prefix_len slot \<and> last p \<noteq> 47 then p @ [47] else p)"

definition vfs_getdents64 :: "i32 \<Rightarrow> usize \<Rightarrow> vfs \<Rightarrow> (i64 \<times> bytes \<times> vfs) outcome" where
  "vfs_getdents64 fd count v =
     (case position (\<lambda>s. ds_fd s = fd) (dir_slots v) of
        None \<Rightarrow> Done (0, [], v)
      | Some i \<Rightarrow>
          let slot = dir_slots v ! i
          in if ds_done slot then Done (0, [], v)
             else
               let v = v\<lparr>dir_slots := (dir_slots v)[i := slot\<lparr>ds_done := True\<rparr>]\<rparr>
               in map_outcome (\<lambda>out. (as_i64 (length out), out, v))
                    (fill_dir_entries (cpio_data v) count (slot_prefix slot)))"

end
