(* ===== verification/Vfs_Props.thy ===== *)
theory Vfs_Props
  imports Vfs
begin

text \<open>
  Properties of the read-only file system: lookup in a well-formed archive finds exactly the
  stored files, the invariant of the open-file table, reads that never panic and reproduce
  the archived contents, directory listings, and what the scans do on a malformed archive.
\<close>

section \<open>Encoding an archive\<close>

text \<open>The \<open>newc\<close> writer: the fields the kernel does not read are zero.\<close>

definition hex_char :: "nat \<Rightarrow> u8" where
  "hex_char d = (if d < 10 then of_nat (48 + d) else of_nat (87 + d))"

fun hex_field :: "nat \<Rightarrow> nat \<Rightarrow> bytes" where
  "hex_field 0 n = []"
| "hex_field (Suc k) n = hex_field k (n div 16) @ [hex_char (n mod 16)]"

definition pad4 :: "nat \<Rightarrow> nat" where
  "pad4 n = align_down 4 (n + 3) - n"

definition cpio_header :: "nat \<Rightarrow> nat \<Rightarrow> bytes" where
  "cpio_header filesize namesize =
     str ''070701'' @ hex_field 48 0 @ hex_field 8 filesize @ hex_field 32 0 @
     hex_field 8 namesize @ hex_field 8 0"

definition cpio_entry :: "bytes \<times> bytes \<Rightarrow> bytes" where
  "cpio_entry e =
     (let name = fst e; content = snd e
      in cpio_header (length content) (length name + 1) @ name @ [0] @
         replicate (pad4 (110 + length name + 1)) 0 @ content @ replicate (pad4 (length content)) 0)"

definition cpio_archive :: "(bytes \<times> bytes) list \<Rightarrow> bytes" where
  "cpio_archive es = concat (map cpio_entry es) @ cpio_entry (str ''TRAILER!!!'', [])"

definition entry_ok :: "bytes \<times> bytes \<Rightarrow> bool" where
  "entry_ok e \<longleftrightarrow> length (fst e) + 1 < 2 ^ 32 \<and> length (snd e) < 2 ^ 32 \<and> fst e \<noteq> str ''TRAILER!!!''"

lemma hex_digit_char: "d < 16 \<Longrightarrow> hex_digit (hex_char d) = of_nat d"
proof -
  have "list_all (\<lambda>d. hex_digit (hex_char d) = of_nat d) [0..<16]" by code_simp
  then show "d < 16 \<Longrightarrow> hex_digit (hex_char d) = of_nat d" by (simp add: list_all_iff)
qed

lemma push_hex: "push_bit 4 (of_nat (n div 16)) OR of_nat (n mod 16) = (of_nat n :: u64)"
proof -
  have "n div 16 = drop_bit 4 n" "n mod 16 = take_bit 4 n"
    by (simp_all add: drop_bit_eq_div take_bit_eq_mod)
  then show ?thesis
    by (intro bit_word_eqI) (auto simp: bit_simps)
qed

lemma parse_hex_field: "n < 16 ^ k \<Longrightarrow> parse_hex (hex_field k n) = of_nat n"
proof (induction k arbitrary: n)
  case 0
  then show ?case by (simp add: parse_hex_def)
next
  case (Suc k)
  then have "parse_hex (hex_field k (n div 16)) = of_nat (n div 16)"
    by (intro Suc.IH) (simp add: less_mult_imp_div_less mult.commute)
  then have "parse_hex (hex_field (Suc k) n) = push_bit 4 (of_nat (n div 16)) OR of_nat (n mod 16)"
    by (simp add: parse_hex_def hex_digit_char)
  then show ?case by (simp only: push_hex)
qed

lemma length_hex_field [simp]: "length (hex_field k n) = k"
  by (induction k arbitrary: n) auto

lemma length_cpio_header [simp]: "length (cpio_header fs ns) = 110"
  by (simp add: cpio_header_def str_def)

lemma slice_at: "d = xs @ ys @ zs \<Longrightarrow> length xs = a \<Longrightarrow> b = a + length ys \<Longrightarrow> slice d a b = ys"
  by (auto simp: slice_def)

text \<open>The fields read back from an entry that stands after \<open>pre\<close>.\<close>

lemma header_fields:
  assumes "filesize < 2 ^ 32" and "namesize < 2 ^ 32"
  shows "cpio_magic (pre @ cpio_header filesize namesize @ rest) (length pre)"
    and "cpio_filesize (pre @ cpio_header filesize namesize @ rest) (length pre) = filesize"
    and "cpio_namesize (pre @ cpio_header filesize namesize @ rest) (length pre) = namesize"
proof -
  let ?d = "pre @ cpio_header filesize namesize @ rest"
  have "slice ?d (length pre) (length pre + 6) = str ''070701''"
    by (rule slice_at [where xs = pre]) (simp_all add: cpio_header_def str_def)
  then show "cpio_magic ?d (length pre)" by (simp add: cpio_magic_def)
  have "slice ?d (length pre + 54) (length pre + 62) = hex_field 8 filesize"
    by (rule slice_at [where xs = "pre @ str ''070701'' @ hex_field 48 0"])
      (simp_all add: cpio_header_def str_def)
  moreover have "slice ?d (length pre + 94) (length pre + 102) = hex_field 8 namesize"
    by (rule slice_at [where
          xs = "pre @ str ''070701'' @ hex_field 48 0 @ hex_field 8 filesize @ hex_field 32 0"])
      (simp_all add: cpio_header_def str_def)
  moreover have "filesize < 16 ^ 8" "namesize < 16 ^ 8" using assms by simp_all
  ultimately show "cpio_filesize ?d (length pre) = filesize" "cpio_namesize ?d (length pre) = namesize"
    by (simp_all add: cpio_filesize_def cpio_namesize_def parse_hex_field unat_of_nat)
qed

lemma pad4_align: "4 dvd n + pad4 n"
  using align_up3 [of n] by (simp add: pad4_def)

lemma align_pad:
  assumes "4 dvd m"
  shows "align_down 4 (m + n + 3) = m + n + pad4 n"
proof -
  obtain k where m: "m = 4 * k" using assms by blast
  have "(4 * k + n + 3) mod 4 = (n + 3) mod 4" by (metis add.assoc mod_mult_self4)
  moreover have "(n + 3) mod 4 \<le> n + 3" by simp
  ultimately show ?thesis
    using align_up3 [of n] m by (simp add: align_down_def pad4_def)
qed

lemma entry_fields:
  fixes pre rest :: bytes
  assumes "entry_ok e \<or> e = (str ''TRAILER!!!'', [])" and "4 dvd length pre"
  defines "d \<equiv> pre @ cpio_entry e @ rest" and "off \<equiv> length pre"
  shows "cpio_magic d off" and "cpio_name d off = Done (fst e)"
    and "cpio_filesize d off = length (snd e)"
    and "slice d (cpio_data_start d off) (cpio_data_start d off + length (snd e)) = snd e"
    and "cpio_name_end d off \<le> length d" and "cpio_data_end d off \<le> length d"
    and "cpio_next_entry d off = length (pre @ cpio_entry e)"
    and "off + 110 < length d"
proof -
  obtain name content where e: "e = (name, content)" by force
  let ?p1 = "replicate (pad4 (110 + length name + 1)) 0" and ?p2 = "replicate (pad4 (length content)) 0"
  have d: "d = pre @ cpio_header (length content) (length name + 1) @ (name @ [0] @ ?p1 @ content @ ?p2 @ rest)"
    by (simp add: d_def e cpio_entry_def Let_def)
  have lens: "length content < 2 ^ 32" "length name + 1 < 2 ^ 32"
    using assms(1) e by (auto simp: entry_ok_def str_def)
  note f = header_fields [OF lens, of pre "name @ [0] @ ?p1 @ content @ ?p2 @ rest", folded d off_def]
  show "cpio_magic d off" by (rule f)
  show fs: "cpio_filesize d off = length (snd e)" using f e by simp
  have ne: "cpio_name_end d off = off + 110 + length name" using f by (simp add: cpio_name_end_def)
  have "slice d (off + 110) (off + 110 + length name) = name"
    by (rule slice_at [where xs = "pre @ cpio_header (length content) (length name + 1)"])
      (simp_all add: d off_def)
  then show "cpio_name d off = Done (fst e)" by (simp add: cpio_name_def ne e)
  have ds: "cpio_data_start d off = off + (110 + length name + 1) + pad4 (110 + length name + 1)"
    using align_pad [OF assms(2), of "110 + length name + 1"] f
    by (simp add: cpio_data_start_def off_def algebra_simps)
  have "slice d (cpio_data_start d off) (cpio_data_start d off + length content) = content"
  proof (rule slice_at [where xs = "pre @ cpio_header (length content) (length name + 1) @ name @ [0] @ ?p1"])
    show "d = (pre @ cpio_header (length content) (length name + 1) @ name @ [0] @ ?p1) @ content @ ?p2 @ rest"
      by (simp add: d)
  qed (simp_all add: ds [unfolded off_def] off_def)
  then show "slice d (cpio_data_start d off) (cpio_data_start d off + length (snd e)) = snd e"
    by (simp add: e)
  have len: "length d = off + (110 + length name + 1) + pad4 (110 + length name + 1) +
      length content + pad4 (length content) + length rest"
    by (simp add: d off_def)
  show "cpio_name_end d off \<le> length d" by (simp add: ne len)
  show "cpio_data_end d off \<le> length d" using f by (simp add: cpio_data_end_def ds len)
  show "off + 110 < length d" by (simp add: len)
  have "4 dvd cpio_data_start d off" by (simp add: cpio_data_start_def)
  then have "cpio_next_entry d off = cpio_data_start d off + length content + pad4 (length content)"
    using align_pad f by (simp add: cpio_next_entry_def cpio_data_end_def)
  then show "cpio_next_entry d off = length (pre @ cpio_entry e)"
    by (simp add: ds [unfolded off_def] off_def e cpio_entry_def Let_def)
qed

lemma entry_aligned: "4 dvd length pre \<Longrightarrow> 4 dvd length (pre @ cpio_entry e)"
proof -
  assume "4 dvd length pre"
  moreover have "length (cpio_entry e) = (110 + length (fst e) + 1 + pad4 (110 + length (fst e) + 1)) +
      (length (snd e) + pad4 (length (snd e)))"
    by (simp add: cpio_entry_def Let_def)
  moreover have "4 dvd length (cpio_entry e)"
    unfolding calculation(2) by (intro dvd_add pad4_align)
  ultimately show ?thesis by (simp add: dvd_add)
qed

lemma lookup_entry:
  assumes "entry_ok e" and "4 dvd length pre"
  shows "cpio_lookup_from (pre @ cpio_entry e @ rest) path (length pre) =
    (if fst e = normalized path
     then Done (Some (cpio_data_start (pre @ cpio_entry e @ rest) (length pre), length (snd e)))
     else cpio_lookup_from (pre @ cpio_entry e @ rest) path (length (pre @ cpio_entry e)))"
  using entry_fields [OF disjI1 [OF assms(1)] assms(2), of rest] assms(1)
  by (subst cpio_lookup_from.simps) (auto simp: entry_ok_def)

lemma lookup_trailer:
  assumes "4 dvd length pre"
  shows "cpio_lookup_from (pre @ cpio_entry (str ''TRAILER!!!'', []) @ rest) path (length pre) = Done None"
  using entry_fields [of "(str ''TRAILER!!!'', [])", OF disjI2 [OF refl] assms, of rest]
  by (subst cpio_lookup_from.simps) auto

lemma lookup_archive_from:
  assumes "\<forall>e \<in> set es. entry_ok e" and "4 dvd length pre"
  shows "case List.find (\<lambda>e. fst e = normalized path) es of
      None \<Rightarrow> cpio_lookup_from (pre @ cpio_archive es) path (length pre) = Done None
    | Some e \<Rightarrow> \<exists>off. cpio_lookup_from (pre @ cpio_archive es) path (length pre) = Done (Some (off, length (snd e)))
        \<and> slice (pre @ cpio_archive es) off (off + length (snd e)) = snd e
        \<and> off + length (snd e) \<le> length (pre @ cpio_archive es)"
  using assms
proof (induction es arbitrary: pre)
  case Nil
  then show ?case using lookup_trailer [of pre "[]" path] by (simp add: cpio_archive_def)
next
  case (Cons e es)
  have d: "pre @ cpio_archive (e # es) = pre @ cpio_entry e @ cpio_archive es"
    by (simp add: cpio_archive_def)
  have e: "entry_ok e" and al: "4 dvd length pre" using Cons.prems by auto
  note look = lookup_entry [OF e al, of "cpio_archive es" path, folded d]
  note f = entry_fields [OF disjI1 [OF e] al, of "cpio_archive es", folded d]
  show ?case
  proof (cases "fst e = normalized path")
    case True
    then show ?thesis using look f(3,4,6) by (simp add: cpio_data_end_def)
  next
    case False
    then show ?thesis
      using Cons.IH [of "pre @ cpio_entry e"] Cons.prems(1) entry_aligned [OF al] look
      by (auto simp: d split: option.splits)
  qed
qed

lemma lookup_archive:
  assumes "\<forall>e \<in> set es. entry_ok e"
  shows "case map_of es (normalized path) of
      None \<Rightarrow> cpio_lookup (cpio_archive es) path = Done None
    | Some content \<Rightarrow> \<exists>off. cpio_lookup (cpio_archive es) path = Done (Some (off, length content)) \<and>
        slice (cpio_archive es) off (off + length content) = content \<and>
        off + length content \<le> length (cpio_archive es)"
proof -
  have "map_of es k = map_option snd (List.find (\<lambda>e. fst e = k) es)" for k
    by (induction es) auto
  then show ?thesis
    using lookup_archive_from [OF assms, of "[]" path]
    by (auto simp: cpio_lookup_def split: option.splits)
qed

text \<open>C7 (lookup in an archive): in an archive of well-formed entries, \<open>cpio_lookup\<close> of a path (a leading
  \<open>/\<close> or \<open>./\<close> ignored) never panics; it finds the first entry of that name, with the offset
  and length of exactly its stored contents, and finds nothing when there is none.\<close>

theorem cpio_lookup_archive:
  assumes "\<forall>e \<in> set es. entry_ok e"
  shows "case map_of es (normalized path) of
      None \<Rightarrow> cpio_lookup (cpio_archive es) path = Done None
    | Some content \<Rightarrow> \<exists>off. cpio_lookup (cpio_archive es) path = Done (Some (off, length content)) \<and>
        slice (cpio_archive es) off (off + length content) = content \<and>
        off + length content \<le> length (cpio_archive es)"
  using lookup_archive [OF assms, of path] .

theorem cpio_lookup_archive_witness:
  "\<exists>off. cpio_lookup (cpio_archive [([97], [1, 2]), ([98], [3])]) [47, 98] = Done (Some (off, 1)) \<and>
     slice (cpio_archive [([97], [1, 2]), ([98], [3])]) off (off + 1) = [3]"
proof -
  have "\<forall>e \<in> set [([97], [1, 2]), ([98], [3])]. entry_ok e" by (simp add: entry_ok_def str_def)
  moreover have "normalized [47, 98] = [98]" by (simp add: normalized_def starts_with_def str_def drop_Cons')
  ultimately show ?thesis
    using cpio_lookup_archive [of "[([97], [1, 2]), ([98], [3])]" "[47, 98]"] by (auto simp: One_nat_def)
qed


section \<open>The open-file table\<close>

definition file_ok :: "bytes \<Rightarrow> open_file \<Rightarrow> bool" where
  "file_ok data f \<longleftrightarrow> f_data_offset f + f_data_len f \<le> length data \<and> f_pos f \<le> f_data_len f"

definition vfs_inv :: "vfs \<Rightarrow> bool" where
  "vfs_inv v \<longleftrightarrow>
     length (cpio_data v) < two63 \<and> length (open_files v) = VFS_MAX_OPEN \<and>
     1000 \<le> next_vfs_fd v \<and> next_vfs_fd v \<le> 2147483648 \<and>
     (\<forall>f. Some f \<in> set (open_files v) \<longrightarrow>
        file_ok (cpio_data v) f \<and> 1000 \<le> f_fd f \<and> f_fd f < int (next_vfs_fd v)) \<and>
     (\<forall>i j f g. i < VFS_MAX_OPEN \<longrightarrow> j < VFS_MAX_OPEN \<longrightarrow> open_files v ! i = Some f \<longrightarrow>
        open_files v ! j = Some g \<longrightarrow> f_fd f = f_fd g \<longrightarrow> i = j)"

lemma vfs_find_Some:
  assumes "vfs_find fd v = Some (i, f)"
  shows "position (has_fd fd) (open_files v) = Some i" and "i < length (open_files v)"
    and "open_files v ! i = Some f" and "f_fd f = fd" and "Some f \<in> set (open_files v)"
proof -
  show p: "position (has_fd fd) (open_files v) = Some i" and n: "open_files v ! i = Some f"
    using assms by (auto simp: vfs_find_def split: option.splits)
  then show "i < length (open_files v)" "f_fd f = fd" "Some f \<in> set (open_files v)"
    using position_SomeD [OF p] by (auto simp: has_fd_def)
qed

lemma vfs_find_update:
  assumes "vfs_find fd v = Some (i, f)" and "f_fd g = fd"
  shows "vfs_find fd (v\<lparr>open_files := (open_files v)[i := Some g]\<rparr>) = Some (i, g)"
proof -
  have "position (has_fd fd) ((open_files v)[i := Some g]) = Some i"
    using vfs_find_Some [OF assms(1)] assms(2)
    by (auto simp: position_Some_iff has_fd_def nth_list_update)
  then show ?thesis using vfs_find_Some(2) [OF assms(1)] by (simp add: vfs_find_def)
qed

lemma vfs_inv_update:
  assumes "vfs_inv v" and "i < VFS_MAX_OPEN" and "open_files v ! i = Some f" and "f_fd g = f_fd f"
    and "file_ok (cpio_data v) g"
  shows "vfs_inv (v\<lparr>open_files := (open_files v)[i := Some g]\<rparr>)"
proof -
  have "Some f \<in> set (open_files v)" using assms(1-3) by (metis nth_mem vfs_inv_def)
  then show ?thesis
    using assms unfolding vfs_inv_def
    by (auto simp: nth_list_update split: if_splits dest!: set_update_subset_insert [THEN subsetD])
qed

lemma vfs_inv_clear:
  assumes "vfs_inv v" and "i < VFS_MAX_OPEN"
  shows "vfs_inv (v\<lparr>open_files := (open_files v)[i := None]\<rparr>)"
  using assms unfolding vfs_inv_def
  by (auto simp: nth_list_update split: if_splits dest!: set_update_subset_insert [THEN subsetD])

lemma vfs_claim_inv:
  assumes "vfs_inv v" and "next_vfs_fd v < 2147483648" and "vfs_claim off len pos v = (r, v')"
    and "off + len \<le> length (cpio_data v)" and "pos \<le> len"
  shows "vfs_inv v'"
proof -
  have n: "as_i32 (next_vfs_fd v) = int (next_vfs_fd v)" "wadd64 (next_vfs_fd v) 1 = next_vfs_fd v + 1"
    using assms(2) by (simp_all add: as_i32_small wadd64_small)
  let ?g = "\<lparr>f_fd = int (next_vfs_fd v), f_data_offset = off, f_data_len = len, f_pos = pos\<rparr>"
  have len: "length (open_files v) = VFS_MAX_OPEN" using assms(1) by (simp add: vfs_inv_def)
  have old: "f_fd f \<noteq> int (next_vfs_fd v)" if "i < VFS_MAX_OPEN" "open_files v ! i = Some f" for i f
    using that assms(1) unfolding vfs_inv_def by (metis nth_mem order_less_irrefl)
  show ?thesis
  proof (cases "position (\<lambda>slot. slot = None) (open_files v)")
    case None
    then have "v' = v\<lparr>next_vfs_fd := next_vfs_fd v + 1\<rparr>"
      using assms(3) n by (auto simp: vfs_claim_def Let_def)
    with assms(1,2) show ?thesis by (fastforce simp: vfs_inv_def)
  next
    case (Some i)
    then have "v' = v\<lparr>next_vfs_fd := next_vfs_fd v + 1, open_files := (open_files v)[i := Some ?g]\<rparr>"
      using assms(3) n by (auto simp: vfs_claim_def Let_def)
    moreover have "file_ok (cpio_data v) f \<and> 1000 \<le> f_fd f \<and> f_fd f < int (next_vfs_fd v + 1)"
      if "Some f \<in> set ((open_files v)[i := Some ?g])" for f
    proof -
      have "f = ?g \<or> Some f \<in> set (open_files v)"
        using that set_update_subset_insert [of "open_files v" i "Some ?g"] by auto
      with assms(1,4,5) show ?thesis by (fastforce simp: vfs_inv_def file_ok_def)
    qed
    moreover have "a = b" if "a < VFS_MAX_OPEN" "b < VFS_MAX_OPEN" "f_fd f = f_fd g"
      "(open_files v)[i := Some ?g] ! a = Some f" "(open_files v)[i := Some ?g] ! b = Some g" for a b f g
    proof (cases "a = i \<or> b = i")
      case True
      with that old len show ?thesis by (metis nth_list_update open_file.select_convs(1) option.inject)
    next
      case False
      with that assms(1) show ?thesis by (simp add: vfs_inv_def)
    qed
    ultimately show ?thesis using assms(1,2) by (simp add: vfs_inv_def)
  qed
qed

lemma lookup_bounds:
  "cpio_lookup_from data path offset = Done (Some (off, len)) \<Longrightarrow> off + len \<le> length data"
proof (induction data path offset rule: cpio_lookup_from.induct)
  case (1 data path offset)
  from "1.prems" show ?case
    by (subst (asm) cpio_lookup_from.simps)
      (auto simp: cpio_data_end_def dest: "1.IH" split: if_splits outcome.splits)
qed

lemma vfs_open_inv:
  assumes "vfs_inv v" and "next_vfs_fd v < 2147483648" and "vfs_open path v = Done (r, v')"
  shows "vfs_inv v'"
proof (cases "cpio_lookup (cpio_data v) path")
  case (Done res)
  show ?thesis
  proof (cases res)
    case None
    with Done assms(1,3) show ?thesis by (simp add: vfs_open_def)
  next
    case (Some p)
    obtain off len where p: "p = (off, len)" by force
    then have "off + len \<le> length (cpio_data v)"
      using lookup_bounds [of "cpio_data v" path 0 off len] Done Some by (simp add: cpio_lookup_def)
    moreover have "vfs_claim off len 0 v = (r, v')"
      using assms(3) Done Some p by (simp add: vfs_open_def)
    ultimately show ?thesis using vfs_claim_inv [OF assms(1,2)] by simp
  qed
qed (use assms(3) in \<open>simp add: vfs_open_def\<close>)

lemma vfs_file_facts:
  assumes "vfs_inv v" and "vfs_find fd v = Some (i, f)"
  shows "i < VFS_MAX_OPEN" and "open_files v ! i = Some f" and "file_ok (cpio_data v) f"
    and "f_data_len f < two63" and "f_data_offset f + f_pos f < two64"
  using assms vfs_find_Some [OF assms(2)] by (auto simp: vfs_inv_def file_ok_def)

lemma vfs_dup_inv:
  assumes "vfs_inv v" and "next_vfs_fd v < 2147483648" and "vfs_dup fd v = (r, v')"
  shows "vfs_inv v'"
proof (cases "vfs_find fd v")
  case (Some p)
  obtain i f where p: "p = (i, f)" by force
  then have "file_ok (cpio_data v) f" using vfs_file_facts(3) [OF assms(1)] Some by simp
  moreover have "vfs_claim (f_data_offset f) (f_data_len f) (f_pos f) v = (r, v')"
    using assms(3) Some p by (simp add: vfs_dup_def)
  ultimately show ?thesis using vfs_claim_inv [OF assms(1,2)] by (simp add: file_ok_def)
qed (use assms in \<open>simp add: vfs_dup_def\<close>)

text \<open>What \<open>read\<close> does on an open file, with panic and wrap-around excluded.\<close>

lemma vfs_read_file:
  fixes count :: usize
  assumes "vfs_inv v" and "vfs_find fd v = Some (i, f)"
  defines "n \<equiv> min count (f_data_len f - f_pos f)"
  shows "\<exists>v'. vfs_read fd count v =
      Done (int n, slice (cpio_data v) (f_data_offset f + f_pos f) (f_data_offset f + f_pos f + n), v') \<and>
    vfs_inv v' \<and> cpio_data v' = cpio_data v \<and> vfs_find fd v' = Some (i, f\<lparr>f_pos := f_pos f + n\<rparr>)"
proof -
  note f = vfs_file_facts [OF assms(1,2)]
  have pos: "f_pos f \<le> f_data_len f" and off: "f_data_offset f + f_data_len f \<le> length (cpio_data v)"
    using f(3) by (auto simp: file_ok_def)
  have rem: "wsub64 (f_data_len f) (f_pos f) = f_data_len f - f_pos f"
    using pos f(4) by (simp add: wsub64_small)
  have start: "wadd64 (f_data_offset f) (f_pos f) = f_data_offset f + f_pos f"
    "\<not> length (cpio_data v) < f_data_offset f + f_pos f"
    using f(5) pos off by (simp_all add: wadd64_small)
  show ?thesis
  proof (cases "f_data_len f - f_pos f = 0")
    case True
    then have "n = 0" by (simp add: n_def)
    moreover have "vfs_read fd count v = Done (0, [], v)"
      using assms(2) rem True by (simp add: vfs_read_def)
    ultimately show ?thesis using assms(1,2) by (simp add: slice_def)
  next
    case False
    have n: "as_i64 n = int n" "wadd64 (f_pos f) n = f_pos f + n"
      using f(4) pos by (simp_all add: n_def as_i64_small wadd64_small)
    let ?g = "f\<lparr>f_pos := f_pos f + n\<rparr>"
    let ?v = "v\<lparr>open_files := (open_files v)[i := Some ?g]\<rparr>"
    have "file_ok (cpio_data v) ?g" using f(3) by (auto simp: file_ok_def n_def)
    then have "vfs_inv ?v" using f(1,2) assms(1) by (intro vfs_inv_update) auto
    moreover have "vfs_find fd ?v = Some (i, ?g)"
      using vfs_find_update [OF assms(2)] vfs_find_Some(4) [OF assms(2)] by simp
    moreover have "vfs_read fd count v = Done (int n,
        slice (cpio_data v) (f_data_offset f + f_pos f) (f_data_offset f + f_pos f + n), ?v)"
      using assms(2) False by (simp add: vfs_read_def rem start n Let_def flip: n_def)
    ultimately show ?thesis by auto
  qed
qed

lemma vfs_lseek_inv:
  assumes "vfs_inv v" and "vfs_lseek fd offset whence v = (r, v')"
  shows "vfs_inv v'"
proof (cases "vfs_find fd v")
  case None
  with assms show ?thesis by (simp add: vfs_lseek_def)
next
  case (Some p)
  obtain i f where f: "vfs_find fd v = Some (i, f)" using Some by (cases p) auto
  note ff = vfs_file_facts [OF assms(1) f]
  have "vfs_inv (v\<lparr>open_files := (open_files v)[i := Some (f\<lparr>f_pos := min n (f_data_len f)\<rparr>)]\<rparr>)" for n
    using ff assms(1) by (intro vfs_inv_update) (auto simp: file_ok_def)
  with assms f show ?thesis by (auto simp: vfs_lseek_def Let_def split: if_splits)
qed

lemma vfs_close_inv:
  assumes "vfs_inv v" and "vfs_close fd v = (r, v')"
  shows "vfs_inv v'"
proof (cases "vfs_find fd v")
  case (Some p)
  then show ?thesis
    using assms vfs_inv_clear [OF assms(1) vfs_file_facts(1) [OF assms(1), of fd "fst p" "snd p"]]
    by (cases p) (auto simp: vfs_close_def)
qed (use assms in \<open>simp add: vfs_close_def\<close>)

lemma vfs_inv_dirs [simp]: "vfs_inv (v\<lparr>dir_slots := d\<rparr>) = vfs_inv v"
  by (simp add: vfs_inv_def)

inductive vfs_step :: "vfs \<Rightarrow> vfs \<Rightarrow> bool" where
  vs_open: "next_vfs_fd v < 2147483648 \<Longrightarrow> vfs_open path v = Done (r, v') \<Longrightarrow> vfs_step v v'"
| vs_dup: "next_vfs_fd v < 2147483648 \<Longrightarrow> vfs_dup fd v = (r, v') \<Longrightarrow> vfs_step v v'"
| vs_read: "vfs_read fd count v = Done (r, bs, v') \<Longrightarrow> vfs_step v v'"
| vs_lseek: "vfs_lseek fd offset whence v = (r, v') \<Longrightarrow> vfs_step v v'"
| vs_close: "vfs_close fd v = (r, v') \<Longrightarrow> vfs_step v v'"
| vs_open_dir: "open_dir path v = (r, v') \<Longrightarrow> vfs_step v v'"
| vs_close_dir: "close_dir fd v = (b, v') \<Longrightarrow> vfs_step v v'"
| vs_getdents: "vfs_getdents64 fd count v = Done (r, bs, v') \<Longrightarrow> vfs_step v v'"

lemma vfs_read_inv: "vfs_inv v \<Longrightarrow> vfs_read fd count v = Done (r, bs, v') \<Longrightarrow> vfs_inv v'"
proof (cases "vfs_find fd v")
  case (Some p)
  assume "vfs_inv v" "vfs_read fd count v = Done (r, bs, v')"
  then show ?thesis using vfs_read_file [of v fd "fst p" "snd p" count] Some by auto
qed (auto simp: vfs_read_def)

lemma vfs_step_inv: "vfs_step v w \<Longrightarrow> vfs_inv v \<Longrightarrow> vfs_inv w"
proof (induction rule: vfs_step.induct)
  case (vs_open_dir path v r v')
  then show ?case by (auto simp: open_dir_def Let_def split: option.splits)
next
  case (vs_close_dir fd v b v')
  then show ?case by (auto simp: close_dir_def split: option.splits)
next
  case (vs_getdents fd count v r bs v')
  then show ?case
    by (auto simp: vfs_getdents64_def Let_def map_outcome_Done_iff split: option.splits if_splits)
qed (blast intro: vfs_open_inv vfs_dup_inv vfs_read_inv vfs_lseek_inv vfs_close_inv)+

interpretation vfs_sys: transition_system
  "\<lambda>v. \<exists>archive. length archive < two63 \<and> v = vfs_start archive" vfs_step vfs_inv
proof
  fix s assume "\<exists>archive. length archive < two63 \<and> s = vfs_start archive"
  then show "vfs_inv s" by (auto simp: vfs_inv_def vfs_start_def)
qed (rule vfs_step_inv)

section \<open>What the file system promises\<close>

abbreviation vfs_reachable :: "bytes \<Rightarrow> vfs \<Rightarrow> bool" where
  "vfs_reachable archive v \<equiv> vfs_step\<^sup>*\<^sup>* (vfs_start archive) v"

lemma vfs_reachable_inv: "length archive < two63 \<Longrightarrow> vfs_reachable archive v \<Longrightarrow> vfs_inv v"
  using vfs_sys.reachable_inv by blast

lemma vfs_step_data: "vfs_step v w \<Longrightarrow> cpio_data w = cpio_data v"
  by (induction rule: vfs_step.induct)
    (auto simp: vfs_open_def vfs_claim_def vfs_dup_def vfs_read_def vfs_lseek_def vfs_close_def
      open_dir_def close_dir_def vfs_getdents64_def Let_def map_outcome_Done_iff
      split: outcome.splits option.splits if_splits)

lemma vfs_reachable_data: "vfs_reachable archive v \<Longrightarrow> cpio_data v = archive"
  by (induction rule: rtranclp_induct) (auto simp: vfs_step_data vfs_start_def)

text \<open>C19 (the open-file table): in every reachable state the open descriptors are pairwise different,
  each file lies inside the archive with its position inside the file, and consequently no
  \<open>read\<close> or \<open>pread\<close>, whatever its descriptor, count and offset, panics.\<close>

theorem vfs_table_safe:
  assumes "length archive < two63" and "vfs_reachable archive v"
  shows "(\<forall>i j f g. i < VFS_MAX_OPEN \<longrightarrow> j < VFS_MAX_OPEN \<longrightarrow> open_files v ! i = Some f \<longrightarrow>
        open_files v ! j = Some g \<longrightarrow> f_fd f = f_fd g \<longrightarrow> i = j) \<and>
    (\<forall>f. Some f \<in> set (open_files v) \<longrightarrow>
        f_data_offset f + f_data_len f \<le> length archive \<and> f_pos f \<le> f_data_len f) \<and>
    vfs_read fd count v \<noteq> Panic \<and> vfs_pread fd count offset v \<noteq> Panic"
proof -
  have inv: "vfs_inv v" and data: "cpio_data v = archive"
    using vfs_reachable_inv [OF assms] vfs_reachable_data [OF assms(2)] by auto
  have "vfs_read fd count v \<noteq> Panic \<and> vfs_pread fd count offset v \<noteq> Panic"
  proof (cases "vfs_find fd v")
    case None
    then show ?thesis by (simp add: vfs_read_def vfs_pread_def)
  next
    case (Some p)
    obtain i f where p: "p = (i, f)" by force
    have "wadd64 (f_data_offset f) offset \<le> length (cpio_data v)" if "offset < f_data_len f"
    proof -
      have "f_data_offset f + offset \<le> length (cpio_data v)" "length (cpio_data v) < two64"
        using vfs_file_facts(3) [OF inv, of fd i f] Some p that inv by (simp_all add: file_ok_def vfs_inv_def)
      then show ?thesis by (simp add: wadd64_small)
    qed
    then have "vfs_pread fd count offset v \<noteq> Panic"
      using Some p by (cases "offset < f_data_len f") (auto simp: vfs_pread_def Let_def)
    with vfs_read_file [OF inv, of fd i f count] Some p show ?thesis by auto
  qed
  with inv data show ?thesis by (auto simp: vfs_inv_def file_ok_def)
qed

theorem vfs_table_safe_witness: "vfs_read 1000 5 (vfs_start [1, 2]) \<noteq> Panic"
  using vfs_table_safe [of "[1, 2]" "vfs_start [1, 2]"] by simp

text \<open>A sequence of \<open>read\<close> calls on one descriptor.\<close>

fun vfs_reads :: "i32 \<Rightarrow> usize list \<Rightarrow> vfs \<Rightarrow> bytes outcome" where
  "vfs_reads fd [] v = Done []"
| "vfs_reads fd (c # cs) v =
     (case vfs_read fd c v of
        Panic \<Rightarrow> Panic
      | Done (r, bs, v) \<Rightarrow> map_outcome ((@) bs) (vfs_reads fd cs v))"

lemma slice_split:
  assumes "n \<le> m"
  shows "slice xs a (a + m) = slice xs a (a + n) @ slice xs (a + n) (a + n + (m - n))"
proof -
  have "take m (drop a xs) = take n (drop a xs) @ take (m - n) (drop n (drop a xs))"
    using take_add [of n "m - n" "drop a xs"] assms by simp
  then show ?thesis by (simp add: slice_def add.commute)
qed

lemma vfs_reads_file:
  assumes "vfs_inv v" and "vfs_find fd v = Some (i, f)"
  shows "vfs_reads fd counts v = Done (slice (cpio_data v) (f_data_offset f + f_pos f)
    (f_data_offset f + f_pos f + min (sum_list counts) (f_data_len f - f_pos f)))"
  using assms
proof (induction counts arbitrary: v f)
  case Nil
  then show ?case by (simp add: slice_def)
next
  case (Cons c cs)
  let ?s = "f_data_offset f + f_pos f" and ?rem = "f_data_len f - f_pos f"
  let ?n = "min c ?rem"
  obtain v' where r: "vfs_read fd c v = Done (int ?n, slice (cpio_data v) ?s (?s + ?n), v')"
    and v': "vfs_inv v'" "cpio_data v' = cpio_data v" "vfs_find fd v' = Some (i, f\<lparr>f_pos := f_pos f + ?n\<rparr>)"
    using vfs_read_file [OF Cons.prems, of c] by blast
  have rest: "vfs_reads fd cs v' = Done (slice (cpio_data v) (?s + ?n)
      (?s + ?n + min (sum_list cs) (f_data_len f - (f_pos f + ?n))))"
    using Cons.IH [OF v'(1,3)] v'(2) by (simp add: add.assoc)
  have eq: "min (sum_list (c # cs)) ?rem - ?n = min (sum_list cs) (f_data_len f - (f_pos f + ?n))"
    and le: "?n \<le> min (sum_list (c # cs)) ?rem" by (auto simp: min_def)
  show ?case
    unfolding vfs_reads.simps r outcome.case prod.case rest outcome.map
    using slice_split [OF le, of "cpio_data v" ?s] unfolding eq by (rule arg_cong [OF sym])
qed

text \<open>The descriptor that \<open>open\<close> and \<open>dup\<close> hand out: it is new, and it finds the slot just filled.\<close>

lemma vfs_claim_find:
  assumes "vfs_inv v" and "next_vfs_fd v < 2147483648" and "vfs_claim off len pos v = (fd, v')" and "0 \<le> fd"
  shows "\<exists>i. vfs_find fd v' = Some (i, \<lparr>f_fd = fd, f_data_offset = off, f_data_len = len, f_pos = pos\<rparr>)"
    and "vfs_find fd2 v = Some (j, f) \<Longrightarrow> fd2 \<noteq> fd \<and> vfs_find fd2 v' = Some (j, f)"
    and "cpio_data v' = cpio_data v"
proof -
  let ?f = "\<lparr>f_fd = fd, f_data_offset = off, f_data_len = len, f_pos = pos\<rparr>"
  obtain i where p: "position (\<lambda>slot. slot = None) (open_files v) = Some i"
    using assms(3,4) by (auto simp: vfs_claim_def Let_def split: option.splits)
  have fd: "fd = int (next_vfs_fd v)"
    and v': "v' = v\<lparr>next_vfs_fd := next_vfs_fd v + 1, open_files := (open_files v)[i := Some ?f]\<rparr>"
    using p assms(2,3) by (auto simp: vfs_claim_def Let_def as_i32_small wadd64_small)
  have i: "i < length (open_files v)" "open_files v ! i = None" using position_SomeD [OF p] by auto
  have old: "\<not> has_fd fd (open_files v ! j)" if "j < length (open_files v)" for j
    using assms(1) that fd by (auto simp: vfs_inv_def has_fd_def split: option.splits) (metis nth_mem order_less_irrefl)
  have "position (has_fd fd) (open_files v') = Some i"
    using i old by (auto simp: v' position_Some_iff has_fd_def nth_list_update)
  then show "\<exists>i. vfs_find fd v' = Some (i, ?f)" using i by (simp add: vfs_find_def v')
  show "cpio_data v' = cpio_data v" by (simp add: v')
  assume find: "vfs_find fd2 v = Some (j, f)"
  note j = vfs_find_Some [OF find]
  have ne: "fd2 \<noteq> fd" using old [OF j(2)] j(3,4) by (auto simp: has_fd_def)
  have "j \<noteq> i" using i(2) j(3) by auto
  have "position (has_fd fd2) (open_files v') = Some j"
    using j(1) i ne \<open>j \<noteq> i\<close> by (auto simp: v' position_Some_iff has_fd_def nth_list_update)
  then show "fd2 \<noteq> fd \<and> vfs_find fd2 v' = Some (j, f)"
    using ne j(3) \<open>j \<noteq> i\<close> by (simp add: vfs_find_def v')
qed

text \<open>C18 (opening and reading a file): when \<open>open\<close> of a path returns a descriptor, the archive has a file
  of that name, and any sequence of \<open>read\<close> calls on the descriptor returns its contents from
  the beginning, in order, as many bytes as asked for or up to the end.\<close>

theorem vfs_open_read:
  assumes "\<forall>e \<in> set es. entry_ok e" and "length (cpio_archive es) < two63"
    and "vfs_reachable (cpio_archive es) v" and "next_vfs_fd v < 2147483648"
    and "vfs_open path v = Done (fd, v')" and "0 \<le> fd"
  shows "\<exists>content. map_of es (normalized path) = Some content \<and>
    vfs_reads fd counts v' = Done (take (sum_list counts) content)"
proof -
  let ?d = "cpio_archive es"
  have inv: "vfs_inv v" and data: "cpio_data v = ?d"
    using vfs_reachable_inv [OF assms(2,3)] vfs_reachable_data [OF assms(3)] by auto
  note look = lookup_archive [OF assms(1), of path]
  obtain content off where c: "map_of es (normalized path) = Some content"
    and l: "cpio_lookup ?d path = Done (Some (off, length content))"
    and sl: "slice ?d off (off + length content) = content"
    using look assms(5,6) data by (auto simp: vfs_open_def split: option.splits)
  let ?f = "\<lparr>f_fd = fd, f_data_offset = off, f_data_len = length content, f_pos = 0\<rparr>"
  have claim: "vfs_claim off (length content) 0 v = (fd, v')"
    using assms(5) l data by (simp add: vfs_open_def)
  obtain i where "vfs_find fd v' = Some (i, ?f)" and "cpio_data v' = ?d"
    using vfs_claim_find(1,3) [OF inv assms(4) claim assms(6)] data by auto
  moreover have "vfs_inv v'" using vfs_open_inv [OF inv assms(4,5)] .
  ultimately have "vfs_reads fd counts v' = Done (slice ?d off (off + min (sum_list counts) (length content)))"
    using vfs_reads_file [of v' fd i ?f counts] by simp
  moreover have "slice ?d off (off + min (sum_list counts) (length content)) = take (sum_list counts) content"
    using sl by (simp add: slice_def) (metis min.commute take_take)
  ultimately show ?thesis using c by simp
qed

lemma sample_archive_open:
  "\<exists>v'. vfs_open [97] (vfs_start (cpio_archive [([97], [1, 2, 3])])) = Done (1000, v')"
proof -
  have "\<forall>e \<in> set [([97], [1, 2, 3])]. entry_ok e" by (simp add: entry_ok_def str_def)
  moreover have "normalized [97] = [97]" by (simp add: normalized_def starts_with_def str_def)
  ultimately obtain off where "cpio_lookup (cpio_archive [([97], [1, 2, 3])]) [97] = Done (Some (off, 3))"
    using lookup_archive [of "[([97], [1, 2, 3])]" "[97]"] by auto
  moreover have "replicate VFS_MAX_OPEN None = (None :: open_file option) # replicate 255 None"
    by (simp add: VFS_MAX_OPEN_def numeral_eq_Suc)
  ultimately show ?thesis
    by (simp add: vfs_open_def vfs_claim_def vfs_start_def as_i32_small Let_def)
qed

lemma sample_archive_length: "length (cpio_archive [([97], [1, 2, 3])]) < two63"
  by (simp add: cpio_archive_def cpio_entry_def pad4_def align_down_def str_def)

theorem vfs_open_read_witness:
  "\<exists>v'. vfs_open [97] (vfs_start (cpio_archive [([97], [1, 2, 3])])) = Done (1000, v') \<and>
     vfs_reads 1000 [2, 2] v' = Done [1, 2, 3]"
proof -
  have e: "\<forall>e \<in> set [([97], [1, 2, 3])]. entry_ok e" by (simp add: entry_ok_def str_def)
  have n: "normalized [97] = [97]" by (simp add: normalized_def starts_with_def str_def)
  obtain v' where v': "vfs_open [97] (vfs_start (cpio_archive [([97], [1, 2, 3])])) = Done (1000, v')"
    using sample_archive_open by blast
  have "next_vfs_fd (vfs_start (cpio_archive [([97], [1, 2, 3])])) < 2147483648"
    by (simp add: vfs_start_def)
  from vfs_open_read [OF e sample_archive_length rtranclp.rtrancl_refl this v', of "[2, 2]"] n v'
  show ?thesis by auto
qed

lemma clamp: "len < two63 \<Longrightarrow>
    min (nat (max 0 (min x (int two63 - 1)))) len = nat (max 0 (min x (int len)))"
  by (cases "x \<le> int len"; cases "x < int two63 - 1"; cases "0 \<le> x")
    (simp_all add: min_def max_def nat_le_iff le_nat_iff)

text \<open>C35 (seeking clamps): \<open>lseek\<close> on an open file with a valid \<open>whence\<close> moves to the requested position,
  computed without bound, clamped between 0 and the file size; the saturating additions and
  casts of the code never show. It changes nothing else.\<close>

theorem vfs_lseek_clamps:
  assumes "length archive < two63" and "vfs_reachable archive v" and "vfs_find fd v = Some (i, f)"
    and "whence \<in> {0, 1, 2}" and "- int two63 \<le> offset" and "offset < int two63"
  shows "vfs_lseek fd offset whence v =
    (let base = (if whence = 0 then 0 else if whence = 1 then int (f_pos f) else int (f_data_len f));
         pos = max 0 (min (base + offset) (int (f_data_len f)))
     in (pos, v\<lparr>open_files := (open_files v)[i := Some (f\<lparr>f_pos := nat pos\<rparr>)]\<rparr>))"
proof -
  have inv: "vfs_inv v" using vfs_reachable_inv [OF assms(1,2)] .
  note f = vfs_file_facts [OF inv assms(3)]
  have le: "f_pos f \<le> f_data_len f" "f_data_len f < two63" using f(3,4) by (auto simp: file_ok_def)
  define base where "base = (if whence = 0 then 0 else if whence = 1 then int (f_pos f) else int (f_data_len f))"
  define tgt where "tgt = (if whence = 0 then offset
      else if whence = 1 then sat_add_i64 (as_i64 (f_pos f)) offset
      else sat_add_i64 (as_i64 (f_data_len f)) offset)"
  have "tgt = max (- int two63) (min (base + offset) (int two63 - 1))"
    using assms(5,6) le by (auto simp: tgt_def base_def sat_add_i64_def as_i64_small)
  then have "as_usize (max 0 tgt) = nat (max 0 (min (base + offset) (int two63 - 1)))"
    by (simp add: as_usize_nonneg)
  then have "min (as_usize (max 0 tgt)) (f_data_len f) = nat (max 0 (min (base + offset) (int (f_data_len f))))"
    using clamp [OF le(2)] by simp
  moreover have "as_i64 (nat (max 0 (min (base + offset) (int (f_data_len f))))) =
      max 0 (min (base + offset) (int (f_data_len f)))"
    using le(2) by (simp add: as_i64_small)
  ultimately show ?thesis
    using assms(3,4) unfolding vfs_lseek_def Let_def
    by (auto simp flip: tgt_def base_def)
qed

lemma sample_vfs:
  "\<exists>v i f. vfs_reachable (cpio_archive [([97], [1, 2, 3])]) v \<and> vfs_find 1000 v = Some (i, f) \<and>
     f_data_len f = 3 \<and> f_pos f = 0 \<and> next_vfs_fd v = 1001 \<and> position (\<lambda>s. s = None) (open_files v) \<noteq> None"
proof -
  let ?v = "vfs_start (cpio_archive [([97], [1, 2, 3])])"
  have "\<forall>e \<in> set [([97], [1, 2, 3])]. entry_ok e" by (simp add: entry_ok_def str_def)
  moreover have "normalized [97] = [97]" by (simp add: normalized_def starts_with_def str_def)
  ultimately obtain off where "cpio_lookup (cpio_archive [([97], [1, 2, 3])]) [97] = Done (Some (off, 3))"
    using lookup_archive [of "[([97], [1, 2, 3])]" "[97]"] by auto
  moreover obtain v' where v': "vfs_open [97] ?v = Done (1000, v')" using sample_archive_open by blast
  ultimately have claim: "vfs_claim off 3 0 ?v = (1000, v')" by (simp add: vfs_open_def vfs_start_def)
  have "replicate VFS_MAX_OPEN None = (None :: open_file option) # None # replicate 254 None"
    by (simp add: VFS_MAX_OPEN_def numeral_eq_Suc)
  then have "position (\<lambda>s. s = None) (open_files v') \<noteq> None" "next_vfs_fd v' = 1001"
    using claim by (auto simp: vfs_claim_def vfs_start_def Let_def wadd64_small)
  moreover have "vfs_reachable (cpio_archive [([97], [1, 2, 3])]) v'"
    using vs_open [OF _ v'] by (simp add: vfs_start_def)
  moreover have "vfs_inv ?v" using vfs_reachable_inv [OF sample_archive_length] by simp
  then have "\<exists>i. vfs_find 1000 v' = Some (i, \<lparr>f_fd = 1000, f_data_offset = off, f_data_len = 3, f_pos = 0\<rparr>)"
    by (intro vfs_claim_find(1) [OF _ _ claim]) (simp_all add: vfs_start_def)
  ultimately show ?thesis by (metis open_file.select_convs(3,4))
qed

theorem vfs_lseek_clamps_witness:
  "\<exists>v. vfs_reachable (cpio_archive [([97], [1, 2, 3])]) v \<and> fst (vfs_lseek 1000 (-1) 2 v) = 2"
proof -
  obtain v i f where v: "vfs_reachable (cpio_archive [([97], [1, 2, 3])]) v"
    and f: "vfs_find 1000 v = Some (i, f)" "f_data_len f = 3" using sample_vfs by blast
  from vfs_lseek_clamps [OF sample_archive_length v f(1), of 2 "-1"] f(2) v show ?thesis
    by (auto simp: Let_def)
qed



section \<open>Directory listings\<close>

text \<open>The loop of \<open>fill_dir_entries\<close> over the names of a well-formed archive.\<close>

fun fill_names :: "usize \<Rightarrow> bytes \<Rightarrow> bytes list \<Rightarrow> bytes \<Rightarrow> bytes list \<Rightarrow> bytes" where
  "fill_names count prefix [] out seen = out"
| "fill_names count prefix (name # names) out seen =
     (case fill_step count prefix name out seen of
        None \<Rightarrow> out
      | Some (out', seen') \<Rightarrow> fill_names count prefix names out' seen')"

lemma fill_dir_archive:
  assumes "\<forall>e \<in> set es. entry_ok e" and "4 dvd length pre"
  shows "fill_dir_from (pre @ cpio_archive es) count prefix (length pre) out seen =
    Done (fill_names count prefix (map fst es) out seen)"
  using assms
proof (induction es arbitrary: pre out seen)
  case Nil
  then show ?case
    using entry_fields [of "(str ''TRAILER!!!'', [])" pre "[]"]
    by (subst fill_dir_from.simps) (simp add: cpio_archive_def)
next
  case (Cons e es)
  have d: "pre @ cpio_archive (e # es) = pre @ cpio_entry e @ cpio_archive es"
    by (simp add: cpio_archive_def)
  have e: "entry_ok e" and al: "4 dvd length pre" using Cons.prems by auto
  note f = entry_fields [OF disjI1 [OF e] al, of "cpio_archive es", folded d]
  have ih: "fill_dir_from (pre @ cpio_archive (e # es)) count prefix (length (pre @ cpio_entry e)) out' seen'
      = Done (fill_names count prefix (map fst es) out' seen')" for out' seen'
    using Cons.IH [of "pre @ cpio_entry e" out' seen'] Cons.prems(1) entry_aligned [OF al] by (simp add: d)
  show ?case
    using f e by (subst fill_dir_from.simps) (auto simp: entry_ok_def ih [unfolded length_append] split: option.splits)
qed

definition child_of :: "bytes \<Rightarrow> bytes \<Rightarrow> bytes option" where
  "child_of prefix name =
     (if length prefix < length name \<and> take (length prefix) name = prefix
      then let rest = drop (length prefix) name; child = take (child_end rest) rest
           in if child = [] then None else Some child
      else None)"

text \<open>The names of the immediate children in an archive, in order of first occurrence.\<close>

fun children :: "bytes \<Rightarrow> bytes list \<Rightarrow> bytes list \<Rightarrow> bytes list" where
  "children prefix [] acc = acc"
| "children prefix (name # names) acc =
     (case child_of prefix name of
        None \<Rightarrow> children prefix names acc
      | Some c \<Rightarrow> children prefix names (if c \<in> set acc then acc else acc @ [c]))"

lemma seen_match_iff:
  assumes "0 \<notin> set a" and "0 \<notin> set b" and "length a < 64" and "length b < 64"
  shows "seen_match a (resize0 64 b) \<longleftrightarrow> a = b"
proof
  assume m: "seen_match a (resize0 64 b)"
  have r: "resize0 64 b = b @ replicate (64 - length b) 0" using assms(4) by (simp add: resize0_def)
  have eq: "take (length a) (b @ replicate (64 - length b) 0) = a"
    and z: "(b @ replicate (64 - length b) 0) ! length a = 0"
    using m r by (simp_all add: seen_match_def)
  have "\<not> length b < length a"
  proof
    assume lt: "length b < length a"
    then have "a ! length b = 0"
      using eq assms(3) by (metis (no_types, lifting) add_diff_cancel_left' diff_is_0_eq' length_replicate
          less_imp_le nth_append_length_plus nth_replicate nth_take add.right_neutral zero_less_diff order_less_trans)
    with assms(1) lt show False by (metis nth_mem)
  qed
  moreover have "\<not> length a < length b"
    using z assms(2) by (metis nth_append nth_mem)
  ultimately have "length a = length b" by simp
  with eq show "a = b" by simp
next
  assume "a = b"
  with assms show "seen_match a (resize0 64 b)"
    by (simp add: seen_match_def resize0_def nth_append)
qed

lemma children_prefix: "\<exists>zs. children prefix names acc = acc @ zs"
proof (induction names arbitrary: acc)
  case (Cons name names)
  show ?case
  proof (cases "child_of prefix name")
    case None
    then show ?thesis using Cons by simp
  next
    case (Some c)
    then show ?thesis using Cons [of acc] Cons [of "acc @ [c]"] by auto
  qed
qed simp

lemma fill_step_cases:
  assumes "length acc \<le> 32" and "\<forall>c \<in> set acc. length c < 64 \<and> 0 \<notin> set c"
    and "\<forall>c. child_of prefix name = Some c \<longrightarrow> length c < 64 \<and> 0 \<notin> set c \<and>
      (c \<notin> set acc \<longrightarrow> length acc < 32 \<and> length out + dirent_reclen c \<le> count)"
  shows "case child_of prefix name of
      None \<Rightarrow> fill_step count prefix name out (map (resize0 64) acc) = Some (out, map (resize0 64) acc)
    | Some c \<Rightarrow>
        if c \<in> set acc then fill_step count prefix name out (map (resize0 64) acc) = Some (out, map (resize0 64) acc)
        else \<exists>t. fill_step count prefix name out (map (resize0 64) acc) =
          Some (out @ dirent_bytes \<lparr>d_ino = length acc + 1, d_off = length out + dirent_reclen c, d_type = t,
                  d_name = c\<rparr>, map (resize0 64) (acc @ [c]))"
proof (cases "child_of prefix name")
  case None
  then show ?thesis by (auto simp: child_of_def fill_step_def Let_def split: if_splits)
next
  case (Some c)
  note c = assms(3) [rule_format, OF Some]
  have in_pre: "length prefix < length name \<and> take (length prefix) name = prefix"
    and ch: "c = take (child_end (drop (length prefix) name)) (drop (length prefix) name)" and "c \<noteq> []"
    using Some by (auto simp: child_of_def Let_def split: if_splits)
  have dup: "list_ex (seen_match c) (map (resize0 64) acc) \<longleftrightarrow> c \<in> set acc"
    using seen_match_iff c assms(2) by (auto simp: list_ex_iff)
  show ?thesis
    using Some c in_pre \<open>c \<noteq> []\<close> dup unfolding fill_step_def Let_def ch [symmetric]
    by (auto simp: ch [symmetric] One_nat_def)
qed

lemma fill_names_children:
  assumes "length (children prefix names acc) \<le> 32"
    and "\<forall>c \<in> set (children prefix names acc). length c < 64 \<and> 0 \<notin> set c"
    and "sum_list (map dirent_reclen (children prefix names acc)) \<le> count" and "count < two63"
    and "map d_name ds = acc" and "\<forall>d \<in> set ds. dirent_ok d"
  shows "\<exists>ds'. fill_names count prefix names (concat (map dirent_bytes ds)) (map (resize0 64) acc) =
      concat (map dirent_bytes ds') \<and> map d_name ds' = children prefix names acc \<and> (\<forall>d \<in> set ds'. dirent_ok d)"
  using assms
proof (induction names arbitrary: acc ds)
  case Nil
  then show ?case by auto
next
  case (Cons name names)
  let ?out = "concat (map dirent_bytes ds)"
  have len: "length ?out = sum_list (map dirent_reclen acc)"
    using Cons.prems(5) by (auto simp: length_concat comp_def)
  have acc: "length acc \<le> 32" "\<forall>c \<in> set acc. length c < 64 \<and> 0 \<notin> set c"
    using Cons.prems(1,2) children_prefix [of prefix "name # names" acc] by auto
  have new: "length c < 64 \<and> 0 \<notin> set c \<and>
      (c \<notin> set acc \<longrightarrow> length acc < 32 \<and> length ?out + dirent_reclen c \<le> count)"
    if "child_of prefix name = Some c" for c
  proof (cases "c \<in> set acc")
    case True
    with acc show ?thesis by auto
  next
    case False
    then have "children prefix (name # names) acc = children prefix names (acc @ [c])"
      using that by simp
    then obtain zs where "children prefix (name # names) acc = (acc @ [c]) @ zs"
      using children_prefix [of prefix names "acc @ [c]"] by metis
    with Cons.prems(1-3) len show ?thesis by auto
  qed
  note step = fill_step_cases [OF acc, of prefix name ?out count, OF allI [OF impI [OF new]]]
  show ?case
  proof (cases "child_of prefix name")
    case None
    then have st: "fill_step count prefix name ?out (map (resize0 64) acc) = Some (?out, map (resize0 64) acc)"
      and ch: "children prefix (name # names) acc = children prefix names acc"
      using step by simp_all
    show ?thesis
      using Cons.IH [of acc ds] Cons.prems unfolding ch fill_names.simps st by simp
  next
    case (Some c)
    show ?thesis
    proof (cases "c \<in> set acc")
      case True
      then have st: "fill_step count prefix name ?out (map (resize0 64) acc) = Some (?out, map (resize0 64) acc)"
        and ch: "children prefix (name # names) acc = children prefix names acc"
        using Some step by simp_all
      show ?thesis
        using Cons.IH [of acc ds] Cons.prems unfolding ch fill_names.simps st by simp
    next
      case False
      then obtain t where st: "fill_step count prefix name ?out (map (resize0 64) acc) =
          Some (?out @ dirent_bytes \<lparr>d_ino = length acc + 1, d_off = length ?out + dirent_reclen c,
            d_type = t, d_name = c\<rparr>, map (resize0 64) (acc @ [c]))" using step Some by auto
      let ?d = "\<lparr>d_ino = length acc + 1, d_off = length ?out + dirent_reclen c, d_type = t, d_name = c\<rparr>"
      have "dirent_ok ?d" using new [OF Some] False Cons.prems(4) by (simp add: dirent_ok_def)
      moreover have ch: "children prefix (name # names) acc = children prefix names (acc @ [c])"
        using Some False by simp
      ultimately show ?thesis
        using Cons.IH [of "acc @ [c]" "ds @ [?d]"] Cons.prems unfolding ch fill_names.simps st by simp
    qed
  qed
qed

lemma getdents_archive:
  fixes count :: usize
  assumes "\<forall>e \<in> set es. entry_ok e" and "vfs_reachable (cpio_archive es) v"
    and "position (\<lambda>s. ds_fd s = fd) (dir_slots v) = Some i" and "\<not> ds_done (dir_slots v ! i)"
  defines "out \<equiv> fill_names count (slot_prefix (dir_slots v ! i)) (map fst es) [] []"
  shows "vfs_getdents64 fd count v = Done (as_i64 (length out), out,
    v\<lparr>dir_slots := (dir_slots v)[i := (dir_slots v ! i)\<lparr>ds_done := True\<rparr>]\<rparr>)"
  using fill_dir_archive [OF assms(1), of "[]" count _ "[]" "[]"] vfs_reachable_data [OF assms(2)] assms(3,4)
  by (simp add: vfs_getdents64_def Let_def fill_dir_entries_def out_def)


lemma fill_names_bound:
  "length seen \<le> 32 \<Longrightarrow> \<exists>ds. fill_names count prefix names out seen = out @ concat (map dirent_bytes ds) \<and>
     length ds + length seen \<le> 32"
proof (induction names arbitrary: out seen)
  case Nil
  then show ?case by (intro exI [of _ "[]"]) simp
next
  case (Cons name names)
  consider "fill_step count prefix name out seen = None"
    | "fill_step count prefix name out seen = Some (out, seen)"
    | d s where "fill_step count prefix name out seen = Some (out @ dirent_bytes d, seen @ [s])" "length seen < 32"
    unfolding fill_step_def Let_def by (metis (no_types, lifting))
  then show ?case
  proof cases
    case 1
    then show ?thesis using Cons.prems by (intro exI [of _ "[]"]) simp
  next
    case 2
    then show ?thesis using Cons by simp
  next
    case (3 d s)
    then obtain ds where "fill_names count prefix names (out @ dirent_bytes d) (seen @ [s]) =
        (out @ dirent_bytes d) @ concat (map dirent_bytes ds)" "length ds + length (seen @ [s]) \<le> 32"
      using Cons.IH [of "seen @ [s]" "out @ dirent_bytes d"] by auto
    with 3 show ?thesis by (intro exI [of _ "d # ds"]) simp
  qed
qed

text \<open>(listings stop at 32 entries): a directory of the archive is read with a single call, whatever its
  size: that call stores at most 32 records, and every later call on the descriptor reports the
  end of the directory. Children beyond the thirty-second are never listed.\<close>

theorem vfs_listing_truncated:
  assumes "\<forall>e \<in> set es. entry_ok e" and "vfs_reachable (cpio_archive es) v"
    and "position (\<lambda>s. ds_fd s = fd) (dir_slots v) = Some i" and "\<not> ds_done (dir_slots v ! i)"
  shows "\<exists>r ds v'. vfs_getdents64 fd count v = Done (r, concat (map dirent_bytes ds), v') \<and>
    length ds \<le> 32 \<and> (\<forall>count'. vfs_getdents64 fd count' v' = Done (0, [], v'))"
proof -
  let ?v = "v\<lparr>dir_slots := (dir_slots v)[i := (dir_slots v ! i)\<lparr>ds_done := True\<rparr>]\<rparr>"
  obtain ds where ds: "fill_names count (slot_prefix (dir_slots v ! i)) (map fst es) [] [] =
      concat (map dirent_bytes ds)" "length ds \<le> 32"
    using fill_names_bound [of "[]" count "slot_prefix (dir_slots v ! i)" "map fst es" "[]"] by auto
  have i: "i < length (dir_slots v)" "ds_fd (dir_slots v ! i) = fd"
    using position_SomeD [OF assms(3)] by auto
  have "position (\<lambda>s. ds_fd s = fd) (dir_slots ?v) = Some i"
    using assms(3) i by (auto simp: position_Some_iff)
  then have "vfs_getdents64 fd count' ?v = Done (0, [], ?v)" for count'
    using i by (simp add: vfs_getdents64_def)
  then show ?thesis using getdents_archive [OF assms, of count] ds by metis
qed

lemma sample_open_dir:
  fixes a
  defines "v \<equiv> snd (open_dir [47] (vfs_start a))"
  shows "vfs_reachable a v" and "position (\<lambda>s. ds_fd s = 900) (dir_slots v) = Some 0"
    and "\<not> ds_done (dir_slots v ! 0)" and "slot_prefix (dir_slots v ! 0) = []"
proof -
  have "vfs_step (vfs_start a) v" unfolding v_def by (rule vs_open_dir) (rule prod.collapse [symmetric])
  then show "vfs_reachable a v" by blast
  have "replicate MAX_DIRS empty_dir_slot = empty_dir_slot # replicate 7 empty_dir_slot"
    by (simp add: MAX_DIRS_def numeral_eq_Suc)
  then have "dir_slots v = \<lparr>ds_fd = 900, ds_prefix = overwrite 0 [] (ds_prefix empty_dir_slot),
      ds_prefix_len = 0, ds_done = False\<rparr> # replicate 7 empty_dir_slot"
    by (simp add: v_def open_dir_def vfs_start_def Let_def DIR_FD_BASE_def starts_with_def str_def
        empty_dir_slot_def)
  then show "position (\<lambda>s. ds_fd s = 900) (dir_slots v) = Some 0" "\<not> ds_done (dir_slots v ! 0)"
    "slot_prefix (dir_slots v ! 0) = []"
    by (simp_all add: slot_prefix_def)
qed


theorem vfs_listing_truncated_witness:
  "\<exists>r ds v'. vfs_getdents64 900 24 (snd (open_dir [47] (vfs_start (cpio_archive [([97], [1, 2, 3])])))) =
     Done (r, concat (map dirent_bytes ds), v') \<and> length ds \<le> 32"
proof -
  have e: "\<forall>e \<in> set [([97], [1, 2, 3])]. entry_ok e" by (simp add: entry_ok_def str_def)
  show ?thesis using vfs_listing_truncated [OF e sample_open_dir(1-3), of 24] by blast
qed

end
