(* ===== verification/Mmap.thy ===== *)
theory Mmap
  imports Prelude
begin

text \<open>
  The address-space allocator behind \<open>mmap\<close>, \<open>munmap\<close> and \<open>brk\<close> in \<open>src/src/syscall.rs\<close>: a bump
  pointer \<open>MMAP_NEXT\<close>, the list \<open>FREE_REGIONS\<close> of freed \<open>(start, length)\<close> pairs and the break.
  The record \<open>mm\<close> is that state; addresses and lengths are \<open>u64\<close> values with their
  wrap-around. \<open>sys_mmap\<close> also says which range it fills with zeros. The retry loop around
  \<open>compare_exchange\<close> runs once in a sequential call.
\<close>

section \<open>Data and operations\<close>

definition MMAP_BASE :: nat where
  "MMAP_BASE = 0x1A000000"

definition MMAP_LIMIT :: nat where
  "MMAP_LIMIT = 0xA0000000"

type_synonym region = "nat \<times> nat"

record mm =
  mmap_next :: nat
  free_regions :: "region list"
  brk_top :: nat
  brk_base :: nat

definition mm_init :: mm where
  "mm_init = \<lparr>mmap_next = MMAP_BASE, free_regions = [], brk_top = 0, brk_base = 0\<rparr>"

definition set_initial_brk :: "nat \<Rightarrow> mm \<Rightarrow> mm" where
  "set_initial_brk mem_end m = m\<lparr>brk_top := mem_end\<rparr>"

definition sys_brk :: "nat \<Rightarrow> mm \<Rightarrow> i64 \<times> mm" where
  "sys_brk addr m =
     (if addr = 0 then (as_i64 (brk_top m), m)
      else (as_i64 addr, m\<lparr>brk_base := (if brk_base m = 0 then addr else brk_base m), brk_top := addr\<rparr>))"

text \<open>
  \<open>free_regions_add\<close>: extend the first entry that touches the range, then merge the extended
  entry once with another entry that it touches.
\<close>

definition touches :: "region \<Rightarrow> region \<Rightarrow> bool" where
  "touches r s \<longleftrightarrow> wadd64 (fst r) (snd r) = fst s \<or> wadd64 (fst s) (snd s) = fst r"

definition extend :: "region \<Rightarrow> region \<Rightarrow> region" where
  "extend r s =
     (if wadd64 (fst r) (snd r) = fst s then (fst r, wadd64 (snd r) (snd s))
      else (fst s, wadd64 (snd r) (snd s)))"

definition second_merge :: "nat \<Rightarrow> region \<Rightarrow> region list \<Rightarrow> region list" where
  "second_merge i new free =
     (case List.find (\<lambda>j. j \<noteq> i \<and> touches (free ! j) new) [0..<length free] of
        None \<Rightarrow> free
      | Some j \<Rightarrow>
          let (oa, ol) = free ! j;
              free = remove_at j free;
              i = (if j < i then i - 1 else i);
              (lo, hi) = (if oa < fst new then (oa, wadd64 (fst new) (snd new))
                          else (fst new, wadd64 oa ol))
          in free[i := (lo, wsub64 hi lo)])"

definition free_regions_add :: "nat \<Rightarrow> nat \<Rightarrow> region list \<Rightarrow> region list" where
  "free_regions_add addr len free =
     (case position (\<lambda>r. touches r (addr, len)) free of
        None \<Rightarrow> free @ [(addr, len)]
      | Some i \<Rightarrow>
          let new = extend (free ! i) (addr, len)
          in second_merge i new (free[i := new]))"

text \<open>The best-fit scan of \<open>free_regions_take\<close>, with the index of the head of the list.\<close>

fun best_fit :: "nat \<Rightarrow> region list \<Rightarrow> nat \<Rightarrow> nat option \<Rightarrow> nat \<Rightarrow> nat option" where
  "best_fit len [] i best best_excess = best"
| "best_fit len (r # free) i best best_excess =
     (if len \<le> snd r then
        let excess = snd r - len
        in if excess < best_excess then
             (if excess = 0 then Some i else best_fit len free (i + 1) (Some i) excess)
           else best_fit len free (i + 1) best best_excess
      else best_fit len free (i + 1) best best_excess)"

definition free_regions_take :: "nat \<Rightarrow> region list \<Rightarrow> (nat \<times> region list) option" where
  "free_regions_take len free =
     (case best_fit len free 0 None (two64 - 1) of
        None \<Rightarrow> None
      | Some i \<Rightarrow>
          let (a, l) = free ! i
          in Some (a, if l = len then swap_remove i free else free[i := (wadd64 a len, l - len)]))"

text \<open>The pieces of a free region that \<open>free_regions_drop_range\<close> keeps when it overlaps.\<close>

definition overlap_pieces :: "nat \<Rightarrow> nat \<Rightarrow> region \<Rightarrow> region list" where
  "overlap_pieces addr end_addr r =
     (let r_end = wadd64 (fst r) (snd r)
      in if r_end \<le> addr \<or> end_addr \<le> fst r then []
         else (if fst r < addr then [(fst r, addr - fst r)] else []) @
              (if end_addr < r_end then [(end_addr, r_end - end_addr)] else []))"

definition free_regions_drop_range :: "nat \<Rightarrow> nat \<Rightarrow> region list \<Rightarrow> region list" where
  "free_regions_drop_range addr len free =
     (let end_addr = wadd64 addr len;
          kept = filter (\<lambda>r. wadd64 (fst r) (snd r) \<le> addr \<or> end_addr \<le> fst r) free;
          to_add = concat (map (overlap_pieces addr end_addr) free)
      in kept @ to_add)"

definition page_round :: "nat \<Rightarrow> nat" where
  "page_round len = align_down 4096 (wadd64 len 0xFFF)"

definition zeroed_range :: "nat \<Rightarrow> nat \<Rightarrow> region option" where
  "zeroed_range addr aligned = (if aligned \<le> 0x4000000 then Some (addr, aligned) else None)"

definition sys_mmap :: "nat \<Rightarrow> nat \<Rightarrow> u32 \<Rightarrow> mm \<Rightarrow> i64 \<times> region option \<times> mm" where
  "sys_mmap addr len flags m =
     (let aligned = page_round len
      in if addr \<noteq> 0 \<and> flags AND 0x10 \<noteq> 0 then
           (if MMAP_LIMIT < sat_add64 addr aligned then (-12, None, m)
            else (as_i64 addr, zeroed_range addr aligned,
                  m\<lparr>free_regions := free_regions_drop_range addr aligned (free_regions m)\<rparr>))
         else
           (case free_regions_take aligned (free_regions m) of
              Some (reused, free) \<Rightarrow>
                (as_i64 reused, zeroed_range reused aligned, m\<lparr>free_regions := free\<rparr>)
            | None \<Rightarrow>
                let cur = mmap_next m; new = sat_add64 cur aligned
                in if MMAP_LIMIT < new then (-12, None, m)
                   else (as_i64 cur, None, m\<lparr>mmap_next := new\<rparr>)))"

definition sys_munmap :: "nat \<Rightarrow> nat \<Rightarrow> mm \<Rightarrow> i64 \<times> mm" where
  "sys_munmap addr len m =
     (if addr = 0 \<or> len = 0 then (-22, m)
      else
        let aligned_addr = align_down 4096 addr;
            aligned_len = align_down 4096 (wadd64 (wadd64 len (addr - aligned_addr)) 0xFFF)
        in if MMAP_BASE \<le> aligned_addr \<and> wadd64 aligned_addr aligned_len \<le> MMAP_LIMIT
           then (0, m\<lparr>free_regions := free_regions_add aligned_addr aligned_len (free_regions m)\<rparr>)
           else (0, m))"

end
