(* ===== verification/Mmap_Props.thy ===== *)
theory Mmap_Props
  imports Mmap
begin

text \<open>
  Correctness of the address-space allocator against a ghost set of live addresses (handed out
  by \<open>mmap\<close> and not yet given back). The invariant is a single equation: at every address the
  number of free regions that cover it, plus one if it is live, is one inside
  \<open>[MMAP_BASE, MMAP_NEXT)\<close> and zero outside. It says at once that free regions do not overlap,
  that none is handed out twice and that nothing is lost.
\<close>

section \<open>Coverage\<close>

definition covers :: "nat \<Rightarrow> region \<Rightarrow> nat" where
  "covers x r = of_bool (fst r \<le> x \<and> x < fst r + snd r)"

definition cov :: "region list \<Rightarrow> nat \<Rightarrow> nat" where
  "cov free x = sum_list (map (covers x) free)"

lemma cov_simps [simp]: "cov [] x = 0" "cov (r # rs) x = covers x r + cov rs x"
  "cov (xs @ ys) x = cov xs x + cov ys x"
  by (simp_all add: cov_def)

lemma cov_update: "i < length rs \<Longrightarrow> cov (rs[i := r]) x + covers x (rs ! i) = cov rs x + covers x r"
  unfolding cov_def by (rule sum_list_update_nat)

lemma cov_remove_at: "i < length rs \<Longrightarrow> cov (remove_at i rs) x + covers x (rs ! i) = cov rs x"
  unfolding cov_def by (rule sum_list_remove_at)

lemma cov_swap_remove: "i < length rs \<Longrightarrow> cov (swap_remove i rs) x + covers x (rs ! i) = cov rs x"
  unfolding cov_def by (rule sum_list_swap_remove)

lemma covers_le_cov: "r \<in> set rs \<Longrightarrow> covers x r \<le> cov rs x"
  by (induction rs) auto

text \<open>A region of the list is non-empty, page-aligned and below the limit.\<close>

definition region_ok :: "region \<Rightarrow> bool" where
  "region_ok r \<longleftrightarrow> 0 < snd r \<and> 4096 dvd fst r \<and> 4096 dvd snd r \<and> MMAP_BASE \<le> fst r \<and>
     fst r + snd r \<le> MMAP_LIMIT"

lemma limit_small: "x \<le> MMAP_LIMIT \<Longrightarrow> x < two63" "x \<le> MMAP_LIMIT \<Longrightarrow> x < two64"
  by (simp_all add: MMAP_LIMIT_def)

lemma region_end: "region_ok r \<Longrightarrow> wadd64 (fst r) (snd r) = fst r + snd r"
  by (intro wadd64_small) (auto simp: region_ok_def dest: limit_small)

lemma region_sum: "region_ok r \<Longrightarrow> region_ok s \<Longrightarrow> wadd64 (snd r) (snd s) = snd r + snd s"
  by (intro wadd64_small) (auto simp: region_ok_def MMAP_LIMIT_def)

lemma extend_spec:
  assumes "region_ok r" and "region_ok s" and "touches r s"
  shows "region_ok (extend r s)" and "covers x (extend r s) = covers x r + covers x s"
proof -
  have "fst r + snd r = fst s \<or> fst s + snd s = fst r"
    using assms by (simp add: touches_def region_end)
  then show "region_ok (extend r s)" "covers x (extend r s) = covers x r + covers x s"
    using assms(1,2) by (auto simp: extend_def region_end region_sum region_ok_def covers_def)
qed

lemma second_merge_spec:
  assumes "\<forall>r \<in> set free. region_ok r" and "i < length free" and "free ! i = new"
  shows "\<forall>r \<in> set (second_merge i new free). region_ok r" and "cov (second_merge i new free) x = cov free x"
proof -
  have "(\<forall>r \<in> set (second_merge i new free). region_ok r) \<and> cov (second_merge i new free) x = cov free x"
  proof (cases "List.find (\<lambda>j. j \<noteq> i \<and> touches (free ! j) new) [0..<length free]")
    case None
    then show ?thesis using assms(1) by (simp add: second_merge_def)
  next
    case (Some j)
    then have j: "j < length free" "j \<noteq> i" "touches (free ! j) new"
      by (auto simp: find_Some_iff)
    obtain oa ol where o: "free ! j = (oa, ol)" by force
    define i' where "i' = (if j < i then i - 1 else i)"
    define m where "m = (if oa < fst new then (oa, wadd64 (fst new) (snd new)) else (fst new, wadd64 oa ol))"
    define r where "r = (fst m, wsub64 (snd m) (fst m))"
    have ok: "region_ok (oa, ol)" "region_ok new" using assms j(1) o by (metis nth_mem)+
    have meet: "oa + ol = fst new \<or> fst new + snd new = oa"
      using j(3) o ok region_end by (fastforce simp: touches_def)
    have r: "region_ok r" "covers x r = covers x (oa, ol) + covers x new"
      using ok meet region_end [OF ok(1)] region_end [OF ok(2)]
      by (auto simp: r_def m_def region_ok_def covers_def wsub64_small limit_small)
    have i': "i' < length (remove_at j free)" and at: "remove_at j free ! i' = new"
      using assms(2,3) j(1,2) by (auto simp: i'_def remove_at_def nth_append min_def One_nat_def)
    have "second_merge i new free = (remove_at j free)[i' := r]"
      using Some o by (auto simp: second_merge_def Let_def i'_def m_def r_def)
    moreover have "cov ((remove_at j free)[i' := r]) x = cov free x"
      using cov_update [OF i', of r x] cov_remove_at [OF j(1), of x] r(2) o at by simp
    moreover have "\<forall>s \<in> set ((remove_at j free)[i' := r]). region_ok s"
      using set_update_subset_insert [of "remove_at j free" i' r] set_remove_at [of j free] assms(1) r(1) by blast
    ultimately show ?thesis by simp
  qed
  then show "\<forall>r \<in> set (second_merge i new free). region_ok r"
    and "cov (second_merge i new free) x = cov free x" by auto
qed

lemma free_regions_add_spec:
  assumes "\<forall>r \<in> set free. region_ok r" and "region_ok (addr, len)"
  shows "\<forall>r \<in> set (free_regions_add addr len free). region_ok r"
    and "cov (free_regions_add addr len free) x = cov free x + covers x (addr, len)"
proof -
  have "(\<forall>r \<in> set (free_regions_add addr len free). region_ok r) \<and>
      cov (free_regions_add addr len free) x = cov free x + covers x (addr, len)"
  proof (cases "position (\<lambda>r. touches r (addr, len)) free")
    case None
    then show ?thesis using assms by (simp add: free_regions_add_def)
  next
    case (Some i)
    then have i: "i < length free" "touches (free ! i) (addr, len)" "free ! i \<in> set free"
      by (auto dest: position_SomeD)
    let ?new = "extend (free ! i) (addr, len)"
    have new: "region_ok ?new" "covers x ?new = covers x (free ! i) + covers x (addr, len)"
      using extend_spec [OF _ assms(2) i(2)] assms(1) i(3) by auto
    have ok: "\<forall>r \<in> set (free[i := ?new]). region_ok r"
      using assms(1) new(1) set_update_subset_insert [of free i ?new] by blast
    show ?thesis
      using second_merge_spec(1) [OF ok, of i ?new] second_merge_spec(2) [OF ok, of i ?new x] i(1) Some cov_update [OF i(1), of ?new x] new(2)
      by (auto simp: free_regions_add_def Let_def)
  qed
  then show "\<forall>r \<in> set (free_regions_add addr len free). region_ok r"
    and "cov (free_regions_add addr len free) x = cov free x + covers x (addr, len)" by auto
qed

section \<open>Best fit\<close>

lemma best_fit_spec:
  assumes "\<And>k. best = Some k \<Longrightarrow> k < i \<and> len \<le> snd (all ! k) \<and> snd (all ! k) - len = ex"
    and "\<And>j. j < i \<Longrightarrow> len \<le> snd (all ! j) \<Longrightarrow> ex \<le> snd (all ! j) - len"
    and "all = pre @ free" and "i = length pre" and "\<forall>r \<in> set all. snd r < two64 - 1"
    and "best = None \<Longrightarrow> ex = two64 - 1"
  shows "case best_fit len free i best ex of
      None \<Rightarrow> \<forall>r \<in> set all. snd r < len
    | Some k \<Rightarrow> k < length all \<and> len \<le> snd (all ! k) \<and>
        (\<forall>r \<in> set all. len \<le> snd r \<longrightarrow> snd (all ! k) \<le> snd r)"
  using assms
proof (induction free arbitrary: i best ex pre)
  case Nil
  show ?case
  proof (cases best)
    case None
    have "snd r < len" if r: "r \<in> set all" for r
    proof (rule ccontr)
      assume "\<not> snd r < len"
      moreover have "r \<in> set pre" using r Nil.prems(3) by simp
      then obtain j where "j < i" "all ! j = r" using Nil.prems(3,4) by (metis append_Nil2 in_set_conv_nth)
      ultimately have "two64 - 1 \<le> snd r - len" using Nil.prems(2) [of j] Nil.prems(6) None by auto
      with Nil.prems(5) r show False by fastforce
    qed
    with None show ?thesis by simp
  next
    case (Some k)
    then have k: "k < i" "len \<le> snd (all ! k)" "snd (all ! k) - len = ex" using Nil.prems(1) by auto
    have "snd (all ! k) \<le> snd r" if r: "r \<in> set all" "len \<le> snd r" for r
    proof -
      have "r \<in> set pre" using r(1) Nil.prems(3) by simp
      then obtain j where "j < i" "all ! j = r" using Nil.prems(3,4) by (metis append_Nil2 in_set_conv_nth)
      then show ?thesis using Nil.prems(2) [of j] r(2) k by auto
    qed
    with Some k Nil.prems(3,4) show ?thesis by simp
  qed
next
  case (Cons r free)
  have at: "all ! i = r" using Cons.prems(3,4) by simp
  have all: "all = (pre @ [r]) @ free" "i + 1 = length (pre @ [r])" using Cons.prems(3,4) by simp_all
  note step = Cons.IH [OF _ _ all Cons.prems(5)]
  have lt: "snd r < two64 - 1" using Cons.prems(3,5) by simp
  consider (skip) "\<not> (len \<le> snd r \<and> snd r - len < ex)"
    | (perfect) "len \<le> snd r" "snd r - len < ex" "snd r = len"
    | (better) "len \<le> snd r" "snd r - len < ex" "snd r \<noteq> len" by blast
  then show ?case
  proof cases
    case skip
    then have "best_fit len (r # free) i best ex = best_fit len free (i + 1) best ex" by (simp add: Let_def)
    moreover have "ex \<le> snd (all ! j) - len" if "j < i + 1" "len \<le> snd (all ! j)" for j
      using that skip at Cons.prems(2) [of j] by (cases "j = i") auto
    ultimately show ?thesis using step [of best ex] Cons.prems(1,6) by fastforce
  next
    case perfect
    then have "best_fit len (r # free) i best ex = Some i" by simp
    then show ?thesis using perfect at Cons.prems(3,4) by simp
  next
    case better
    then have "best_fit len (r # free) i best ex = best_fit len free (i + 1) (Some i) (snd r - len)"
      by (simp add: Let_def)
    moreover have "snd r - len \<le> snd (all ! j) - len" if "j < i + 1" "len \<le> snd (all ! j)" for j
      using that better at Cons.prems(2) [of j] by (cases "j = i") auto
    ultimately show ?thesis using step [of "Some i" "snd r - len"] better at by fastforce
  qed
qed

lemma free_regions_take_spec:
  assumes "\<forall>r \<in> set free. region_ok r" and "0 < len" and "4096 dvd len"
  shows "case free_regions_take len free of
      None \<Rightarrow> \<forall>r \<in> set free. snd r < len
    | Some (a, free') \<Rightarrow> (\<forall>r \<in> set free'. region_ok r) \<and> region_ok (a, len) \<and>
        (\<forall>x. cov free' x + covers x (a, len) = cov free x) \<and>
        (\<exists>l. (a, l) \<in> set free \<and> len \<le> l \<and> (\<forall>r \<in> set free. len \<le> snd r \<longrightarrow> l \<le> snd r))"
proof -
  have small: "\<forall>r \<in> set free. snd r < two64 - 1"
    using assms(1) by (auto simp: region_ok_def MMAP_LIMIT_def)
  note bf = best_fit_spec [of None 0 len free "two64 - 1" "[]" free, OF _ _ _ _ small]
  show ?thesis
  proof (cases "best_fit len free 0 None (two64 - 1)")
    case None
    then show ?thesis using bf by (simp add: free_regions_take_def)
  next
    case (Some i)
    obtain a l where al: "free ! i = (a, l)" by force
    have i: "i < length free" "len \<le> l" "\<forall>r \<in> set free. len \<le> snd r \<longrightarrow> l \<le> snd r"
      using bf Some al by auto
    have mem: "(a, l) \<in> set free" using i(1) al by (metis nth_mem)
    then have ok: "region_ok (a, l)" using assms(1) by blast
    have new: "region_ok (a, len)" using ok i(2) assms(2,3) by (auto simp: region_ok_def)
    show ?thesis
    proof (cases "l = len")
      case True
      then show ?thesis
        using Some al i mem new assms(1) set_swap_remove [of i free] cov_swap_remove [OF i(1)]
        by (auto simp: free_regions_take_def)
    next
      case False
      let ?r = "(a + len, l - len)"
      have w: "wadd64 a len = a + len"
        using new by (intro wadd64_small) (auto simp: region_ok_def dest: limit_small)
      have "region_ok ?r" using ok new False i(2) by (auto simp: region_ok_def)
      then have "\<forall>r \<in> set (free[i := ?r]). region_ok r"
        using assms(1) set_update_subset_insert [of free i ?r] by blast
      moreover have "cov (free[i := ?r]) x + covers x (a, len) = cov free x" for x
        using cov_update [OF i(1), of ?r x] al i(2) by (auto simp: covers_def split: if_splits)
      ultimately show ?thesis
        using Some al i mem new False w by (auto simp: free_regions_take_def)
    qed
  qed
qed

lemma overlap_pieces_spec:
  assumes "region_ok r" and "4096 dvd addr" and "4096 dvd len"
  defines "keep \<equiv> fst r + snd r \<le> addr \<or> addr + len \<le> fst r"
  shows "\<forall>s \<in> set (overlap_pieces addr (addr + len) r). region_ok s"
    and "of_bool keep * covers x r + cov (overlap_pieces addr (addr + len) r) x =
      (if addr \<le> x \<and> x < addr + len then 0 else covers x r)"
  using assms by (auto simp: overlap_pieces_def Let_def region_end region_ok_def covers_def cov_def)

lemma free_regions_drop_range_spec:
  assumes "\<forall>r \<in> set free. region_ok r" and "4096 dvd addr" and "4096 dvd len" and "addr + len \<le> MMAP_LIMIT"
  shows "\<forall>r \<in> set (free_regions_drop_range addr len free). region_ok r"
    and "cov (free_regions_drop_range addr len free) x = (if addr \<le> x \<and> x < addr + len then 0 else cov free x)"
proof -
  have w: "wadd64 addr len = addr + len"
    using assms(4) by (intro wadd64_small) (auto dest: limit_small)
  have eq: "filter (\<lambda>r. wadd64 (fst r) (snd r) \<le> addr \<or> addr + len \<le> fst r) free =
      filter (\<lambda>r. fst r + snd r \<le> addr \<or> addr + len \<le> fst r) free"
    using assms(1) by (intro filter_cong) (auto simp: region_end)
  show "\<forall>r \<in> set (free_regions_drop_range addr len free). region_ok r"
    using assms overlap_pieces_spec(1) by (auto simp: free_regions_drop_range_def Let_def w)
  have "cov (filter (\<lambda>r. fst r + snd r \<le> addr \<or> addr + len \<le> fst r) free) x +
      cov (concat (map (overlap_pieces addr (addr + len)) free)) x =
      (if addr \<le> x \<and> x < addr + len then 0 else cov free x)"
    using assms(1)
  proof (induction free)
    case (Cons r free)
    then have "region_ok r" by simp
    from Cons.IH Cons.prems overlap_pieces_spec(2) [OF this assms(2,3), of x] show ?case
      by (auto split: if_splits)
  qed simp
  then show "cov (free_regions_drop_range addr len free) x = (if addr \<le> x \<and> x < addr + len then 0 else cov free x)"
    by (simp add: free_regions_drop_range_def Let_def w eq)
qed

section \<open>Runs with live addresses\<close>

definition mm_inv :: "mm \<times> nat set \<Rightarrow> bool" where
  "mm_inv s \<longleftrightarrow>
     (\<forall>r \<in> set (free_regions (fst s)). region_ok r) \<and>
     MMAP_BASE \<le> mmap_next (fst s) \<and> mmap_next (fst s) \<le> MMAP_LIMIT \<and> 4096 dvd mmap_next (fst s) \<and>
     (\<forall>x. cov (free_regions (fst s)) x + of_bool (x \<in> snd s) =
        of_bool (MMAP_BASE \<le> x \<and> x < mmap_next (fst s)))"

text \<open>
  The calls of a client that maps at least one byte, unmaps only memory it holds, and places a
  fixed mapping (page-aligned) only below the bump pointer.
\<close>

inductive mm_step :: "mm \<times> nat set \<Rightarrow> mm \<times> nat set \<Rightarrow> bool" where
  mm_map: "0 < len \<Longrightarrow> len + 4095 < two64 \<Longrightarrow> addr = 0 \<or> flags AND 0x10 = 0 \<Longrightarrow>
     sys_mmap addr len flags m = (r, z, m') \<Longrightarrow>
     live' = (if r < 0 then live else live \<union> {nat r..<nat r + page_round len}) \<Longrightarrow>
     mm_step (m, live) (m', live')"
| mm_fixed: "0 < len \<Longrightarrow> len + 4095 < two64 \<Longrightarrow> addr \<noteq> 0 \<Longrightarrow> flags AND 0x10 \<noteq> 0 \<Longrightarrow> 4096 dvd addr \<Longrightarrow>
     addr + page_round len \<le> MMAP_BASE \<or> (MMAP_BASE \<le> addr \<and> addr + page_round len \<le> mmap_next m) \<Longrightarrow>
     sys_mmap addr len flags m = (r, z, m') \<Longrightarrow>
     live' = live \<union> ({addr..<addr + page_round len} \<inter> {MMAP_BASE..}) \<Longrightarrow>
     mm_step (m, live) (m', live')"
| mm_unmap: "addr = align_down 4096 a \<Longrightarrow> n = align_down 4096 (len + (a - addr) + 4095) \<Longrightarrow>
     len + (a - addr) + 4095 < two64 \<Longrightarrow> {addr..<addr + n} \<subseteq> live \<Longrightarrow> 0 < len \<Longrightarrow>
     sys_munmap a len m = (r, m') \<Longrightarrow> live' = live - {addr..<addr + n} \<Longrightarrow>
     mm_step (m, live) (m', live')"
| mm_brk: "sys_brk addr m = (r, m') \<Longrightarrow> mm_step (m, live) (m', live)"

lemma page_round_spec:
  assumes "0 < len" and "len + 4095 < two64"
  shows "4096 dvd page_round len" and "len \<le> page_round len" and "0 < page_round len"
    and "page_round len < two64"
proof -
  have eq: "page_round len = align_up 4096 len"
    using assms(2) by (simp add: page_round_def align_up_def wadd64_small)
  show "4096 dvd page_round len" "len \<le> page_round len" by (simp_all add: eq align_up_ge)
  then show "0 < page_round len" using assms(1) by simp
  show "page_round len < two64" using assms(2) align_up_lt [of 4096 len] by (simp add: eq)
qed

lemma sys_mmap_cases:
  assumes "mm_inv (m, live)" and "0 < len" and "len + 4095 < two64" and "addr = 0 \<or> flags AND 0x10 = 0"
  obtains (reuse) a free' where
      "sys_mmap addr len flags m = (int a, zeroed_range a (page_round len), m\<lparr>free_regions := free'\<rparr>)"
      "\<forall>r \<in> set free'. region_ok r" "region_ok (a, page_round len)"
      "\<forall>x. cov free' x + covers x (a, page_round len) = cov (free_regions m) x"
      "\<exists>l. (a, l) \<in> set (free_regions m) \<and> page_round len \<le> l \<and>
        (\<forall>r \<in> set (free_regions m). page_round len \<le> snd r \<longrightarrow> l \<le> snd r)"
  | (bump) "sys_mmap addr len flags m =
        (int (mmap_next m), None, m\<lparr>mmap_next := mmap_next m + page_round len\<rparr>)"
      "mmap_next m + page_round len \<le> MMAP_LIMIT" "\<forall>r \<in> set (free_regions m). snd r < page_round len"
  | (enomem) "sys_mmap addr len flags m = (-12, None, m)"
      "MMAP_LIMIT < mmap_next m + page_round len" "\<forall>r \<in> set (free_regions m). snd r < page_round len"
proof -
  note pr = page_round_spec [OF assms(2,3)]
  have ok: "\<forall>r \<in> set (free_regions m). region_ok r" and next_le: "mmap_next m \<le> MMAP_LIMIT"
    using assms(1) by (auto simp: mm_inv_def)
  note take = free_regions_take_spec [OF ok pr(3,1)]
  have nf: "\<not> (addr \<noteq> 0 \<and> flags AND 0x10 \<noteq> 0)" using assms(4) by blast
  show ?thesis
  proof (cases "free_regions_take (page_round len) (free_regions m)")
    case None
    have sat: "MMAP_LIMIT < sat_add64 (mmap_next m) (page_round len) \<longleftrightarrow> MMAP_LIMIT < mmap_next m + page_round len"
      "mmap_next m + page_round len \<le> MMAP_LIMIT \<Longrightarrow>
        sat_add64 (mmap_next m) (page_round len) = mmap_next m + page_round len"
      by (auto simp: sat_add64_def MMAP_LIMIT_def)
    have "as_i64 (mmap_next m) = int (mmap_next m)"
      using next_le by (intro as_i64_small) (rule limit_small)
    then show ?thesis
      using None nf sat take bump enomem
      by (cases "MMAP_LIMIT < mmap_next m + page_round len") (auto simp: sys_mmap_def Let_def)
  next
    case (Some p)
    obtain a free' where p: "p = (a, free')" by force
    with Some take have r: "region_ok (a, page_round len)" by auto
    then have "as_i64 a = int a" by (intro as_i64_small limit_small) (auto simp: region_ok_def)
    then show ?thesis
      using Some p nf take reuse [of a free'] by (auto simp: sys_mmap_def Let_def)
  qed
qed

lemma covers_interval: "covers x (a, n) = of_bool (x \<in> {a..<a + n})"
  by (simp add: covers_def)

lemma mm_inv_map:
  assumes "mm_inv (m, live)" and "0 < len" and "len + 4095 < two64" and "addr = 0 \<or> flags AND 0x10 = 0"
    and "sys_mmap addr len flags m = (r, z, m')"
  shows "mm_inv (m', if r < 0 then live else live \<union> {nat r..<nat r + page_round len})"
    and "0 \<le> r \<Longrightarrow> {nat r..<nat r + page_round len} \<inter> live = {} \<and> 4096 dvd nat r \<and>
      MMAP_BASE \<le> nat r \<and> nat r + page_round len \<le> MMAP_LIMIT"
proof -
  note pr = page_round_spec [OF assms(2,3)]
  have eq: "cov (free_regions m) x + of_bool (x \<in> live) = of_bool (MMAP_BASE \<le> x \<and> x < mmap_next m)" for x
    using assms(1) by (simp add: mm_inv_def)
  have nxt: "MMAP_BASE \<le> mmap_next m" "4096 dvd mmap_next m" using assms(1) by (auto simp: mm_inv_def)
  have "mm_inv (m', if r < 0 then live else live \<union> {nat r..<nat r + page_round len}) \<and>
    (0 \<le> r \<longrightarrow> {nat r..<nat r + page_round len} \<inter> live = {} \<and> 4096 dvd nat r \<and>
      MMAP_BASE \<le> nat r \<and> nat r + page_round len \<le> MMAP_LIMIT)"
  proof (rule sys_mmap_cases [OF assms(1-4)])
    fix a free'
    assume m: "sys_mmap addr len flags m = (int a, zeroed_range a (page_round len), m\<lparr>free_regions := free'\<rparr>)"
      and ok: "\<forall>r \<in> set free'. region_ok r" "region_ok (a, page_round len)"
      and c: "\<forall>x. cov free' x + covers x (a, page_round len) = cov (free_regions m) x"
    have one: "cov free' x + of_bool (x \<in> {a..<a + page_round len}) + of_bool (x \<in> live) =
        of_bool (MMAP_BASE \<le> x \<and> x < mmap_next m)" for x
      using c [rule_format, of x] eq [of x] by (simp add: covers_interval)
    have "{a..<a + page_round len} \<inter> live = {}"
    proof (rule ccontr)
      assume "{a..<a + page_round len} \<inter> live \<noteq> {}"
      then obtain x where "x \<in> {a..<a + page_round len}" "x \<in> live" by blast
      with one [of x] show False by (cases "MMAP_BASE \<le> x \<and> x < mmap_next m") auto
    qed
    moreover have "cov free' x + of_bool (x \<in> live \<union> {a..<a + page_round len}) =
        of_bool (MMAP_BASE \<le> x \<and> x < mmap_next m)" for x
      using one [of x] by (auto simp: of_bool_def split: if_splits)
    moreover have "r = int a" "m' = m\<lparr>free_regions := free'\<rparr>" using m assms(5) by simp_all
    moreover have "mm_inv (m\<lparr>free_regions := free'\<rparr>, live \<union> {a..<a + page_round len})"
      using assms(1) ok(1) calculation(2) by (simp add: mm_inv_def)
    ultimately show ?thesis using ok(2) by (simp add: region_ok_def)
  next
    assume m: "sys_mmap addr len flags m =
        (int (mmap_next m), None, m\<lparr>mmap_next := mmap_next m + page_round len\<rparr>)"
      and le: "mmap_next m + page_round len \<le> MMAP_LIMIT"
    have "x < mmap_next m" if "x \<in> live" for x using eq [of x] that by (auto simp: of_bool_def split: if_splits)
    then have disj: "{mmap_next m..<mmap_next m + page_round len} \<inter> live = {}" by fastforce
    have "cov (free_regions m) x + of_bool (x \<in> live \<union> {mmap_next m..<mmap_next m + page_round len}) =
        of_bool (MMAP_BASE \<le> x \<and> x < mmap_next m + page_round len)" for x
      using eq [of x] nxt(1) by (auto simp: of_bool_def split: if_splits)
    then have "mm_inv (m\<lparr>mmap_next := mmap_next m + page_round len\<rparr>,
        live \<union> {mmap_next m..<mmap_next m + page_round len})"
      using assms(1) le nxt pr(1) by (simp add: mm_inv_def)
    moreover have "r = int (mmap_next m)" "m' = m\<lparr>mmap_next := mmap_next m + page_round len\<rparr>"
      using m assms(5) by simp_all
    ultimately show ?thesis using disj le nxt by simp
  next
    assume "sys_mmap addr len flags m = (-12, None, m)"
    then show ?thesis using assms(1,5) by auto
  qed
  then show "mm_inv (m', if r < 0 then live else live \<union> {nat r..<nat r + page_round len})"
    and "0 \<le> r \<Longrightarrow> {nat r..<nat r + page_round len} \<inter> live = {} \<and> 4096 dvd nat r \<and>
      MMAP_BASE \<le> nat r \<and> nat r + page_round len \<le> MMAP_LIMIT" by auto
qed

lemma mm_inv_fixed:
  assumes "mm_inv (m, live)" and "0 < len" and "len + 4095 < two64" and "addr \<noteq> 0"
    and "flags AND 0x10 \<noteq> 0" and "4096 dvd addr"
    and "addr + page_round len \<le> MMAP_BASE \<or> (MMAP_BASE \<le> addr \<and> addr + page_round len \<le> mmap_next m)"
    and "sys_mmap addr len flags m = (r, z, m')"
  shows "mm_inv (m', live \<union> ({addr..<addr + page_round len} \<inter> {MMAP_BASE..}))"
proof -
  note pr = page_round_spec [OF assms(2,3)]
  have ok: "\<forall>r \<in> set (free_regions m). region_ok r" and next_le: "mmap_next m \<le> MMAP_LIMIT"
    using assms(1) by (auto simp: mm_inv_def)
  have eq: "cov (free_regions m) x + of_bool (x \<in> live) = of_bool (MMAP_BASE \<le> x \<and> x < mmap_next m)" for x
    using assms(1) by (simp add: mm_inv_def)
  have le: "addr + page_round len \<le> MMAP_LIMIT"
    using assms(7) next_le by (auto simp: MMAP_BASE_def MMAP_LIMIT_def)
  then have "sat_add64 addr (page_round len) = addr + page_round len"
    by (intro sat_add64_small) (rule limit_small)
  then have m': "m' = m\<lparr>free_regions := free_regions_drop_range addr (page_round len) (free_regions m)\<rparr>"
    using assms(4,5,8) le by (auto simp: sys_mmap_def Let_def split: if_splits)
  note d = free_regions_drop_range_spec [OF ok assms(6) pr(1) le]
  have "cov (free_regions m') x + of_bool (x \<in> live \<union> ({addr..<addr + page_round len} \<inter> {MMAP_BASE..})) =
      of_bool (MMAP_BASE \<le> x \<and> x < mmap_next m)" for x
    using eq [of x] d(2) [of x] assms(7) by (auto simp: m' of_bool_def split: if_splits)
  with d(1) assms(1) show ?thesis by (simp add: mm_inv_def m')
qed

lemma mm_inv_unmap:
  assumes "mm_inv (m, live)" and "addr = align_down 4096 a" and "n = align_down 4096 (len + (a - addr) + 4095)"
    and "len + (a - addr) + 4095 < two64" and "{addr..<addr + n} \<subseteq> live" and "0 < len"
    and "sys_munmap a len m = (r, m')"
  shows "mm_inv (m', live - {addr..<addr + n})"
proof -
  have eq: "cov (free_regions m) x + of_bool (x \<in> live) = of_bool (MMAP_BASE \<le> x \<and> x < mmap_next m)" for x
    using assms(1) by (simp add: mm_inv_def)
  have inside: "MMAP_BASE \<le> x" "x < mmap_next m" if "x \<in> live" for x
    using eq [of x] that by (auto simp: of_bool_def split: if_splits)
  have "n = align_up 4096 (len + (a - addr))" by (simp add: assms(3) align_up_def)
  then have n: "0 < n" "4096 dvd n" using align_up_ge [of 4096 "len + (a - addr)"] assms(6) by auto
  have "addr \<in> live" "addr + n - 1 \<in> live" using assms(5) n(1) by (auto simp: subset_iff)
  then have base: "MMAP_BASE \<le> addr" and top: "addr + n - 1 < mmap_next m" using inside by blast+
  then have lim: "addr + n \<le> MMAP_LIMIT" using assms(1) n(1) by (auto simp: mm_inv_def)
  have ok: "region_ok (addr, n)" using n base lim by (simp add: region_ok_def assms(2))
  have "wadd64 (wadd64 len (a - addr)) 0xFFF = len + (a - addr) + 4095"
    using assms(4) by (simp add: wadd64_small)
  moreover have "wadd64 addr n = addr + n"
    using lim by (intro wadd64_small) (auto dest: limit_small)
  moreover have "a \<noteq> 0" using base assms(2) by (auto simp: MMAP_BASE_def align_down_def)
  ultimately have m': "m' = m\<lparr>free_regions := free_regions_add addr n (free_regions m)\<rparr>"
    using assms(2,3,6,7) base lim by (auto simp: sys_munmap_def Let_def)
  have oks: "\<forall>r \<in> set (free_regions m). region_ok r" using assms(1) by (simp add: mm_inv_def)
  note add = free_regions_add_spec [OF oks ok]
  have "cov (free_regions m') x + of_bool (x \<in> live - {addr..<addr + n}) =
      of_bool (MMAP_BASE \<le> x \<and> x < mmap_next m)" for x
    using eq [of x] add(2) [of x] assms(5) by (auto simp: m' covers_interval of_bool_def split: if_splits)
  with add(1) assms(1) show ?thesis by (simp add: mm_inv_def m')
qed

interpretation mm_sys: transition_system "\<lambda>s. s = (mm_init, {} :: nat set)" mm_step mm_inv
proof
  fix s :: "mm \<times> nat set" assume "s = (mm_init, {})"
  then show "mm_inv s" by (auto simp: mm_inv_def mm_init_def MMAP_BASE_def MMAP_LIMIT_def)
next
  fix s t assume "mm_inv s" and "mm_step s t"
  from this(2,1) show "mm_inv t"
  proof cases
    case mm_map
    then show ?thesis using \<open>mm_inv s\<close> mm_inv_map(1) by simp
  next
    case mm_fixed
    then show ?thesis using \<open>mm_inv s\<close> mm_inv_fixed by simp
  next
    case mm_unmap
    then show ?thesis using \<open>mm_inv s\<close> mm_inv_unmap by simp
  next
    case (mm_brk addr m r m' live)
    then have "free_regions m' = free_regions m" "mmap_next m' = mmap_next m"
      by (auto simp: sys_brk_def split: if_splits)
    with mm_brk show ?thesis using \<open>mm_inv s\<close> by (simp add: mm_inv_def)
  qed
qed

section \<open>What the allocator promises\<close>

abbreviation mm_reachable :: "mm \<times> nat set \<Rightarrow> bool" where
  "mm_reachable s \<equiv> mm_step\<^sup>*\<^sup>* (mm_init, {}) s"


text \<open>A client that maps one page and gives it back.\<close>

definition one_page :: "mm \<times> nat set" where
  "one_page = (mm_init\<lparr>mmap_next := MMAP_BASE + 4096\<rparr>, {MMAP_BASE..<MMAP_BASE + 4096})"

definition one_free :: "mm \<times> nat set" where
  "one_free = (mm_init\<lparr>mmap_next := MMAP_BASE + 4096, free_regions := [(MMAP_BASE, 4096)]\<rparr>, {})"

lemma one_page_reachable: "mm_reachable one_page"
proof -
  have pr: "page_round 1 = 4096" by (simp add: page_round_def wadd64_small align_down_def)
  have "sys_mmap 0 1 0 mm_init = (int MMAP_BASE, None, mm_init\<lparr>mmap_next := MMAP_BASE + 4096\<rparr>)"
    by (simp add: sys_mmap_def pr mm_init_def free_regions_take_def sat_add64_def MMAP_BASE_def
        MMAP_LIMIT_def as_i64_small)
  then have "mm_step (mm_init, {}) one_page"
    unfolding one_page_def by (rule mm_map [rotated 3]) (simp_all add: pr)
  then show ?thesis by blast
qed

lemma one_free_reachable: "mm_reachable one_free"
proof -
  have "sys_munmap MMAP_BASE 1 (fst one_page) = (0, fst one_free)"
    by (simp add: sys_munmap_def one_page_def one_free_def mm_init_def free_regions_add_def MMAP_BASE_def
        MMAP_LIMIT_def align_down_def wadd64_small)
  then have "mm_step (fst one_page, snd one_page) (fst one_free, snd one_free)"
    by (rule mm_unmap [OF refl refl _ _ _, rotated 3])
      (simp_all add: one_page_def one_free_def MMAP_BASE_def align_down_def)
  then show ?thesis using one_page_reachable by simp
qed







text \<open>(mapping nothing): a call of length 0 is not refused; it returns the start of a free region that
  stays free, so that the next call of one page returns the same address.\<close>

theorem mmap_zero_length_aliases:
  "let (a, z0, m) = sys_mmap 0 0 0 (fst one_free);
       (b, z1, m') = sys_mmap 0 4096 0 m
   in 0 < a \<and> b = a"
proof -
  have pr: "page_round 4096 = 4096" "page_round 0 = 0"
    by (simp_all add: page_round_def wadd64_small align_down_def)
  have "sys_mmap 0 0 0 (fst one_free) = (int MMAP_BASE, Some (MMAP_BASE, 0), fst one_free)"
    by (simp add: sys_mmap_def pr free_regions_take_def one_free_def zeroed_range_def MMAP_BASE_def
        as_i64_small wadd64_small)
  moreover have "fst (sys_mmap 0 4096 0 (fst one_free)) = int MMAP_BASE"
    by (simp add: sys_mmap_def pr free_regions_take_def one_free_def MMAP_BASE_def as_i64_small)
  moreover have "0 < int MMAP_BASE" by (simp add: MMAP_BASE_def)
  ultimately show ?thesis by (cases "sys_mmap 0 4096 0 (fst one_free)") simp
qed

end
