(* ===== verification/Sched.thy ===== *)
theory Sched
  imports Prelude
begin

text \<open>
  The SMP scheduler \<open>src/src/sched.rs\<close>: per-CPU run queues, futexes with the lock handed over
  across the context switch, the rescue of stalled waiters, thread creation and exit, the idle
  loops of the CPUs.

  The record \<open>sched\<close> is the state: the statics of \<open>sched.rs\<close> (with the per-CPU data that
  \<open>syscall.rs\<close> keeps for it) and the machine they run on - which context each CPU executes, the
  kernel call stack of every context, the registers of the CPUs, pending interrupts, user memory and
  the clock. A function is split where another CPU can interfere: at lock acquisitions, at accesses
  to shared data that no lock protects and at the context switch. Each part is one \<open>frame\<close>, the
  program point at its start, and \<open>cpu_step\<close> runs the top frame of the context that a CPU
  executes. It gives \<open>None\<close> while the CPU spins on a lock or is halted. A section that runs under a
  run-queue lock is one step. CPUs are numbered by their APIC id, which is how \<open>current_cpu\<close>
  numbers them.
\<close>

section \<open>Data\<close>

definition MAX_THREADS :: nat where
  "MAX_THREADS = 32"

definition MAX_CPUS :: nat where
  "MAX_CPUS = 16"

definition FUTEX_BUCKETS :: nat where
  "FUTEX_BUCKETS = 16"

definition PENDING_WAKES_PER_BUCKET :: nat where
  "PENDING_WAKES_PER_BUCKET = 8"

definition BLOCKING_ARM_FALLBACK_NS :: nat where
  "BLOCKING_ARM_FALLBACK_NS = 120000000000"

definition BLOCKED_RESCUE_NS :: nat where
  "BLOCKED_RESCUE_NS = 5000000000"

definition KSTACK_USABLE :: nat where
  "KSTACK_USABLE = 16384"

definition PREEMPT_REGION_SIZE :: nat where
  "PREEMPT_REGION_SIZE = 256"

datatype tstate = Ready | Running | Blocked | Dead

record thread_ctx =
  rsp :: nat
  rbx :: nat
  rbp :: nat
  r12 :: nat
  r13 :: nat
  r14 :: nat
  r15 :: nat
  fs_base :: nat
  fxsave_area :: bytes

record thread =
  t_tid :: nat
  t_state :: tstate
  t_ctx :: thread_ctx
  kernel_stack_top :: nat
  user_stack :: nat
  fn_ptr :: nat
  tls :: nat
  child_tid_ptr :: nat
  futex_addr :: nat
  futex_val :: u32
  in_idle_ctx :: bool
  clone_r9 :: nat
  clone_rip :: nat
  home_cpu :: nat
  wait_deadline_ns :: nat
  wait_timed_out :: bool
  blocked_since_ns :: nat

record cpu_queue =
  cq_current :: "nat option"
  cq_queue :: "nat list"
  cq_idle :: bool

record percpu_syscall =
  ps_kernel_stack :: nat
  ps_saved_r9 :: nat
  ps_saved_clone_rip :: nat

text \<open>
  A context is a thread, the idle loop of a CPU (\<open>cpu_idle_loop\<close>) or the loop at the end of
  \<open>ap_main\<close> in which an application processor waits for its first thread.
\<close>

datatype context_id = Thr nat | Idle nat | Ap nat

record clone_args =
  ca_fn_ptr :: nat
  ca_stack :: nat
  ca_tls :: nat
  ca_child_tid :: nat
  ca_parent_tid :: nat
  ca_flags :: u64

text \<open>Program points. The arguments are the local variables that are live there.\<close>

datatype rescue_pc =
    R_scan nat
  | R_lock nat nat
  | R_tlock nat nat
  | R_push nat nat
  | R_ipi nat nat nat

datatype yield_pc =
    Y_entry
  | Y_lock
  | Y_jump nat
  | Y_switch nat nat nat
  | Y_resumed

datatype wait_pc =
    W_entry nat u32 "nat option"
  | W_lock nat u32 "nat option"
  | W_check nat u32 "nat option"
  | W_valve nat u32 "nat option"
  | W_mark nat u32 "nat option"
  | W_pick nat nat
  | W_handoff nat nat "(nat \<times> nat) option"
  | W_switch nat "(nat \<times> nat) option"
  | W_resumed nat
  | W_finish nat
  | W_return

datatype wake_pc =
    K_lock nat nat
  | K_tlock nat nat
  | K_scan nat nat nat nat
  | K_push nat nat nat nat nat nat
  | K_ipi nat nat nat nat nat
  | K_end nat nat nat

datatype spawn_pc =
    S_entry clone_args
  | S_insert clone_args nat nat nat nat
  | S_scan clone_args nat nat nat nat bool
  | S_home clone_args nat nat
  | S_push nat nat
  | S_ipi nat nat
  | S_child
  | S_child_go

datatype exit_pc =
    X_take
  | X_mark "nat option"
  | X_switch "nat option"
  | X_stopped

datatype idle_pc =
    I_top
  | I_disable
  | I_check
  | I_hlt
  | I_pop
  | I_set nat
  | I_switch nat
  | I_back
  | I_clear
  | A_loop
  | A_hlt

datatype frame =
    User
  | Rescue rescue_pc
  | Yield yield_pc
  | Wait wait_pc
  | Wake wake_pc
  | Spawn spawn_pc
  | Exit exit_pc
  | Check_resched
  | Resched
  | Loop idle_pc

record sched =
  threads :: "nat \<Rightarrow> thread option"
  next_tid :: nat
  cpu_queues :: "nat \<Rightarrow> cpu_queue"
  idle_ctx :: "nat \<Rightarrow> thread_ctx"
  thread_lock :: bool
  futex_locks :: "nat \<Rightarrow> bool"
  pending_wakes :: "nat \<Rightarrow> nat list"
  pending_unlock :: "nat \<Rightarrow> nat option"
  num_cpus :: nat
  futex_blocking :: bool
  first_spinyield_ns :: nat
  need_resched :: "nat \<Rightarrow> bool"
  rescue_requested :: "nat \<Rightarrow> bool"
  kstack_next :: nat
  percpu :: "nat \<Rightarrow> percpu_syscall"
  exec :: "nat \<Rightarrow> context_id"
  frames :: "context_id \<Rightarrow> frame list"
  regs :: "nat \<Rightarrow> thread_ctx"
  irq :: "nat \<Rightarrow> bool"
  user_mem :: "nat \<Rightarrow> u32"
  clock_ns :: nat
  result :: "nat \<Rightarrow> i64"
  fxsave_template :: bytes
  child_entry :: "nat \<Rightarrow> (nat \<times> nat) option"

section \<open>Accessors\<close>

definition upd_thread :: "nat \<Rightarrow> (thread \<Rightarrow> thread) \<Rightarrow> sched \<Rightarrow> sched" where
  "upd_thread t f s =
     s\<lparr>threads := (threads s)(t := map_option f (threads s t))\<rparr>"

definition upd_queue :: "nat \<Rightarrow> (cpu_queue \<Rightarrow> cpu_queue) \<Rightarrow> sched \<Rightarrow> sched" where
  "upd_queue c f s = s\<lparr>cpu_queues := (cpu_queues s)(c := f (cpu_queues s c))\<rparr>"

definition push_tid :: "nat \<Rightarrow> nat \<Rightarrow> sched \<Rightarrow> sched" where
  "push_tid c t = upd_queue c (\<lambda>q. q\<lparr>cq_queue := cq_queue q @ [t]\<rparr>)"

text \<open>Continue the context that CPU \<open>c\<close> executes with the given stack.\<close>

definition cont :: "nat \<Rightarrow> frame list \<Rightarrow> sched \<Rightarrow> sched" where
  "cont c fs s = s\<lparr>frames := (frames s)(exec s c := fs)\<rparr>"

text \<open>Return from a system call of the executing thread with a value.\<close>

definition return_val :: "nat \<Rightarrow> i64 \<Rightarrow> frame list \<Rightarrow> sched \<Rightarrow> sched" where
  "return_val c v fs s =
     (case exec s c of
        Thr t \<Rightarrow> cont c fs (s\<lparr>result := (result s)(t := v)\<rparr>)
      | _ \<Rightarrow> cont c fs s)"

definition topf :: "sched \<Rightarrow> nat \<Rightarrow> frame" where
  "topf s c = hd (frames s (exec s c))"

definition kstack_of :: "sched \<Rightarrow> nat \<Rightarrow> nat" where
  "kstack_of s t = (case threads s t of Some th \<Rightarrow> kernel_stack_top th | None \<Rightarrow> 0)"

definition set_current_kernel_stack :: "nat \<Rightarrow> nat \<Rightarrow> sched \<Rightarrow> sched" where
  "set_current_kernel_stack c k s =
     s\<lparr>percpu := (percpu s)(c := (percpu s c)\<lparr>ps_kernel_stack := k\<rparr>)\<rparr>"

definition get_clone_regs :: "nat \<Rightarrow> sched \<Rightarrow> nat \<times> nat" where
  "get_clone_regs c s = (ps_saved_r9 (percpu s c), ps_saved_clone_rip (percpu s c))"

definition current_idx :: "nat \<Rightarrow> sched \<Rightarrow> nat" where
  "current_idx c s = (case cq_current (cpu_queues s c) of Some t \<Rightarrow> t | None \<Rightarrow> 0)"

definition has_child :: "sched \<Rightarrow> bool" where
  "has_child s \<longleftrightarrow> 1 < next_tid s"

definition num_threads :: "sched \<Rightarrow> nat" where
  "num_threads s = next_tid s"

text \<open>
  An interrupt on a CPU that is halted, or has disabled interrupts on its way to \<open>hlt\<close>, stays
  pending and ends the halt. The handler of an IPI itself does nothing, so an interrupt anywhere
  else has no effect.
\<close>

definition awaits_irq :: "frame \<Rightarrow> bool" where
  "awaits_irq f \<longleftrightarrow> f = Loop I_check \<or> f = Loop I_hlt \<or> f = Loop A_hlt"

definition send_ipi :: "nat \<Rightarrow> sched \<Rightarrow> sched" where
  "send_ipi c s = (if awaits_irq (topf s c) then s\<lparr>irq := (irq s)(c := True)\<rparr> else s)"

section \<open>Context switch\<close>

text \<open>
  \<open>context_switch\<close>: the registers of the CPU go to the context it leaves, the saved registers of
  the other context into the CPU. The stack of the context that is left continues with \<open>fs\<close>.
\<close>

definition saved_ctx :: "context_id \<Rightarrow> sched \<Rightarrow> thread_ctx option" where
  "saved_ctx x s =
     (case x of
        Thr t \<Rightarrow> map_option t_ctx (threads s t)
      | Idle c \<Rightarrow> Some (idle_ctx s c)
      | Ap c \<Rightarrow> None)"

definition save_ctx :: "context_id \<Rightarrow> thread_ctx \<Rightarrow> sched \<Rightarrow> sched" where
  "save_ctx x r s =
     (case x of
        Thr t \<Rightarrow> upd_thread t (\<lambda>th. th\<lparr>t_ctx := r\<rparr>) s
      | Idle c \<Rightarrow> s\<lparr>idle_ctx := (idle_ctx s)(c := r)\<rparr>
      | Ap c \<Rightarrow> s)"

definition load_ctx :: "nat \<Rightarrow> context_id \<Rightarrow> sched \<Rightarrow> sched" where
  "load_ctx c y s =
     (case saved_ctx y s of
        Some r \<Rightarrow> s\<lparr>regs := (regs s)(c := r), exec := (exec s)(c := y)\<rparr>
      | None \<Rightarrow> s)"

definition context_switch :: "nat \<Rightarrow> context_id \<Rightarrow> context_id \<Rightarrow> frame list \<Rightarrow> sched \<Rightarrow> sched" where
  "context_switch c x y fs s = load_ctx c y (save_ctx x (regs s c) (cont c fs s))"

section \<open>Futex buckets and pending wakes\<close>

definition futex_bucket :: "nat \<Rightarrow> nat" where
  "futex_bucket addr = (addr div 4) mod FUTEX_BUCKETS"

definition pending_wake_insert :: "nat \<Rightarrow> nat list \<Rightarrow> nat list" where
  "pending_wake_insert addr ws =
     (if addr \<in> set ws then ws
      else (case position (\<lambda>a. a = 0) ws of Some i \<Rightarrow> ws[i := addr] | None \<Rightarrow> ws))"

definition pending_wake_consume :: "nat \<Rightarrow> nat list \<Rightarrow> bool \<times> nat list" where
  "pending_wake_consume addr ws =
     (case position (\<lambda>a. a = addr) ws of Some i \<Rightarrow> (True, ws[i := 0]) | None \<Rightarrow> (False, ws))"

definition unlock_bucket :: "nat \<Rightarrow> sched \<Rightarrow> sched" where
  "unlock_bucket b s = s\<lparr>futex_locks := (futex_locks s)(b := False)\<rparr>"

definition lock_bucket :: "nat \<Rightarrow> sched \<Rightarrow> sched" where
  "lock_bucket b s = s\<lparr>futex_locks := (futex_locks s)(b := True)\<rparr>"

definition release_pending_unlock :: "nat \<Rightarrow> sched \<Rightarrow> sched" where
  "release_pending_unlock c s =
     (case pending_unlock s c of
        None \<Rightarrow> s
      | Some b \<Rightarrow> unlock_bucket b (s\<lparr>pending_unlock := (pending_unlock s)(c := None)\<rparr>))"

definition enable_blocking_futex :: "sched \<Rightarrow> sched" where
  "enable_blocking_futex s = s\<lparr>futex_blocking := True\<rparr>"

section \<open>Rescue of stalled waiters\<close>

text \<open>\<open>watchdog_wake\<close> runs in the timer interrupt and only raises flags.\<close>

definition stalled :: "sched \<Rightarrow> nat \<Rightarrow> bool" where
  "stalled s i =
     (case threads s i of
        None \<Rightarrow> False
      | Some th \<Rightarrow>
          t_state th = Blocked \<and> futex_addr th \<noteq> 0 \<and>
          (user_mem s (futex_addr th) \<noteq> futex_val th \<or>
           (wait_deadline_ns th \<noteq> 0 \<and> wait_deadline_ns th \<le> clock_ns s) \<or>
           (wait_deadline_ns th = 0 \<and> blocked_since_ns th \<noteq> 0 \<and>
            wadd64 (blocked_since_ns th) BLOCKED_RESCUE_NS \<le> clock_ns s)))"

definition watchdog_wake :: "sched \<Rightarrow> sched" where
  "watchdog_wake s =
     (let t0 = first_spinyield_ns s;
          s = (if \<not> futex_blocking s \<and> t0 \<noteq> 0 \<and> wadd64 t0 BLOCKING_ARM_FALLBACK_NS \<le> clock_ns s
               then s\<lparr>futex_blocking := True\<rparr> else s)
      in s\<lparr>rescue_requested :=
             (\<lambda>i. rescue_requested s i \<or> (i < MAX_THREADS \<and> stalled s i))\<rparr>)"

text \<open>
  \<open>process_rescues\<close>: \<open>R_scan i\<close> is the loop head; \<open>R_lock\<close> takes the lock of the bucket
  of the address that was read without a lock, \<open>R_tlock\<close> the thread lock, after which the state is
  checked again; \<open>R_push\<close> queues the thread and \<open>R_ipi\<close> notifies its CPU.
\<close>

definition rescue_thread :: "nat \<Rightarrow> thread \<Rightarrow> thread" where
  "rescue_thread now th =
     th\<lparr>t_state := Ready, futex_addr := 0, blocked_since_ns := 0,
        wait_timed_out := wait_timed_out th \<or> (wait_deadline_ns th \<noteq> 0 \<and> wait_deadline_ns th \<le> now),
        wait_deadline_ns := 0\<rparr>"

definition unlock_rescue :: "nat \<Rightarrow> sched \<Rightarrow> sched" where
  "unlock_rescue addr s = unlock_bucket (futex_bucket addr) (s\<lparr>thread_lock := False\<rparr>)"

fun step_rescue :: "rescue_pc \<Rightarrow> frame list \<Rightarrow> nat \<Rightarrow> sched \<Rightarrow> sched option" where
  "step_rescue (R_scan i) fs c s =
     (if MAX_THREADS \<le> i then Some (cont c fs s)
      else if \<not> rescue_requested s i then Some (cont c (Rescue (R_scan (i + 1)) # fs) s)
      else
        let s = s\<lparr>rescue_requested := (rescue_requested s)(i := False)\<rparr>
        in case threads s i of
             None \<Rightarrow> Some (cont c (Rescue (R_scan (i + 1)) # fs) s)
           | Some th \<Rightarrow>
               if t_state th \<noteq> Blocked \<or> futex_addr th = 0
               then Some (cont c (Rescue (R_scan (i + 1)) # fs) s)
               else Some (cont c (Rescue (R_lock i (futex_addr th)) # fs) s))"
| "step_rescue (R_lock i addr) fs c s =
     (if futex_locks s (futex_bucket addr) then None
      else Some (cont c (Rescue (R_tlock i addr) # fs) (lock_bucket (futex_bucket addr) s)))"
| "step_rescue (R_tlock i addr) fs c s =
     (if thread_lock s then None
      else
        let skip = cont c (Rescue (R_scan (i + 1)) # fs) (unlock_rescue addr s)
        in case threads s i of
             None \<Rightarrow> Some skip
           | Some th \<Rightarrow>
               if t_state th \<noteq> Blocked then Some skip
               else Some (cont c (Rescue (R_push i addr) # fs)
                      (upd_thread i (rescue_thread (clock_ns s)) (s\<lparr>thread_lock := True\<rparr>))))"
| "step_rescue (R_push i addr) fs c s =
     (case threads s i of
        None \<Rightarrow> Some (cont c (Rescue (R_scan (i + 1)) # fs) (unlock_rescue addr s))
      | Some th \<Rightarrow>
          let target = home_cpu th; tid = t_tid th
          in Some (cont c (Rescue (R_ipi i addr target) # fs)
               (if target < MAX_CPUS \<and> tid \<notin> set (cq_queue (cpu_queues s target))
                then push_tid target tid s else s)))"
| "step_rescue (R_ipi i addr target) fs c s =
     Some (cont c (Rescue (R_scan (i + 1)) # fs)
       (unlock_rescue addr (if target \<noteq> c then send_ipi target s else s)))"

section \<open>Yield\<close>

text \<open>
  \<open>yield_current\<close>: \<open>Y_lock\<close> is the section under the run-queue lock, \<open>Y_switch\<close> the context
  switch after it and \<open>Y_resumed\<close> what the thread does when it runs again. \<open>Y_jump\<close> is the
  one-way switch of a CPU that has no current thread.
\<close>

fun step_yield :: "yield_pc \<Rightarrow> frame list \<Rightarrow> nat \<Rightarrow> sched \<Rightarrow> sched option" where
  "step_yield Y_entry fs c s = Some (cont c (Rescue (R_scan 0) # Yield Y_lock # fs) s)"
| "step_yield Y_lock fs c s =
     (let q = cpu_queues s c
      in case cq_current q of
           None \<Rightarrow>
             (case cq_queue q of
                [] \<Rightarrow> Some (cont c fs s)
              | m # ts \<Rightarrow>
                  let s = upd_queue c (\<lambda>_. q\<lparr>cq_current := Some m, cq_queue := ts, cq_idle := False\<rparr>) s
                  in case threads s m of
                       None \<Rightarrow> Some (cont c fs s)
                     | Some th \<Rightarrow>
                         Some (cont c (Yield (Y_jump m) # fs)
                           (set_current_kernel_stack c (kernel_stack_top th) s)))
         | Some cur \<Rightarrow>
             (case cq_queue q of
                [] \<Rightarrow> Some (cont c fs s)
              | m # ts \<Rightarrow>
                  Some (cont c (Yield (Y_switch cur m (kstack_of s m)) # fs)
                    (upd_queue c (\<lambda>_. q\<lparr>cq_current := Some m, cq_queue := ts @ [cur]\<rparr>) s))))"
| "step_yield (Y_jump m) fs c s = Some (load_ctx c (Thr m) (cont c fs s))"
| "step_yield (Y_switch cur m kstack) fs c s =
     (let s = set_current_kernel_stack c kstack s
      in if threads s cur = None \<or> threads s m = None then Some (cont c fs s)
         else Some (context_switch c (Thr cur) (Thr m) (Yield Y_resumed # fs) s))"
| "step_yield Y_resumed fs c s = Some (cont c fs (release_pending_unlock c s))"

section \<open>Futex wait\<close>

text \<open>
  \<open>futex_wait_until\<close>: \<open>W_lock\<close> takes the bucket lock; \<open>W_check\<close> consumes a pending wake or
  compares the value; \<open>W_valve\<close> is the spin-yield mode; \<open>W_mark\<close> marks the thread blocked;
  \<open>W_pick\<close> chooses the next thread; \<open>W_handoff\<close> leaves the bucket lock to the context that
  \<open>W_switch\<close> switches to; \<open>W_resumed\<close> and \<open>W_finish\<close> run after the wake-up.
\<close>

definition block_thread :: "nat \<Rightarrow> u32 \<Rightarrow> nat option \<Rightarrow> nat \<Rightarrow> thread \<Rightarrow> thread" where
  "block_thread addr v deadline now th =
     th\<lparr>t_state := Blocked, futex_addr := addr, futex_val := v,
        wait_deadline_ns := (case deadline of Some d \<Rightarrow> d | None \<Rightarrow> 0),
        wait_timed_out := False, blocked_since_ns := now\<rparr>"

fun step_wait :: "wait_pc \<Rightarrow> frame list \<Rightarrow> nat \<Rightarrow> sched \<Rightarrow> sched option" where
  "step_wait (W_entry addr v deadline) fs c s =
     (if next_tid s \<le> 1 then Some (cont c (Yield Y_entry # Wait W_return # fs) s)
      else Some (cont c (Wait (W_lock addr v deadline) # fs) s))"
| "step_wait (W_lock addr v deadline) fs c s =
     (if futex_locks s (futex_bucket addr) then None
      else Some (cont c (Wait (W_check addr v deadline) # fs) (lock_bucket (futex_bucket addr) s)))"
| "step_wait (W_check addr v deadline) fs c s =
     (let b = futex_bucket addr;
          (found, ws) = pending_wake_consume addr (pending_wakes s b)
      in if found then
           Some (return_val c 0 fs (unlock_bucket b (s\<lparr>pending_wakes := (pending_wakes s)(b := ws)\<rparr>)))
         else if user_mem s addr \<noteq> v then Some (return_val c (- 11) fs (unlock_bucket b s))
         else Some (cont c (Wait (W_valve addr v deadline) # fs) s))"
| "step_wait (W_valve addr v deadline) fs c s =
     (if futex_blocking s then Some (cont c (Wait (W_mark addr v deadline) # fs) s)
      else Some (cont c (Yield Y_entry # Wait W_return # fs)
             (unlock_bucket (futex_bucket addr)
               (if first_spinyield_ns s = 0 then s\<lparr>first_spinyield_ns := clock_ns s\<rparr> else s))))"
| "step_wait (W_mark addr v deadline) fs c s =
     (case cq_current (cpu_queues s c) of
        None \<Rightarrow> Some (return_val c 0 fs (unlock_bucket (futex_bucket addr) s))
      | Some cur \<Rightarrow>
          Some (cont c (Wait (W_pick (futex_bucket addr) cur) # fs)
            (upd_thread cur (block_thread addr v deadline (clock_ns s)) s)))"
| "step_wait (W_pick b blocked) fs c s =
     (let q = cpu_queues s c
      in case cq_queue q of
           m # ts \<Rightarrow>
             Some (cont c (Wait (W_handoff b blocked (Some (m, kstack_of s m))) # fs)
               (upd_queue c (\<lambda>_. q\<lparr>cq_current := Some m, cq_queue := ts\<rparr>) s))
         | [] \<Rightarrow>
             Some (cont c (Wait (W_handoff b blocked None) # fs)
               (upd_queue c (\<lambda>_. q\<lparr>cq_current := None, cq_idle := True\<rparr>) s)))"
| "step_wait (W_handoff b blocked switch) fs c s =
     Some (cont c (Wait (W_switch blocked switch) # fs)
       (s\<lparr>pending_unlock := (pending_unlock s)(c := Some b)\<rparr>))"
| "step_wait (W_switch blocked (Some (m, kstack))) fs c s =
     (let s = set_current_kernel_stack c kstack s
      in if threads s blocked = None \<or> threads s m = None
         then Some (cont c (Wait (W_resumed blocked) # fs) s)
         else Some (context_switch c (Thr blocked) (Thr m) (Wait (W_resumed blocked) # fs) s))"
| "step_wait (W_switch blocked None) fs c s =
     (if threads s blocked = None then Some (cont c (Wait (W_resumed blocked) # fs) s)
      else Some (context_switch c (Thr blocked) (Idle c) (Wait (W_resumed blocked) # fs) s))"
| "step_wait (W_resumed blocked) fs c s =
     Some (cont c (Wait (W_finish blocked) # fs) (release_pending_unlock c s))"
| "step_wait (W_finish blocked) fs c s =
     (case threads s blocked of
        None \<Rightarrow> Some (return_val c 0 fs s)
      | Some th \<Rightarrow>
          Some (return_val c (if wait_timed_out th then - 110 else 0) fs
            (upd_thread blocked (\<lambda>th. th\<lparr>wait_timed_out := False, wait_deadline_ns := 0\<rparr>) s)))"
| "step_wait W_return fs c s = Some (return_val c 0 fs s)"

section \<open>Futex wake\<close>

text \<open>
  \<open>futex_wake\<close> holds the bucket lock and the thread lock from \<open>K_scan\<close> to \<open>K_end\<close>; each
  waiter it finds is queued on its home CPU, which is notified.
\<close>

definition wake_thread :: "thread \<Rightarrow> thread" where
  "wake_thread th = th\<lparr>t_state := Ready, futex_addr := 0, blocked_since_ns := 0, in_idle_ctx := False\<rparr>"

fun step_wake :: "wake_pc \<Rightarrow> frame list \<Rightarrow> nat \<Rightarrow> sched \<Rightarrow> sched option" where
  "step_wake (K_lock addr n) fs c s =
     (if futex_locks s (futex_bucket addr) then None
      else Some (cont c (Wake (K_tlock addr n) # fs) (lock_bucket (futex_bucket addr) s)))"
| "step_wake (K_tlock addr n) fs c s =
     (if thread_lock s then None
      else Some (cont c (Wake (K_scan addr n 0 0) # fs) (s\<lparr>thread_lock := True\<rparr>)))"
| "step_wake (K_scan addr n i woken) fs c s =
     (if MAX_THREADS \<le> i \<or> n \<le> woken then Some (cont c (Wake (K_end addr n woken) # fs) s)
      else case threads s i of
             None \<Rightarrow> Some (cont c (Wake (K_scan addr n (i + 1) woken) # fs) s)
           | Some th \<Rightarrow>
               if t_state th = Blocked \<and> futex_addr th = addr
               then Some (cont c (Wake (K_push addr n i (woken + 1) (home_cpu th) (t_tid th)) # fs)
                      (upd_thread i wake_thread s))
               else Some (cont c (Wake (K_scan addr n (i + 1) woken) # fs) s))"
| "step_wake (K_push addr n i woken target tid) fs c s =
     Some (cont c (Wake (K_ipi addr n i woken target) # fs) (push_tid target tid s))"
| "step_wake (K_ipi addr n i woken target) fs c s =
     Some (cont c (Wake (K_scan addr n (i + 1) woken) # fs)
       (if target \<noteq> c then send_ipi target s else s))"
| "step_wake (K_end addr n woken) fs c s =
     (let b = futex_bucket addr
      in Some (return_val c (int woken) fs
           (unlock_bucket b
             ((if woken = 0
               then s\<lparr>pending_wakes := (pending_wakes s)(b := pending_wake_insert addr (pending_wakes s b))\<rparr>
               else s)\<lparr>thread_lock := False\<rparr>))))"

section \<open>Thread creation\<close>

text \<open>
  \<open>spawn\<close>: \<open>S_insert\<close> takes the thread lock, which is held to the end, and stores the thread;
  \<open>S_scan\<close> looks at one run queue per step; \<open>S_home\<close> records the home CPU and writes the TID
  to the user pointers; \<open>S_push\<close> makes the thread runnable and \<open>S_ipi\<close> notifies an idle CPU.
  \<open>S_child\<close> is \<open>clone_child_return\<close>, where the new thread starts.
\<close>

definition new_thread :: "clone_args \<Rightarrow> nat \<Rightarrow> nat \<Rightarrow> nat \<Rightarrow> nat \<Rightarrow> bytes \<Rightarrow> thread" where
  "new_thread a tid kstack_top r9 rip fx =
     \<lparr>t_tid = tid, t_state = Ready,
      t_ctx = \<lparr>rsp = kstack_top - 8, rbx = 0, rbp = 0, r12 = ca_stack a, r13 = ca_tls a,
               r14 = ca_child_tid a, r15 = 0, fs_base = ca_tls a, fxsave_area = fx\<rparr>,
      kernel_stack_top = kstack_top, user_stack = ca_stack a, fn_ptr = ca_fn_ptr a, tls = ca_tls a,
      child_tid_ptr = ca_child_tid a, futex_addr = 0, futex_val = 0, in_idle_ctx = False,
      clone_r9 = r9, clone_rip = rip, home_cpu = 0, wait_deadline_ns = 0, wait_timed_out = False,
      blocked_since_ns = 0\<rparr>"

definition pick_cpu :: "nat \<Rightarrow> cpu_queue \<Rightarrow> nat \<times> nat \<times> bool \<Rightarrow> nat \<times> nat \<times> bool" where
  "pick_cpu cpu q acc =
     (let (best, best_len, found) = acc; len = length (cq_queue q)
      in if cq_idle q \<and> \<not> found then (cpu, len, True)
         else if \<not> found \<and> len < best_len then (cpu, len, found)
         else (best, best_len, found))"

definition store_tids :: "clone_args \<Rightarrow> nat \<Rightarrow> (nat \<Rightarrow> u32) \<Rightarrow> nat \<Rightarrow> u32" where
  "store_tids a tid mem =
     (let mem = (if ca_flags a AND 0x100000 \<noteq> 0 \<and> ca_parent_tid a \<noteq> 0
                 then mem(ca_parent_tid a := of_nat tid) else mem)
      in if ca_flags a AND 0x1000000 \<noteq> 0 \<and> ca_child_tid a \<noteq> 0
         then mem(ca_child_tid a := of_nat tid) else mem)"

fun step_spawn :: "spawn_pc \<Rightarrow> frame list \<Rightarrow> nat \<Rightarrow> sched \<Rightarrow> sched option" where
  "step_spawn (S_entry a) fs c s =
     (let (r9, rip) = get_clone_regs c s;
          tid = next_tid s;
          s = s\<lparr>next_tid := (tid + 1) mod 4294967296\<rparr>
      in if MAX_THREADS \<le> tid then Some (return_val c 0 fs s)
         else
           let kstack_top = kstack_next s + KSTACK_USABLE
           in Some (cont c (Spawn (S_insert a tid kstack_top r9 rip) # fs)
                (s\<lparr>kstack_next := kstack_next s + KSTACK_USABLE + PREEMPT_REGION_SIZE\<rparr>)))"
| "step_spawn (S_insert a tid kstack_top r9 rip) fs c s =
     (if thread_lock s then None
      else Some (cont c (Spawn (S_scan a tid 0 0 (two64 - 1) False) # fs)
             (s\<lparr>thread_lock := True,
                threads := (threads s)(tid := Some (new_thread a tid kstack_top r9 rip (fxsave_template s))),
                frames := (frames s)(Thr tid := [Spawn S_child, User])\<rparr>)))"
| "step_spawn (S_scan a tid cpu best best_len found) fs c s =
     (if num_cpus s \<le> cpu then Some (cont c (Spawn (S_home a tid best) # fs) s)
      else
        let (best, best_len, found) = pick_cpu cpu (cpu_queues s cpu) (best, best_len, found)
        in Some (cont c (Spawn (S_scan a tid (cpu + 1) best best_len found) # fs) s))"
| "step_spawn (S_home a tid best) fs c s =
     Some (cont c (Spawn (S_push tid best) # fs)
       (upd_thread tid (\<lambda>th. th\<lparr>home_cpu := best\<rparr>) (s\<lparr>user_mem := store_tids a tid (user_mem s)\<rparr>)))"
| "step_spawn (S_push tid best) fs c s =
     Some (cont c (Spawn (S_ipi tid best) # fs) (push_tid best tid s))"
| "step_spawn (S_ipi tid best) fs c s =
     Some (return_val c (int tid) fs
       ((if cq_idle (cpu_queues s best) \<and> best \<noteq> c then send_ipi best s else s)\<lparr>thread_lock := False\<rparr>))"
| "step_spawn S_child fs c s = Some (cont c (Spawn S_child_go # fs) (release_pending_unlock c s))"
| "step_spawn S_child_go fs c s =
     (let r = regs s c;
          t = current_idx c s;
          entry = (case threads s t of Some th \<Rightarrow> (clone_rip th, clone_r9 th) | None \<Rightarrow> (0, 0))
      in Some (return_val c 0 fs
           (s\<lparr>regs := (regs s)(c := r\<lparr>rsp := r12 r, fs_base := (if r13 r \<noteq> 0 then r13 r else fs_base r)\<rparr>),
              child_entry := (child_entry s)(t := Some entry)\<rparr>)))"

section \<open>Thread exit\<close>

fun step_exit :: "exit_pc \<Rightarrow> frame list \<Rightarrow> nat \<Rightarrow> sched \<Rightarrow> sched option" where
  "step_exit X_take fs c s =
     Some (cont c (Exit (X_mark (cq_current (cpu_queues s c))) # fs)
       (upd_queue c (\<lambda>q. q\<lparr>cq_current := None, cq_idle := True\<rparr>) s))"
| "step_exit (X_mark cur) fs c s =
     Some (cont c (Exit (X_switch cur) # fs)
       (case cur of Some t \<Rightarrow> upd_thread t (\<lambda>th. th\<lparr>t_state := Dead\<rparr>) s | None \<Rightarrow> s))"
| "step_exit (X_switch cur) fs c s =
     Some (context_switch c (Thr (case cur of Some t \<Rightarrow> t | None \<Rightarrow> 0)) (Idle c) (Exit X_stopped # fs) s)"
| "step_exit X_stopped fs c s = None"

section \<open>Idle loops\<close>

text \<open>
  \<open>cpu_idle_loop\<close> (\<open>I_\<close>) and the loop of \<open>ap_main\<close> (\<open>A_\<close>). \<open>I_hlt\<close> and \<open>A_hlt\<close>
  are halted until an interrupt is pending.
\<close>

fun step_loop :: "idle_pc \<Rightarrow> frame list \<Rightarrow> nat \<Rightarrow> sched \<Rightarrow> sched option" where
  "step_loop I_top fs c s =
     Some (cont c (Rescue (R_scan 0) # Loop I_disable # fs) (release_pending_unlock c s))"
| "step_loop I_disable fs c s =
     Some (cont c (Loop I_check # fs) (s\<lparr>irq := (irq s)(c := False)\<rparr>))"
| "step_loop I_check fs c s =
     (if cq_queue (cpu_queues s c) = [] then Some (cont c (Loop I_hlt # fs) s)
      else Some (cont c (Loop I_pop # fs) s))"
| "step_loop I_hlt fs c s = (if irq s c then Some (cont c (Loop I_pop # fs) s) else None)"
| "step_loop I_pop fs c s =
     (let q = cpu_queues s c
      in case cq_queue q of
           [] \<Rightarrow> Some (cont c (Loop I_top # fs) s)
         | m # ts \<Rightarrow>
             Some (cont c (Loop (I_set m) # fs) (upd_queue c (\<lambda>_. q\<lparr>cq_queue := ts\<rparr>) s)))"
| "step_loop (I_set m) fs c s =
     (let s = upd_queue c (\<lambda>q. q\<lparr>cq_current := Some m, cq_idle := False\<rparr>) s
      in case threads s m of
           None \<Rightarrow> Some (cont c (Loop I_top # fs) s)
         | Some th \<Rightarrow>
             Some (cont c (Loop (I_switch m) # fs) (set_current_kernel_stack c (kernel_stack_top th) s)))"
| "step_loop (I_switch m) fs c s =
     Some (context_switch c (Idle c) (Thr m) (Loop I_back # fs) s)"
| "step_loop I_back fs c s = Some (cont c (Loop I_clear # fs) (release_pending_unlock c s))"
| "step_loop I_clear fs c s =
     Some (cont c (Loop I_top # fs) (upd_queue c (\<lambda>q. q\<lparr>cq_current := None, cq_idle := True\<rparr>) s))"
| "step_loop A_loop fs c s = Some (cont c (Loop A_hlt # fs) (s\<lparr>irq := (irq s)(c := False)\<rparr>))"
| "step_loop A_hlt fs c s =
     (if irq s c then Some (cont c (Yield Y_entry # Loop A_loop # fs) s) else None)"

section \<open>One step of a CPU\<close>

definition check_resched :: "frame list \<Rightarrow> nat \<Rightarrow> sched \<Rightarrow> sched" where
  "check_resched fs c s = cont c (Rescue (R_scan 0) # Resched # fs) s"

definition resched :: "frame list \<Rightarrow> nat \<Rightarrow> sched \<Rightarrow> sched" where
  "resched fs c s =
     (if c < MAX_CPUS \<and> need_resched s c
      then cont c (Yield Y_entry # fs) (s\<lparr>need_resched := (need_resched s)(c := False)\<rparr>)
      else cont c fs s)"

fun step_frame :: "frame \<Rightarrow> frame list \<Rightarrow> nat \<Rightarrow> sched \<Rightarrow> sched option" where
  "step_frame User fs c s = None"
| "step_frame (Rescue p) fs c s = step_rescue p fs c s"
| "step_frame (Yield p) fs c s = step_yield p fs c s"
| "step_frame (Wait p) fs c s = step_wait p fs c s"
| "step_frame (Wake p) fs c s = step_wake p fs c s"
| "step_frame (Spawn p) fs c s = step_spawn p fs c s"
| "step_frame (Exit p) fs c s = step_exit p fs c s"
| "step_frame Check_resched fs c s = Some (check_resched fs c s)"
| "step_frame Resched fs c s = Some (resched fs c s)"
| "step_frame (Loop p) fs c s = step_loop p fs c s"

definition cpu_step :: "nat \<Rightarrow> sched \<Rightarrow> sched option" where
  "cpu_step c s = (case frames s (exec s c) of [] \<Rightarrow> None | f # fs \<Rightarrow> step_frame f fs c s)"

definition timer_tick :: "nat \<Rightarrow> sched \<Rightarrow> sched" where
  "timer_tick c s = (if c < MAX_CPUS then s\<lparr>need_resched := (need_resched s)(c := True)\<rparr> else s)"

text \<open>
  \<open>timer_handler\<close>: the watchdog, then the flag; a thread that was interrupted in user code runs
  the trampoline, which issues \<open>sched_yield\<close> and so reaches \<open>check_resched\<close>.
\<close>

definition timer_handler :: "nat \<Rightarrow> sched \<Rightarrow> sched" where
  "timer_handler c s =
     (let s = send_ipi c (timer_tick c (watchdog_wake s))
      in case frames s (exec s c) of
           User # fs \<Rightarrow> cont c (Check_resched # User # fs) s
         | _ \<Rightarrow> s)"

text \<open>
  What can happen next: a CPU takes a step, user code makes a system call (\<open>Call_other\<close> is one that
  does not involve the scheduler), stores a word or changes registers, the timer fires, the boot marker
  arms the blocking futex, time passes.
\<close>

datatype call =
    Call_other
  | Call_yield
  | Call_wait nat u32 "nat option"
  | Call_wake nat nat
  | Call_clone clone_args
  | Call_exit

definition call_frames :: "call \<Rightarrow> frame list" where
  "call_frames k =
     (case k of
        Call_other \<Rightarrow> []
      | Call_yield \<Rightarrow> [Yield Y_entry]
      | Call_wait addr v deadline \<Rightarrow> [Wait (W_entry addr v deadline)]
      | Call_wake addr n \<Rightarrow> [Wake (K_lock addr n)]
      | Call_clone a \<Rightarrow> [Spawn (S_entry a)]
      | Call_exit \<Rightarrow> [Exit X_take])"

datatype event =
    Run nat
  | Syscall nat call nat nat
  | Store nat nat u32
  | Compute nat thread_ctx
  | Arm nat
  | Timer nat
  | Pass nat

definition in_user :: "nat \<Rightarrow> sched \<Rightarrow> bool" where
  "in_user c s \<longleftrightarrow> frames s (exec s c) = [User]"

definition sched_event :: "event \<Rightarrow> sched \<Rightarrow> sched option" where
  "sched_event e s =
     (case e of
        Run c \<Rightarrow> if c < num_cpus s then cpu_step c s else None
      | Syscall c k r9 rip \<Rightarrow>
          if c < num_cpus s \<and> in_user c s
          then Some (cont c (call_frames k @ [Check_resched, User])
                 (s\<lparr>percpu := (percpu s)(c := (percpu s c)\<lparr>ps_saved_r9 := r9, ps_saved_clone_rip := rip\<rparr>)\<rparr>))
          else None
      | Store c addr v \<Rightarrow>
          if c < num_cpus s \<and> in_user c s then Some (s\<lparr>user_mem := (user_mem s)(addr := v)\<rparr>) else None
      | Compute c r \<Rightarrow>
          if c < num_cpus s \<and> in_user c s then Some (s\<lparr>regs := (regs s)(c := r)\<rparr>) else None
      | Arm c \<Rightarrow> if c < num_cpus s \<and> in_user c s then Some (enable_blocking_futex s) else None
      | Timer c \<Rightarrow> if c < num_cpus s then Some (timer_handler c s) else None
      | Pass d \<Rightarrow> Some (s\<lparr>clock_ns := clock_ns s + d\<rparr>))"

text \<open>
  The state after \<open>init\<close> on a machine with \<open>n\<close> CPUs: the main thread runs on CPU 0, the
  application processors wait in \<open>ap_main\<close>. The stack addresses come from the linker and the
  register contents from the boot code.
\<close>

record boot =
  boot_kstack :: nat
  boot_fxsave :: bytes
  boot_idle_rsp :: "nat \<Rightarrow> nat"
  boot_regs :: "nat \<Rightarrow> thread_ctx"
  boot_mem :: "nat \<Rightarrow> u32"

definition zero_ctx :: "bytes \<Rightarrow> thread_ctx" where
  "zero_ctx fx =
     \<lparr>rsp = 0, rbx = 0, rbp = 0, r12 = 0, r13 = 0, r14 = 0, r15 = 0, fs_base = 0, fxsave_area = fx\<rparr>"

definition main_thread :: "boot \<Rightarrow> thread" where
  "main_thread b =
     \<lparr>t_tid = 0, t_state = Running, t_ctx = zero_ctx (boot_fxsave b),
      kernel_stack_top = boot_kstack b, user_stack = 0, fn_ptr = 0, tls = 0,
      child_tid_ptr = 0, futex_addr = 0, futex_val = 0, in_idle_ctx = False,
      clone_r9 = 0, clone_rip = 0, home_cpu = 0, wait_deadline_ns = 0, wait_timed_out = False,
      blocked_since_ns = 0\<rparr>"

definition sched_init :: "boot \<Rightarrow> nat \<Rightarrow> sched" where
  "sched_init b n =
     \<lparr>threads = (\<lambda>_. None)(0 := Some (main_thread b)),
      next_tid = 1,
      cpu_queues = (\<lambda>_. \<lparr>cq_current = None, cq_queue = [], cq_idle = True\<rparr>)
        (0 := \<lparr>cq_current = Some 0, cq_queue = [], cq_idle = False\<rparr>),
      idle_ctx = (\<lambda>c. (zero_ctx (replicate 512 0))\<lparr>rsp := (if c < n then boot_idle_rsp b c else 0)\<rparr>),
      thread_lock = False,
      futex_locks = (\<lambda>_. False),
      pending_wakes = (\<lambda>_. replicate PENDING_WAKES_PER_BUCKET 0),
      pending_unlock = (\<lambda>_. None),
      num_cpus = n,
      futex_blocking = False,
      first_spinyield_ns = 0,
      need_resched = (\<lambda>_. False),
      rescue_requested = (\<lambda>_. False),
      kstack_next = 0x7000000,
      percpu = (\<lambda>_. \<lparr>ps_kernel_stack = 0, ps_saved_r9 = 0, ps_saved_clone_rip = 0\<rparr>)
        (0 := \<lparr>ps_kernel_stack = boot_kstack b, ps_saved_r9 = 0, ps_saved_clone_rip = 0\<rparr>),
      exec = (\<lambda>c. if c = 0 then Thr 0 else Ap c),
      frames = (\<lambda>x. case x of Thr t \<Rightarrow> [User] | Idle c \<Rightarrow> [Loop I_top] | Ap c \<Rightarrow> [Loop A_loop]),
      regs = boot_regs b,
      irq = (\<lambda>_. False),
      user_mem = boot_mem b,
      clock_ns = 0,
      result = (\<lambda>_. 0),
      fxsave_template = boot_fxsave b,
      child_entry = (\<lambda>_. None)\<rparr>"

end
