(* ===== verification/Sched_Inv.thy ===== *)
theory Sched_Inv
  imports Sched
begin

text \<open>
  The invariant of the scheduler. Every runnable thread has exactly one token: it is in one run
  queue, or it is the thread that a CPU runs or is about to switch to, or it is on its way into a
  queue. Locks are held by exactly one CPU, either by the program point it is at or by a handed-over
  unlock. Threads stay on their home CPU.
\<close>

section \<open>Tokens and lock holders of a program point\<close>

fun claim :: "context_id \<Rightarrow> frame \<Rightarrow> nat option" where
  "claim x (Yield (Y_jump m)) = Some m"
| "claim x (Yield (Y_switch cur m k)) = Some m"
| "claim x (Wait (W_pick b t)) = None"
| "claim x (Wait (W_handoff b t sw)) = map_option fst sw"
| "claim x (Wait (W_switch t sw)) = map_option fst sw"
| "claim x (Exit (X_switch cur)) = None"
| "claim x (Loop (I_set m)) = Some m"
| "claim x (Loop (I_switch m)) = Some m"
| "claim (Thr t) _ = Some t"
| "claim _ _ = None"

fun pushing :: "frame \<Rightarrow> nat option" where
  "pushing (Rescue (R_push i addr)) = Some i"
| "pushing (Wake (K_push addr n i w target tid)) = Some tid"
| "pushing (Spawn (S_scan a tid cpu best len found)) = Some tid"
| "pushing (Spawn (S_home a tid best)) = Some tid"
| "pushing (Spawn (S_push tid best)) = Some tid"
| "pushing _ = None"

fun holds :: "frame \<Rightarrow> nat option" where
  "holds (Rescue (R_tlock i addr)) = Some (futex_bucket addr)"
| "holds (Rescue (R_push i addr)) = Some (futex_bucket addr)"
| "holds (Rescue (R_ipi i addr target)) = Some (futex_bucket addr)"
| "holds (Wait (W_check addr v d)) = Some (futex_bucket addr)"
| "holds (Wait (W_valve addr v d)) = Some (futex_bucket addr)"
| "holds (Wait (W_mark addr v d)) = Some (futex_bucket addr)"
| "holds (Wait (W_pick b t)) = Some b"
| "holds (Wait (W_handoff b t sw)) = Some b"
| "holds (Wake (K_tlock addr n)) = Some (futex_bucket addr)"
| "holds (Wake (K_scan addr n i w)) = Some (futex_bucket addr)"
| "holds (Wake (K_push addr n i w target tid)) = Some (futex_bucket addr)"
| "holds (Wake (K_ipi addr n i w target)) = Some (futex_bucket addr)"
| "holds (Wake (K_end addr n w)) = Some (futex_bucket addr)"
| "holds _ = None"

fun holds_thread_lock :: "frame \<Rightarrow> bool" where
  "holds_thread_lock (Rescue (R_push i addr)) = True"
| "holds_thread_lock (Rescue (R_ipi i addr target)) = True"
| "holds_thread_lock (Wake (K_lock addr n)) = False"
| "holds_thread_lock (Wake (K_tlock addr n)) = False"
| "holds_thread_lock (Wake _) = True"
| "holds_thread_lock (Spawn (S_scan a tid cpu best len found)) = True"
| "holds_thread_lock (Spawn (S_home a tid best)) = True"
| "holds_thread_lock (Spawn (S_push tid best)) = True"
| "holds_thread_lock (Spawn (S_ipi tid best)) = True"
| "holds_thread_lock _ = False"

text \<open>Where a context continues after a context switch.\<close>

fun resumes :: "frame \<Rightarrow> bool" where
  "resumes (Yield Y_resumed) = True"
| "resumes (Wait (W_resumed t)) = True"
| "resumes (Spawn S_child) = True"
| "resumes (Loop I_top) = True"
| "resumes (Loop I_back) = True"
| "resumes _ = False"

definition ltok :: "sched \<Rightarrow> nat \<Rightarrow> nat \<Rightarrow> nat" where
  "ltok s c t =
     of_bool (claim (exec s c) (topf s c) = Some t) + of_bool (pushing (topf s c) = Some t)"

definition qtok :: "sched \<Rightarrow> nat \<Rightarrow> nat" where
  "qtok s t = (\<Sum>c<num_cpus s. count_list (cq_queue (cpu_queues s c)) t)"

definition tokens :: "sched \<Rightarrow> nat \<Rightarrow> nat" where
  "tokens s t = qtok s t + (\<Sum>c<num_cpus s. ltok s c t)"

definition runnable :: "sched \<Rightarrow> nat \<Rightarrow> bool" where
  "runnable s t = (case threads s t of None \<Rightarrow> False | Some th \<Rightarrow> t_state th = Ready \<or> t_state th = Running)"

definition lholds :: "sched \<Rightarrow> nat \<Rightarrow> nat \<Rightarrow> nat" where
  "lholds s b c = of_bool (holds (topf s c) = Some b) + of_bool (pending_unlock s c = Some b)"

section \<open>Shape of the call stacks\<close>

fun lower :: "context_id \<Rightarrow> frame \<Rightarrow> bool" where
  "lower (Thr t) f \<longleftrightarrow>
     f = User \<or> f = Yield Y_lock \<or> f = Wait W_return \<or> f = Check_resched \<or> f = Resched"
| "lower (Idle c) f \<longleftrightarrow> f = Loop I_disable"
| "lower (Ap c) f \<longleftrightarrow> f = Yield Y_lock \<or> f = Loop A_loop"

fun bottom :: "context_id \<Rightarrow> frame \<Rightarrow> bool" where
  "bottom (Thr t) f \<longleftrightarrow> f = User"
| "bottom (Idle c) f \<longleftrightarrow> (\<exists>p. f = Loop p)"
| "bottom (Ap c) f \<longleftrightarrow> (\<exists>p. f = Loop p)"

definition stack_ok :: "context_id \<Rightarrow> frame list \<Rightarrow> bool" where
  "stack_ok x fs \<longleftrightarrow> fs \<noteq> [] \<and> (\<forall>f \<in> set (tl fs). lower x f) \<and> bottom x (last fs)"

text \<open>The current thread of a CPU, as the program point of the context it executes determines it.\<close>

fun at :: "context_id \<Rightarrow> frame \<Rightarrow> nat option \<Rightarrow> bool" where
  "at (Thr t) (Yield (Y_jump m)) cur = False"
| "at (Thr t) (Yield (Y_switch t' m k)) cur = (t' = t \<and> cur = Some m)"
| "at (Thr t) (Wait (W_pick b t')) cur = (t' = t \<and> cur = Some t)"
| "at (Thr t) (Wait (W_handoff b t' sw)) cur = (t' = t \<and> cur = map_option fst sw)"
| "at (Thr t) (Wait (W_switch t' sw)) cur = (t' = t \<and> cur = map_option fst sw)"
| "at (Thr t) (Wait (W_resumed t')) cur = (t' = t \<and> cur = Some t)"
| "at (Thr t) (Wait (W_finish t')) cur = (t' = t \<and> cur = Some t)"
| "at (Thr t) (Exit X_take) cur = (cur = Some t)"
| "at (Thr t) (Exit (X_mark t')) cur = (t' = Some t \<and> cur = None)"
| "at (Thr t) (Exit (X_switch t')) cur = (t' = Some t \<and> cur = None)"
| "at (Thr t) (Exit X_stopped) cur = False"
| "at (Thr t) (Loop p) cur = False"
| "at (Thr t) f cur = (cur = Some t)"
| "at (Idle c) (Loop (I_switch m)) cur = (cur = Some m)"
| "at (Idle c) (Loop A_loop) cur = False"
| "at (Idle c) (Loop A_hlt) cur = False"
| "at (Idle c) (Loop p) cur = (cur = None)"
| "at (Idle c) (Rescue p) cur = (cur = None)"
| "at (Idle c) f cur = False"
| "at (Ap c) (Loop A_loop) cur = (cur = None)"
| "at (Ap c) (Loop A_hlt) cur = (cur = None)"
| "at (Ap c) (Loop p) cur = False"
| "at (Ap c) (Rescue p) cur = (cur = None)"
| "at (Ap c) (Yield Y_entry) cur = (cur = None)"
| "at (Ap c) (Yield Y_lock) cur = (cur = None)"
| "at (Ap c) (Yield (Y_jump m)) cur = (cur = Some m)"
| "at (Ap c) f cur = False"

section \<open>The invariant\<close>

definition home :: "sched \<Rightarrow> nat \<Rightarrow> nat \<Rightarrow> bool" where
  "home s t c \<longleftrightarrow> (\<exists>th. threads s t = Some th \<and> home_cpu th = c)"

definition dead :: "sched \<Rightarrow> nat \<Rightarrow> bool" where
  "dead s t \<longleftrightarrow> (\<exists>th. threads s t = Some th \<and> t_state th = Dead)"

definition threads_ok :: "sched \<Rightarrow> bool" where
  "threads_ok s \<longleftrightarrow>
     (\<forall>t th. threads s t = Some th \<longrightarrow>
        t_tid th = t \<and> t < MAX_THREADS \<and> t < next_tid s \<and> home_cpu th < num_cpus s)"

definition exec_ok :: "sched \<Rightarrow> nat \<Rightarrow> bool" where
  "exec_ok s c \<longleftrightarrow>
     (case exec s c of Thr t \<Rightarrow> home s t c | Idle d \<Rightarrow> d = c | Ap d \<Rightarrow> d = c) \<and>
     stack_ok (exec s c) (frames s (exec s c)) \<and>
     at (exec s c) (topf s c) (cq_current (cpu_queues s c))"

definition place_ok :: "sched \<Rightarrow> nat \<Rightarrow> bool" where
  "place_ok s c \<longleftrightarrow>
     (\<forall>t \<in> set (cq_queue (cpu_queues s c)). home s t c) \<and>
     (\<forall>m. claim (exec s c) (topf s c) = Some m \<longrightarrow> home s m c)"

definition unstarted :: "sched \<Rightarrow> nat \<Rightarrow> bool" where
  "unstarted s t \<longleftrightarrow> threads s t \<noteq> None \<and> (\<forall>c < num_cpus s. exec s c \<noteq> Thr t)"

fun point_ok :: "sched \<Rightarrow> frame \<Rightarrow> bool" where
  "point_ok s (Rescue (R_push i addr)) \<longleftrightarrow> threads s i \<noteq> None"
| "point_ok s (Wake (K_push addr n i w target tid)) \<longleftrightarrow> home s tid target \<and> i = tid"
| "point_ok s (Spawn (S_insert a tid k r9 rip)) \<longleftrightarrow>
     threads s tid = None \<and> tid < MAX_THREADS \<and> tid < next_tid s"
| "point_ok s (Spawn (S_scan a tid cpu best len found)) \<longleftrightarrow> unstarted s tid \<and> best < num_cpus s"
| "point_ok s (Spawn (S_home a tid best)) \<longleftrightarrow> unstarted s tid \<and> best < num_cpus s"
| "point_ok s (Spawn (S_push tid best)) \<longleftrightarrow> home s tid best"
| "point_ok s (Spawn (S_ipi tid best)) \<longleftrightarrow> best < num_cpus s"
| "point_ok s (Exit (X_switch (Some t))) \<longleftrightarrow> dead s t"
| "point_ok s f \<longleftrightarrow> True"

fun inserting :: "frame \<Rightarrow> nat option" where
  "inserting (Spawn (S_insert a tid k r9 rip)) = Some tid"
| "inserting _ = None"

fun sleeps :: "nat \<Rightarrow> frame \<Rightarrow> bool" where
  "sleeps t (Yield Y_resumed) \<longleftrightarrow> True"
| "sleeps t (Wait (W_resumed t')) \<longleftrightarrow> t' = t"
| "sleeps t (Spawn S_child) \<longleftrightarrow> True"
| "sleeps t f \<longleftrightarrow> False"

definition suspended_ok :: "sched \<Rightarrow> bool" where
  "suspended_ok s \<longleftrightarrow>
     (\<forall>t. threads s t \<noteq> None \<longrightarrow> (\<forall>c < num_cpus s. exec s c \<noteq> Thr t) \<longrightarrow>
        stack_ok (Thr t) (frames s (Thr t)) \<and>
        (sleeps t (hd (frames s (Thr t))) \<or> dead s t)) \<and>
     (\<forall>c < num_cpus s. exec s c \<noteq> Idle c \<longrightarrow>
        stack_ok (Idle c) (frames s (Idle c)) \<and>
        (hd (frames s (Idle c)) = Loop I_top \<or> hd (frames s (Idle c)) = Loop I_back))"

definition handoff_ok :: "sched \<Rightarrow> nat \<Rightarrow> bool" where
  "handoff_ok s c \<longleftrightarrow>
     pending_unlock s c \<noteq> None \<longrightarrow> resumes (topf s c) \<or> (\<exists>t sw. topf s c = Wait (W_switch t sw))"

definition locks_ok :: "sched \<Rightarrow> bool" where
  "locks_ok s \<longleftrightarrow>
     (\<forall>b. (\<Sum>c<num_cpus s. lholds s b c) = of_bool (futex_locks s b)) \<and>
     (\<Sum>c<num_cpus s. of_bool (holds_thread_lock (topf s c))) = (of_bool (thread_lock s) :: nat)"

definition sched_inv :: "sched \<Rightarrow> bool" where
  "sched_inv s \<longleftrightarrow>
     0 < num_cpus s \<and> num_cpus s \<le> MAX_CPUS \<and> threads_ok s \<and>
     (\<forall>c < num_cpus s. exec_ok s c \<and> place_ok s c \<and> point_ok s (topf s c) \<and> handoff_ok s c) \<and>
     (\<forall>c < num_cpus s. \<forall>d < num_cpus s. \<forall>t. c \<noteq> d \<longrightarrow>
        inserting (topf s c) = Some t \<longrightarrow> inserting (topf s d) \<noteq> Some t) \<and>
     suspended_ok s \<and>
     locks_ok s \<and>
     (\<forall>t. tokens s t = of_bool (runnable s t))"

section \<open>Consequences\<close>

lemma sum_change:
  fixes g g' :: "nat \<Rightarrow> nat"
  assumes "c < n" and "\<And>d. d < n \<Longrightarrow> d \<noteq> c \<Longrightarrow> g' d = g d"
  shows "(\<Sum>d<n. g' d) + g c = (\<Sum>d<n. g d) + g' c"
proof -
  have "(\<Sum>d<n. g' d) = g' c + (\<Sum>d\<in>{..<n} - {c}. g' d)"
    using assms(1) by (simp add: sum.remove)
  moreover have "(\<Sum>d<n. g d) = g c + (\<Sum>d\<in>{..<n} - {c}. g d)"
    using assms(1) by (simp add: sum.remove)
  moreover have "(\<Sum>d\<in>{..<n} - {c}. g' d) = (\<Sum>d\<in>{..<n} - {c}. g d)"
    using assms(2) by (intro sum.cong) auto
  ultimately show ?thesis by simp
qed

lemma le_sum:
  fixes g :: "nat \<Rightarrow> nat"
  shows "c < n \<Longrightarrow> g c \<le> (\<Sum>d<n. g d)"
  by (intro member_le_sum) auto

lemma le_sum2:
  fixes g :: "nat \<Rightarrow> nat"
  assumes "c < n" "d < n" "c \<noteq> d"
  shows "g c + g d \<le> (\<Sum>e<n. g e)"
proof -
  have "(\<Sum>e<n. g e) = g c + (\<Sum>e\<in>{..<n} - {c}. g e)" using assms(1) by (simp add: sum.remove)
  moreover have "g d \<le> (\<Sum>e\<in>{..<n} - {c}. g e)" using assms by (intro member_le_sum) auto
  ultimately show ?thesis by simp
qed

lemma sched_invD:
  assumes "sched_inv s"
  shows "0 < num_cpus s" "num_cpus s \<le> MAX_CPUS" "threads_ok s" "suspended_ok s" "locks_ok s"
    "c < num_cpus s \<Longrightarrow> exec_ok s c" "c < num_cpus s \<Longrightarrow> place_ok s c"
    "c < num_cpus s \<Longrightarrow> point_ok s (topf s c)" "c < num_cpus s \<Longrightarrow> handoff_ok s c"
    "tokens s t = of_bool (runnable s t)"
  using assms by (simp_all add: sched_inv_def)

lemma homeD: "home s t c \<Longrightarrow> home s t d \<Longrightarrow> c = d"
  by (auto simp: home_def)

lemma exec_inj:
  assumes "sched_inv s" "c < num_cpus s" "d < num_cpus s" "exec s c = exec s d"
  shows "c = d"
proof (cases "exec s c")
  case (Thr t)
  then have "home s t c" "home s t d"
    using assms sched_invD(6)[OF assms(1), of c] sched_invD(6)[OF assms(1), of d]
    by (auto simp: exec_ok_def)
  then show ?thesis by (rule homeD)
next
  case (Idle e)
  then show ?thesis using assms sched_invD(6)[OF assms(1), of c] sched_invD(6)[OF assms(1), of d]
    by (simp add: exec_ok_def)
next
  case (Ap e)
  then show ?thesis using assms sched_invD(6)[OF assms(1), of c] sched_invD(6)[OF assms(1), of d]
    by (simp add: exec_ok_def)
qed

definition local_step :: "nat \<Rightarrow> sched \<Rightarrow> sched \<Rightarrow> bool" where
  "local_step c s s' \<longleftrightarrow>
     num_cpus s' = num_cpus s \<and> exec s' = exec s \<and>
     (\<forall>x. x \<noteq> exec s c \<longrightarrow> frames s' x = frames s x) \<and>
     (\<forall>d. d \<noteq> c \<longrightarrow> cq_current (cpu_queues s' d) = cq_current (cpu_queues s d) \<and>
        pending_unlock s' d = pending_unlock s d)"

definition same_threads :: "sched \<Rightarrow> sched \<Rightarrow> bool" where
  "same_threads s s' \<longleftrightarrow>
     next_tid s \<le> next_tid s' \<and>
     (\<forall>t. map_option (\<lambda>th. (t_tid th, home_cpu th)) (threads s' t) =
          map_option (\<lambda>th. (t_tid th, home_cpu th)) (threads s t)) \<and>
     (\<forall>t. dead s t \<longrightarrow> dead s' t)"

lemma same_threads_home: "same_threads s s' \<Longrightarrow> home s' t c = home s t c"
proof -
  assume "same_threads s s'"
  then have "map_option (\<lambda>th. (t_tid th, home_cpu th)) (threads s' t) =
          map_option (\<lambda>th. (t_tid th, home_cpu th)) (threads s t)" by (simp add: same_threads_def)
  then show ?thesis by (cases "threads s t"; cases "threads s' t") (auto simp: home_def)
qed

lemma same_threads_None: "same_threads s s' \<Longrightarrow> threads s' t = None \<longleftrightarrow> threads s t = None"
proof -
  assume "same_threads s s'"
  then have "map_option (\<lambda>th. (t_tid th, home_cpu th)) (threads s' t) =
          map_option (\<lambda>th. (t_tid th, home_cpu th)) (threads s t)" by (simp add: same_threads_def)
  then show ?thesis by (cases "threads s t"; cases "threads s' t") auto
qed

lemma same_threads_ok:
  assumes "same_threads s s'" "threads_ok s" "num_cpus s' = num_cpus s"
  shows "threads_ok s'"
  unfolding threads_ok_def
proof (intro allI impI)
  fix t th
  assume th: "threads s' t = Some th"
  have "map_option (\<lambda>th. (t_tid th, home_cpu th)) (threads s' t) =
          map_option (\<lambda>th. (t_tid th, home_cpu th)) (threads s t)"
    using assms(1) by (simp add: same_threads_def)
  with th obtain th0 where "threads s t = Some th0" "t_tid th = t_tid th0" "home_cpu th = home_cpu th0"
    by (cases "threads s t") auto
  moreover have "next_tid s \<le> next_tid s'" using assms(1) by (simp add: same_threads_def)
  ultimately show "t_tid th = t \<and> t < MAX_THREADS \<and> t < next_tid s' \<and> home_cpu th < num_cpus s'"
    using assms(2,3) by (fastforce simp: threads_ok_def)
qed

lemma same_threads_point:
  assumes "same_threads s s'" "exec s' = exec s" "num_cpus s' = num_cpus s" "point_ok s f"
  shows "point_ok s' f"
proof -
  note same = same_threads_home[OF assms(1)] same_threads_None[OF assms(1)]
  have n: "next_tid s \<le> next_tid s'" "\<And>t. dead s t \<Longrightarrow> dead s' t"
    using assms(1) by (simp_all add: same_threads_def)
  show ?thesis
    using assms(2-4) n
    by (cases "(s', f)" rule: point_ok.cases) (auto simp: same unstarted_def simp del: not_None_eq)
qed

lemma local_step_view:
  assumes "sched_inv s" "c < num_cpus s" "local_step c s s'" "d < num_cpus s" "d \<noteq> c"
  shows "topf s' d = topf s d" "exec s' d = exec s d" "frames s' (exec s d) = frames s (exec s d)"
proof -
  have "exec s d \<noteq> exec s c" using exec_inj[OF assms(1,4,2)] assms(5) by blast
  then show "topf s' d = topf s d" "exec s' d = exec s d" "frames s' (exec s d) = frames s (exec s d)"
    using assms(3) by (simp_all add: local_step_def topf_def)
qed

text \<open>
  A step that changes only the stack of the executing context and shared data keeps the invariant if it
  balances tokens and locks.
\<close>

lemma local_inv:
  assumes inv: "sched_inv s" and c: "c < num_cpus s" and loc: "local_step c s s'"
    and same: "same_threads s s'"
    and stk: "stack_ok (exec s c) (frames s' (exec s c))"
    and at: "at (exec s c) (topf s' c) (cq_current (cpu_queues s' c))"
    and q: "\<And>d t. d < num_cpus s \<Longrightarrow> t \<in> set (cq_queue (cpu_queues s' d)) \<Longrightarrow>
              t \<in> set (cq_queue (cpu_queues s d)) \<or> home s t d"
    and cl: "\<And>m. claim (exec s c) (topf s' c) = Some m \<Longrightarrow>
              claim (exec s c) (topf s c) = Some m \<or> home s m c"
    and pt: "point_ok s' (topf s' c)"
    and ins: "\<And>t. inserting (topf s' c) = Some t \<Longrightarrow> inserting (topf s c) = Some t \<or>
              (\<forall>d < num_cpus s. inserting (topf s d) \<noteq> Some t)"
    and hand: "handoff_ok s' c"
    and lk: "\<And>b. lholds s' b c + of_bool (futex_locks s b) = lholds s b c + of_bool (futex_locks s' b)"
    and tl: "of_bool (holds_thread_lock (topf s' c)) + of_bool (thread_lock s) =
               (of_bool (holds_thread_lock (topf s c)) + of_bool (thread_lock s') :: nat)"
    and tok: "\<And>t. qtok s' t + ltok s' c t + of_bool (runnable s t) =
                qtok s t + ltok s c t + of_bool (runnable s' t)"
  shows "sched_inv s'"
proof -
  note I = sched_invD[OF inv]
  note view = local_step_view[OF inv c loc]
  note home = same_threads_home[OF same]
  have n: "num_cpus s' = num_cpus s" and ex: "exec s' = exec s" using loc by (simp_all add: local_step_def)
  have ok: "exec_ok s' d \<and> place_ok s' d \<and> point_ok s' (topf s' d) \<and> handoff_ok s' d" if d: "d < num_cpus s" for d
  proof (cases "d = c")
    case True
    have "\<forall>t \<in> set (cq_queue (cpu_queues s' c)). home s' t c"
      using q[OF c] I(7)[OF c] by (auto simp: place_ok_def home)
    moreover have "\<forall>m. claim (exec s c) (topf s' c) = Some m \<longrightarrow> home s' m c"
      using cl I(7)[OF c] by (auto simp: place_ok_def home)
    moreover have "case exec s c of Thr t \<Rightarrow> home s' t c | Idle d \<Rightarrow> d = c | Ap d \<Rightarrow> d = c"
      using I(6)[OF c] by (auto simp: exec_ok_def home split: context_id.splits)
    ultimately show ?thesis using True stk at pt hand by (simp add: exec_ok_def place_ok_def ex)
  next
    case False
    note v = view[OF d False]
    have "exec_ok s' d"
      using I(6)[OF d] loc False v by (simp add: exec_ok_def local_step_def home cong: context_id.case_cong)
    moreover have "place_ok s' d" using I(7)[OF d] q[OF d] v by (auto simp: place_ok_def home)
    moreover have "point_ok s' (topf s' d)" using same_threads_point[OF same ex n I(8)[OF d]] v by simp
    moreover have "handoff_ok s' d" using I(9)[OF d] v loc False by (simp add: handoff_ok_def local_step_def)
    ultimately show ?thesis by blast
  qed
  have insd: "inserting (topf s' d) \<noteq> Some t"
    if "d < num_cpus s" "e < num_cpus s" "e \<noteq> d" "inserting (topf s' e) = Some t" for d e t
  proof -
    have dist: "inserting (topf s d) \<noteq> Some t"
      if "d < num_cpus s" "e < num_cpus s" "e \<noteq> d" "inserting (topf s e) = Some t" for d e
      using inv that by (simp add: sched_inv_def)
    consider "e = c" | "d = c" | "e \<noteq> c" "d \<noteq> c" by blast
    then show ?thesis
    proof cases
      case 1
      then show ?thesis using that ins[of t] dist[of d c] view(1)[of d] by auto
    next
      case 2
      then show ?thesis using that ins[of t] dist[of c e] dist[of e c] view(1)[of e] by auto
    next
      case 3
      then show ?thesis using that dist view(1) by simp
    qed
  qed
  have susp: "suspended_ok s'"
  proof -
    have "\<And>t. dead s t \<Longrightarrow> dead s' t" using same by (simp add: same_threads_def)
    moreover have "frames s' (Thr t) = frames s (Thr t)" if "\<forall>d < num_cpus s. exec s d \<noteq> Thr t" for t
      using loc c that by (auto simp: local_step_def)
    moreover have "frames s' (Idle d) = frames s (Idle d)" if "d < num_cpus s" "exec s d \<noteq> Idle d" for d
    proof -
      have "exec s c \<noteq> Idle d" using that I(6)[OF c] by (auto simp: exec_ok_def)
      then show ?thesis using loc by (simp add: local_step_def)
    qed
    ultimately show ?thesis
      using I(4) by (simp add: suspended_ok_def n ex same_threads_None[OF same]) blast
  qed
  have "locks_ok s'"
  proof -
    have "(\<Sum>d<num_cpus s. lholds s' b d) + lholds s b c = (\<Sum>d<num_cpus s. lholds s b d) + lholds s' b c" for b
      using loc by (intro sum_change c) (simp add: lholds_def view(1) local_step_def)
    then have "(\<Sum>d<num_cpus s. lholds s' b d) = of_bool (futex_locks s' b)" for b
      using I(5) lk[of b] unfolding locks_ok_def by (metis add.commute add_left_cancel)
    moreover have "(\<Sum>d<num_cpus s. of_bool (holds_thread_lock (topf s' d))) + of_bool (holds_thread_lock (topf s c)) =
        (\<Sum>d<num_cpus s. of_bool (holds_thread_lock (topf s d))) + (of_bool (holds_thread_lock (topf s' c)) :: nat)"
      by (intro sum_change c) (simp add: view(1))
    then have "(\<Sum>d<num_cpus s. of_bool (holds_thread_lock (topf s' d))) = (of_bool (thread_lock s') :: nat)"
      using I(5) tl unfolding locks_ok_def by linarith
    ultimately show ?thesis by (simp add: locks_ok_def n)
  qed
  moreover have "tokens s' t = of_bool (runnable s' t)" for t
  proof -
    have "(\<Sum>d<num_cpus s. ltok s' d t) + ltok s c t = (\<Sum>d<num_cpus s. ltok s d t) + ltok s' c t"
      by (intro sum_change c) (simp add: ltok_def view ex)
    then show ?thesis using I(10)[of t] tok[of t] by (simp add: tokens_def n)
  qed
  ultimately show ?thesis
    using I(1,2) same_threads_ok[OF same I(3) n] ok insd susp unfolding sched_inv_def n by blast
qed

definition self :: "context_id \<Rightarrow> nat option" where
  "self x = (case x of Thr t \<Rightarrow> Some t | _ \<Rightarrow> None)"

lemma self_simps [simp]: "self (Thr t) = Some t" "self (Idle c) = None" "self (Ap c) = None"
  by (simp_all add: self_def)

lemma cont_inv:
  assumes inv: "sched_inv s" and c: "c < num_cpus s" and fr: "frames s (exec s c) = f # fs"
    and eq: "num_cpus s1 = num_cpus s" "exec s1 = exec s" "frames s1 = frames s"
      "\<And>d. d \<noteq> c \<Longrightarrow> cq_current (cpu_queues s1 d) = cq_current (cpu_queues s d)"
      "\<And>d. d \<noteq> c \<Longrightarrow> pending_unlock s1 d = pending_unlock s d"
    and same: "same_threads s s1"
    and stk: "stack_ok (exec s c) (g # gs)"
    and at: "at (exec s c) g (cq_current (cpu_queues s1 c))"
    and q: "\<And>d t. d < num_cpus s \<Longrightarrow> t \<in> set (cq_queue (cpu_queues s1 d)) \<Longrightarrow>
              t \<in> set (cq_queue (cpu_queues s d)) \<or> home s t d"
    and cl: "\<And>m. claim (exec s c) g = Some m \<Longrightarrow> claim (exec s c) f = Some m \<or> home s m c"
    and pt: "point_ok s1 g"
    and ins: "\<And>t. inserting g = Some t \<Longrightarrow> inserting f = Some t \<or>
              (\<forall>d < num_cpus s. inserting (topf s d) \<noteq> Some t)"
    and hand: "pending_unlock s1 c \<noteq> None \<Longrightarrow> resumes g \<or> (\<exists>t sw. g = Wait (W_switch t sw))"
    and lk: "\<And>b. of_bool (holds g = Some b) + of_bool (pending_unlock s1 c = Some b) + of_bool (futex_locks s b) =
               (of_bool (holds f = Some b) + of_bool (pending_unlock s c = Some b) + of_bool (futex_locks s1 b) :: nat)"
    and tl: "of_bool (holds_thread_lock g) + of_bool (thread_lock s) =
               (of_bool (holds_thread_lock f) + of_bool (thread_lock s1) :: nat)"
    and tok: "\<And>t. qtok s1 t + of_bool (claim (exec s c) g = Some t) + of_bool (pushing g = Some t) + of_bool (runnable s t) =
                qtok s t + of_bool (claim (exec s c) f = Some t) + of_bool (pushing f = Some t) + of_bool (runnable s1 t)"
  shows "sched_inv (cont c (g # gs) s1)"
proof -
  let ?s = "cont c (g # gs) s1"
  have tf: "topf s c = f" using fr by (simp add: topf_def)
  have fld: "num_cpus ?s = num_cpus s1" "exec ?s = exec s1" "threads ?s = threads s1" "next_tid ?s = next_tid s1"
    "cpu_queues ?s = cpu_queues s1" "futex_locks ?s = futex_locks s1" "thread_lock ?s = thread_lock s1"
    "pending_unlock ?s = pending_unlock s1" "frames ?s = (frames s1)(exec s c := g # gs)"
    by (simp_all add: cont_def eq)
  have tg: "topf ?s c = g" by (simp add: topf_def fld eq)
  have point: "point_ok ?s f = point_ok s1 f" for f
    by (cases "(s1, f)" rule: point_ok.cases) (simp_all add: fld home_def dead_def unstarted_def)
  show ?thesis
  proof (rule local_inv[OF inv c])
    show "local_step c s ?s" by (simp add: local_step_def fld eq)
    show "same_threads s ?s" using same by (simp add: same_threads_def fld dead_def)
    show "stack_ok (exec s c) (frames ?s (exec s c))" by (simp add: fld stk)
    show "at (exec s c) (topf ?s c) (cq_current (cpu_queues ?s c))" by (simp add: tg fld at)
    show "\<And>d t. d < num_cpus s \<Longrightarrow> t \<in> set (cq_queue (cpu_queues ?s d)) \<Longrightarrow>
              t \<in> set (cq_queue (cpu_queues s d)) \<or> home s t d"
      using q by (simp add: fld)
    show "\<And>m. claim (exec s c) (topf ?s c) = Some m \<Longrightarrow>
              claim (exec s c) (topf s c) = Some m \<or> home s m c" using cl by (simp add: tf tg)
    show "point_ok ?s (topf ?s c)" using pt by (simp add: tg point)
    show "\<And>t. inserting (topf ?s c) = Some t \<Longrightarrow> inserting (topf s c) = Some t \<or>
              (\<forall>d < num_cpus s. inserting (topf s d) \<noteq> Some t)" using ins by (simp add: tf tg)
    show "handoff_ok ?s c" using hand by (simp add: handoff_ok_def tg fld)
    show "\<And>b. lholds ?s b c + of_bool (futex_locks s b) = lholds s b c + of_bool (futex_locks ?s b)"
      using lk by (simp add: lholds_def tf tg fld)
    show "of_bool (holds_thread_lock (topf ?s c)) + of_bool (thread_lock s) =
               (of_bool (holds_thread_lock (topf s c)) + of_bool (thread_lock ?s) :: nat)"
      using tl by (simp add: tf tg fld)
    show "\<And>t. qtok ?s t + ltok ?s c t + of_bool (runnable s t) =
                qtok s t + ltok s c t + of_bool (runnable ?s t)"
    proof -
      fix t
      have "qtok ?s t = qtok s1 t" "runnable ?s t = runnable s1 t" by (simp_all add: qtok_def runnable_def fld)
      then show "qtok ?s t + ltok ?s c t + of_bool (runnable s t) =
                qtok s t + ltok s c t + of_bool (runnable ?s t)"
        using tok[of t] by (simp add: ltok_def tf tg fld eq)
    qed
  qed
qed

definition plain :: "context_id \<Rightarrow> frame \<Rightarrow> bool" where
  "plain x f \<longleftrightarrow>
     claim x f = self x \<and> (\<forall>cur. at x f cur \<longleftrightarrow> cur = self x) \<and> pushing f = None \<and>
     \<not> holds_thread_lock f \<and> inserting f = None"

definition same_core :: "sched \<Rightarrow> sched \<Rightarrow> bool" where
  "same_core s s1 \<longleftrightarrow>
     num_cpus s1 = num_cpus s \<and> exec s1 = exec s \<and> frames s1 = frames s \<and> threads s1 = threads s \<and>
     cpu_queues s1 = cpu_queues s \<and> next_tid s1 = next_tid s \<and> thread_lock s1 = thread_lock s"

lemma plain_point: "plain x f \<Longrightarrow> point_ok s f"
  by (cases "(s, f)" rule: point_ok.cases; cases x) (auto simp: plain_def)


definition silent :: "frame \<Rightarrow> bool" where
  "silent f \<longleftrightarrow> \<not> resumes f \<and> (\<forall>t sw. f \<noteq> Wait (W_switch t sw))"

lemma silent_pending:
  assumes "sched_inv s" "c < num_cpus s" "frames s (exec s c) = f # fs" "silent f"
  shows "pending_unlock s c = None"
  using sched_invD(9)[OF assms(1,2)] assms(3,4) by (auto simp: handoff_ok_def topf_def silent_def)

lemma goto_inv:
  assumes inv: "sched_inv s" and c: "c < num_cpus s" and fr: "frames s (exec s c) = f # fs"
    and core: "same_core s s1" "pending_unlock s1 = pending_unlock s"
    and f: "plain (exec s c) f" "silent f"
    and g: "plain (exec s c) g" and stk: "stack_ok (exec s c) (g # gs)"
    and lk: "\<And>b. of_bool (holds g = Some b) + of_bool (futex_locks s b) =
               (of_bool (holds f = Some b) + of_bool (futex_locks s1 b) :: nat)"
  shows "sched_inv (cont c (g # gs) s1)"
proof -
  note I = sched_invD[OF inv]
  have x: "exec_ok s c" "handoff_ok s c" using I(6,9)[OF c] by auto
  have tf: "topf s c = f" using fr by (simp add: topf_def)
  have cur: "cq_current (cpu_queues s c) = self (exec s c)"
    using x(1) f(1) by (simp add: exec_ok_def tf plain_def)
  have pend: "pending_unlock s c = None" using silent_pending[OF inv c fr f(2)] .
  show ?thesis
  proof (rule cont_inv[OF inv c fr])
    show "same_threads s s1" using core by (simp add: same_threads_def same_core_def dead_def)
    show "stack_ok (exec s c) (g # gs)" by (rule stk)
    show "at (exec s c) g (cq_current (cpu_queues s1 c))" using g core cur by (simp add: plain_def same_core_def)
    show "point_ok s1 g" using g by (rule plain_point)
    show "\<And>b. of_bool (holds g = Some b) + of_bool (pending_unlock s1 c = Some b) + of_bool (futex_locks s b) =
               (of_bool (holds f = Some b) + of_bool (pending_unlock s c = Some b) + of_bool (futex_locks s1 b) :: nat)"
      using lk core pend by simp
  qed (use core f g pend in \<open>simp_all add: same_core_def plain_def qtok_def runnable_def\<close>)
qed


lemma lower_plain: "lower x f \<Longrightarrow> plain x f \<and> holds f = None \<and> silent f"
  by (cases x) (auto simp: plain_def silent_def)

lemma stack_pop:
  assumes "stack_ok x (f # fs)" "\<not> bottom x f"
  shows "stack_ok x fs" "\<exists>g gs. fs = g # gs \<and> lower x g" "stack_ok x (h # fs)"
  using assms by (cases fs; cases x; auto simp: stack_ok_def)+

lemma pop_inv:
  assumes inv: "sched_inv s" and c: "c < num_cpus s" and fr: "frames s (exec s c) = f # fs"
    and core: "same_core s s1" "pending_unlock s1 = pending_unlock s"
    and f: "plain (exec s c) f" "silent f" "\<not> bottom (exec s c) f"
    and lk: "\<And>b. of_bool (futex_locks s b) =
               (of_bool (holds f = Some b) + of_bool (futex_locks s1 b) :: nat)"
  shows "sched_inv (cont c fs s1)"
proof -
  have "stack_ok (exec s c) (f # fs)" using sched_invD(6)[OF inv c] fr by (simp add: exec_ok_def)
  note st = stack_pop[OF this f(3)]
  then obtain g gs where fs: "fs = g # gs" "lower (exec s c) g" by blast
  show ?thesis
    unfolding fs(1) using lower_plain[OF fs(2)] st(1) lk
    by (intro goto_inv[OF inv c fr core f(1,2)]) (simp_all add: fs(1))
qed

lemma exec_stack:
  assumes "sched_inv s" "c < num_cpus s" "frames s (exec s c) = f # fs"
  shows "stack_ok (exec s c) (f # fs)" "at (exec s c) f (cq_current (cpu_queues s c))"
  using sched_invD(6)[OF assms(1,2)] assms(3) by (simp_all add: exec_ok_def topf_def)

end
