(* ===== verification/Sched_Steps.thy ===== *)
theory Sched_Steps
  imports Sched_Inv
begin

text \<open>
  Every operation of the scheduler keeps the invariant \<open>sched_inv\<close>: one lemma per operation, by cases on
  the program point. \<open>switch_inv\<close> is the context switch, \<open>set_thread_inv\<close> the creation of a
  thread.
\<close>

section \<open>Facts shared by the operations\<close>

lemma rescue_frame [simp]:
  "claim x (Rescue p) = self x" "at x (Rescue p) cur \<longleftrightarrow> cur = self x"
  by (cases x; simp)+

lemma silent_simps [simp]:
  "silent (Rescue p)" "silent (Wake k)" "silent User" "silent Check_resched" "silent Resched" "silent (Exit e)"
  by (auto simp: silent_def)

lemma bottom_Rescue [simp]: "\<not> bottom x (Rescue p)"
  by (cases x) auto

lemma upd_thread_same:
  assumes "\<And>th. t_tid (f th) = t_tid th" "\<And>th. home_cpu (f th) = home_cpu th"
    "\<And>th. threads s t = Some th \<Longrightarrow> t_state th = Dead \<Longrightarrow> t_state (f th) = Dead"
  shows "same_threads s (upd_thread t f s)"
  using assms by (auto simp: same_threads_def upd_thread_def dead_def option.map_comp o_def)

lemma holds_locked:
  assumes "sched_inv s" "c < num_cpus s" "frames s (exec s c) = f # fs" "holds f = Some b"
  shows "futex_locks s b"
proof -
  have "lholds s b c \<le> (\<Sum>d<num_cpus s. lholds s b d)" using assms(2) by (rule le_sum)
  also have "\<dots> = of_bool (futex_locks s b)" using sched_invD(5)[OF assms(1)] unfolding locks_ok_def by blast
  finally show ?thesis using assms(3,4) by (cases "futex_locks s b") (simp_all add: lholds_def topf_def)
qed

lemma holds_thread_locked:
  assumes "sched_inv s" "c < num_cpus s" "frames s (exec s c) = f # fs" "holds_thread_lock f"
  shows "thread_lock s"
proof -
  have "of_bool (holds_thread_lock (topf s c)) \<le> (\<Sum>d<num_cpus s. of_bool (holds_thread_lock (topf s d)) :: nat)"
    using assms(2) by (rule le_sum)
  then show ?thesis
    using sched_invD(5)[OF assms(1)] assms(3,4) by (cases "thread_lock s") (auto simp: locks_ok_def topf_def)
qed

lemma qtok_push:
  assumes "d < num_cpus s"
  shows "qtok (push_tid d m s) t = qtok s t + of_bool (t = m)"
proof -
  let ?q = "\<lambda>s e. count_list (cq_queue (cpu_queues s e)) t"
  have "(\<Sum>e<num_cpus s. ?q (push_tid d m s) e) + ?q s d = (\<Sum>e<num_cpus s. ?q s e) + ?q (push_tid d m s) d"
    using assms by (intro sum_change) (auto simp: push_tid_def upd_queue_def)
  moreover have "?q (push_tid d m s) d = ?q s d + of_bool (t = m)"
    by (auto simp: push_tid_def upd_queue_def)
  ultimately show ?thesis by (simp add: qtok_def push_tid_def upd_queue_def)
qed

lemma push_tid_simps [simp]:
  "threads (push_tid d m s) = threads s" "num_cpus (push_tid d m s) = num_cpus s"
  "exec (push_tid d m s) = exec s" "frames (push_tid d m s) = frames s"
  "next_tid (push_tid d m s) = next_tid s" "pending_unlock (push_tid d m s) = pending_unlock s"
  "futex_locks (push_tid d m s) = futex_locks s" "thread_lock (push_tid d m s) = thread_lock s"
  "cq_current (cpu_queues (push_tid d m s) e) = cq_current (cpu_queues s e)"
  "cq_queue (cpu_queues (push_tid d m s) e) = cq_queue (cpu_queues s e) @ (if e = d then [m] else [])"
  by (simp_all add: push_tid_def upd_queue_def)

lemma send_ipi_simps [simp]:
  "threads (send_ipi d s) = threads s" "num_cpus (send_ipi d s) = num_cpus s"
  "exec (send_ipi d s) = exec s" "frames (send_ipi d s) = frames s"
  "next_tid (send_ipi d s) = next_tid s" "pending_unlock (send_ipi d s) = pending_unlock s"
  "futex_locks (send_ipi d s) = futex_locks s" "thread_lock (send_ipi d s) = thread_lock s"
  "cpu_queues (send_ipi d s) = cpu_queues s"
  by (simp_all add: send_ipi_def)

lemma unqueued:
  assumes "sched_inv s" "c < num_cpus s" "frames s (exec s c) = f # fs" "pushing f = Some t" "d < num_cpus s"
  shows "t \<notin> set (cq_queue (cpu_queues s d))" "runnable s t"
proof -
  let ?q = "\<lambda>e. count_list (cq_queue (cpu_queues s e)) t"
  have q: "?q d \<le> qtok s t" unfolding qtok_def using assms(5) by (rule le_sum)
  have l: "ltok s c t \<le> (\<Sum>e<num_cpus s. ltok s e t)" using assms(2) by (rule le_sum)
  have "0 < ltok s c t" using assms(3,4) by (simp add: ltok_def topf_def)
  then have "?q d + 1 \<le> tokens s t" using q l by (simp add: tokens_def)
  moreover have "tokens s t = of_bool (runnable s t)" by (rule sched_invD(10)[OF assms(1)])
  ultimately have "?q d = 0 \<and> runnable s t" by (cases "runnable s t") auto
  then show "t \<notin> set (cq_queue (cpu_queues s d))" "runnable s t" by (auto simp: count_list_0_iff)
qed

section \<open>Context switch\<close>

lemma claimed:
  assumes "sched_inv s" "c < num_cpus s" "claim (exec s c) (topf s c) = Some m"
  shows "runnable s m" "home s m c"
    "d < num_cpus s \<Longrightarrow> d \<noteq> c \<Longrightarrow> pushing (topf s d) \<noteq> Some m"
    "d < num_cpus s \<Longrightarrow> m \<notin> set (cq_queue (cpu_queues s d))"
proof -
  have tok: "tokens s m = of_bool (runnable s m)" by (rule sched_invD(10)[OF assms(1)])
  have one: "1 \<le> ltok s c m" using assms(3) by (simp add: ltok_def)
  moreover have "ltok s c m \<le> (\<Sum>e<num_cpus s. ltok s e m)" using assms(2) by (rule le_sum)
  ultimately have "1 \<le> tokens s m" by (simp add: tokens_def)
  with tok show run: "runnable s m" by (cases "runnable s m") auto
  show "home s m c" using sched_invD(7)[OF assms(1,2)] assms(3) by (simp add: place_ok_def)
  show "pushing (topf s d) \<noteq> Some m" if "d < num_cpus s" "d \<noteq> c"
  proof
    assume "pushing (topf s d) = Some m"
    then have "1 \<le> ltok s d m" by (simp add: ltok_def)
    moreover have "ltok s d m + ltok s c m \<le> (\<Sum>e<num_cpus s. ltok s e m)"
      using that(1) assms(2) that(2) by (rule le_sum2)
    ultimately show False using one tok run by (simp add: tokens_def)
  qed
  show "m \<notin> set (cq_queue (cpu_queues s d))" if "d < num_cpus s"
  proof -
    have "count_list (cq_queue (cpu_queues s d)) m \<le> qtok s m" unfolding qtok_def using that by (rule le_sum)
    moreover have "1 \<le> (\<Sum>e<num_cpus s. ltok s e m)"
      using one le_sum[OF assms(2), of "\<lambda>e. ltok s e m"] by simp
    ultimately have "count_list (cq_queue (cpu_queues s d)) m = 0" using tok run by (simp add: tokens_def)
    then show ?thesis by (simp add: count_list_0_iff)
  qed
qed

lemma sleeps_frame:
  assumes "sleeps t h"
  shows "claim (Thr t) h = Some t" "pushing h = None" "holds h = None" "\<not> holds_thread_lock h"
    "inserting h = None" "resumes h" "at (Thr t) h (Some t)" "point_ok s h"
  using assms by (cases "(t, h)" rule: sleeps.cases; simp)+

lemma switch_inv:
  assumes inv: "sched_inv s" and c: "c < num_cpus s" and fr: "frames s (exec s c) = f # fs"
    and eq: "num_cpus s' = num_cpus s" "cpu_queues s' = cpu_queues s" "futex_locks s' = futex_locks s"
      "thread_lock s' = thread_lock s" "pending_unlock s' = pending_unlock s"
      "exec s' = (exec s)(c := y)" "frames s' = (frames s)(exec s c := g # gs)"
    and same: "same_threads s s'" and run: "\<And>t. runnable s' t = runnable s t"
    and f: "claim (exec s c) f = self y" "pushing f = None" "holds f = None" "\<not> holds_thread_lock f"
      "inserting f = None" "at (exec s c) f (self y)"
    and y: "(\<exists>m. y = Thr m) \<or> (y = Idle c \<and> exec s c \<noteq> Idle c)"
    and stk: "stack_ok (exec s c) (g # gs)"
    and g: "case exec s c of Thr t \<Rightarrow> sleeps t g \<or> (dead s t \<and> y \<noteq> Thr t) | Idle d \<Rightarrow> g = Loop I_back | Ap d \<Rightarrow> True"
    and cur: "cq_current (cpu_queues s c) = self y"
  shows "sched_inv s'"
proof -
  note I = sched_invD[OF inv]
  note home = same_threads_home[OF same]
  have tf: "topf s c = f" using fr by (simp add: topf_def)
  let ?h = "topf s' c"
  have h: "(\<forall>m. y = Thr m \<longrightarrow> sleeps m ?h) \<and> (y = Idle c \<longrightarrow> ?h = Loop I_top \<or> ?h = Loop I_back) \<and>
      stack_ok y (frames s' y) \<and> (case y of Thr t \<Rightarrow> home s t c | Idle d \<Rightarrow> d = c | Ap d \<Rightarrow> d = c)"
  proof (cases "exec s c = y")
    case True
    with y obtain m where m: "y = Thr m" by auto
    then have "claim (exec s c) (topf s c) = Some m" using f(1) tf by simp
    note cl = claimed[OF inv c this]
    have "\<not> dead s m" using cl(1) by (auto simp: dead_def runnable_def split: option.splits)
    then show ?thesis using True m g stk cl(2) by (simp add: topf_def eq)
  next
    case False
    show ?thesis
    proof (cases y)
      case (Thr m)
      then have "claim (exec s c) (topf s c) = Some m" using f(1) tf by simp
      note cl = claimed[OF inv c this]
      have "exec s d \<noteq> Thr m" if "d < num_cpus s" for d
      proof
        assume ex: "exec s d = Thr m"
        then have "home s m d" using I(6)[OF that] by (simp add: exec_ok_def)
        then have "d = c" using cl(2) homeD by blast
        then show False using False ex Thr by simp
      qed
      moreover have "threads s m \<noteq> None" "\<not> dead s m"
        using cl(1) by (auto simp: dead_def runnable_def split: option.splits)
      ultimately have "stack_ok (Thr m) (frames s (Thr m)) \<and> sleeps m (hd (frames s (Thr m)))"
        using I(4) unfolding suspended_ok_def by blast
      then show ?thesis using False Thr cl(2) by (simp add: topf_def eq)
    next
      case (Idle d)
      then have "y = Idle c" "exec s c \<noteq> Idle c" using y by auto
      then have "stack_ok y (frames s y) \<and> (hd (frames s y) = Loop I_top \<or> hd (frames s y) = Loop I_back)"
        using I(4) c by (simp add: suspended_ok_def)
      then show ?thesis using False \<open>y = Idle c\<close> by (simp add: topf_def eq)
    next
      case (Ap d)
      then show ?thesis using y by simp
    qed
  qed
  have hp: "claim y ?h = self y" "pushing ?h = None" "holds ?h = None" "\<not> holds_thread_lock ?h"
    "inserting ?h = None" "resumes ?h" "at y ?h (self y)" "point_ok s' ?h"
    using h y sleeps_frame[of _ ?h] by auto
  have view: "topf s' d = topf s d" "exec s' d = exec s d" "frames s' (exec s d) = frames s (exec s d)"
    if "d < num_cpus s" "d \<noteq> c" for d
  proof -
    have "exec s d \<noteq> exec s c" using exec_inj[OF inv that(1) c] that(2) by blast
    then show "topf s' d = topf s d" "exec s' d = exec s d" "frames s' (exec s d) = frames s (exec s d)"
      using that by (simp_all add: topf_def eq)
  qed
  have point: "point_ok s' (topf s d)" if d: "d < num_cpus s" "d \<noteq> c" for d
  proof -
    have "point_ok s (topf s d)" by (rule I(8)[OF d(1)])
    moreover have "unstarted s' t" if "unstarted s t" "pushing (topf s d) = Some t" for t
    proof -
      have "y \<noteq> Thr t"
      proof
        assume "y = Thr t"
        then have "claim (exec s c) (topf s c) = Some t" using f(1) tf by simp
        then show False using claimed(3)[OF inv c _ d] that(2) by blast
      qed
      then show ?thesis using that(1) by (auto simp: unstarted_def eq same_threads_None[OF same])
    qed
    moreover have "next_tid s \<le> next_tid s'" "\<And>t. dead s t \<Longrightarrow> dead s' t"
      using same by (simp_all add: same_threads_def)
    ultimately show ?thesis
      by (cases "(s', topf s d)" rule: point_ok.cases)
        (auto simp: home eq same_threads_None[OF same] simp del: not_None_eq)
  qed
  have ok: "exec_ok s' d \<and> place_ok s' d \<and> point_ok s' (topf s' d) \<and> handoff_ok s' d" if d: "d < num_cpus s" for d
  proof (cases "d = c")
    case True
    have "case y of Thr t \<Rightarrow> home s' t c | Idle d \<Rightarrow> d = c | Ap d \<Rightarrow> d = c"
      using h by (simp add: home cong: context_id.case_cong)
    then have "exec_ok s' c" using h hp(7) cur by (simp add: exec_ok_def eq)
    moreover have "home s m c" if "self y = Some m" for m
      using claimed(2)[OF inv c, of m] f(1) tf that by simp
    then have "place_ok s' c" using I(7)[OF c] hp(1) by (simp add: place_ok_def eq home)
    ultimately show ?thesis using True hp by (simp add: handoff_ok_def)
  next
    case False
    note v = view[OF d False]
    have "exec_ok s' d" using I(6)[OF d] v by (simp add: exec_ok_def eq home cong: context_id.case_cong)
    moreover have "place_ok s' d" using I(7)[OF d] v by (simp add: place_ok_def eq home)
    moreover have "handoff_ok s' d" using I(9)[OF d] v by (simp add: handoff_ok_def eq)
    ultimately show ?thesis using point[OF d False] v by simp
  qed
  have insd: "inserting (topf s' d) \<noteq> Some t"
    if "d < num_cpus s" "e < num_cpus s" "e \<noteq> d" "inserting (topf s' e) = Some t" for d e t
  proof -
    have "inserting (topf s d) \<noteq> Some t" if "inserting (topf s e) = Some t"
      using inv that \<open>d < num_cpus s\<close> \<open>e < num_cpus s\<close> \<open>e \<noteq> d\<close> by (simp add: sched_inv_def)
    then show ?thesis using that hp(5) view(1) by (cases "d = c"; cases "e = c") auto
  qed
  have susp: "suspended_ok s'"
  proof -
    have "stack_ok (Thr t) (frames s' (Thr t)) \<and> (sleeps t (hd (frames s' (Thr t))) \<or> dead s' t)"
      if t: "threads s' t \<noteq> None" "\<forall>d < num_cpus s. exec s' d \<noteq> Thr t" for t
    proof (cases "exec s c = Thr t")
      case True
      have "dead s t \<longrightarrow> dead s' t" using same by (simp add: same_threads_def)
      then show ?thesis using True g stk by (auto simp: eq)
    next
      case False
      have "exec s d \<noteq> Thr t" if "d < num_cpus s" for d
        using that t(2) False by (cases "d = c") (auto simp: eq)
      then have "stack_ok (Thr t) (frames s (Thr t)) \<and> (sleeps t (hd (frames s (Thr t))) \<or> dead s t)"
        using I(4) t(1) by (simp add: suspended_ok_def same_threads_None[OF same])
      then show ?thesis using False same by (auto simp: eq same_threads_def)
    qed
    moreover have "stack_ok (Idle d) (frames s' (Idle d)) \<and>
        (hd (frames s' (Idle d)) = Loop I_top \<or> hd (frames s' (Idle d)) = Loop I_back)"
      if d: "d < num_cpus s" "exec s' d \<noteq> Idle d" for d
    proof (cases "exec s c = Idle d")
      case True
      then show ?thesis using g stk by (simp add: eq)
    next
      case False
      have "exec s d \<noteq> Idle d" using d False by (cases "d = c") (auto simp: eq)
      then show ?thesis using I(4) d(1) False by (simp add: suspended_ok_def eq)
    qed
    ultimately show ?thesis by (simp add: suspended_ok_def eq(1))
  qed
  have "locks_ok s'"
  proof -
    have "(\<Sum>d<num_cpus s. lholds s' b d) = (\<Sum>d<num_cpus s. lholds s b d)" for b
    proof (rule sum.cong[OF refl])
      fix d assume "d \<in> {..<num_cpus s}"
      then show "lholds s' b d = lholds s b d"
        using view(1)[of d] hp(3) f(3) tf by (cases "d = c") (simp_all add: lholds_def eq)
    qed
    moreover have "(\<Sum>d<num_cpus s. of_bool (holds_thread_lock (topf s' d)) :: nat) =
        (\<Sum>d<num_cpus s. of_bool (holds_thread_lock (topf s d)))"
    proof (rule sum.cong[OF refl])
      fix d assume "d \<in> {..<num_cpus s}"
      then show "(of_bool (holds_thread_lock (topf s' d)) :: nat) = of_bool (holds_thread_lock (topf s d))"
        using view(1)[of d] hp(4) f(4) tf by (cases "d = c") simp_all
    qed
    ultimately show ?thesis using I(5) by (simp add: locks_ok_def eq)
  qed
  moreover have "tokens s' t = of_bool (runnable s' t)" for t
  proof -
    have "(\<Sum>d<num_cpus s. ltok s' d t) = (\<Sum>d<num_cpus s. ltok s d t)"
    proof (rule sum.cong[OF refl])
      fix d assume "d \<in> {..<num_cpus s}"
      then show "ltok s' d t = ltok s d t"
        using view[of d] hp(1,2) f(1,2) tf by (cases "d = c") (simp_all add: ltok_def eq)
    qed
    then show ?thesis using I(10)[of t] run by (simp add: tokens_def qtok_def eq)
  qed
  ultimately show ?thesis
    using I(1,2) same_threads_ok[OF same I(3) eq(1)] ok insd susp unfolding sched_inv_def eq(1) by blast
qed

lemma bottom_simps [simp]: "\<not> bottom x (Yield y)" "\<not> bottom x (Wait w)" "\<not> bottom x (Wake k)"
  "\<not> bottom x (Spawn p)" "\<not> bottom x Check_resched" "\<not> bottom x Resched" "\<not> bottom x (Exit e)"
  by (cases x; simp)+

lemma qtok_own:
  assumes "c < num_cpus s"
  shows "qtok (upd_queue c f s) t + count_list (cq_queue (cpu_queues s c)) t =
    qtok s t + count_list (cq_queue (f (cpu_queues s c))) t"
proof -
  let ?q = "\<lambda>s e. count_list (cq_queue (cpu_queues s e)) t"
  have "(\<Sum>e<num_cpus s. ?q (upd_queue c f s) e) + ?q s c = (\<Sum>e<num_cpus s. ?q s e) + ?q (upd_queue c f s) c"
    using assms by (intro sum_change) (auto simp: upd_queue_def)
  then show ?thesis by (simp add: qtok_def upd_queue_def)
qed

lemma upd_queue_simps [simp]:
  "threads (upd_queue d f s) = threads s" "num_cpus (upd_queue d f s) = num_cpus s"
  "exec (upd_queue d f s) = exec s" "frames (upd_queue d f s) = frames s"
  "next_tid (upd_queue d f s) = next_tid s" "pending_unlock (upd_queue d f s) = pending_unlock s"
  "futex_locks (upd_queue d f s) = futex_locks s" "thread_lock (upd_queue d f s) = thread_lock s"
  "cpu_queues (upd_queue d f s) = (cpu_queues s)(d := f (cpu_queues s d))"
  by (simp_all add: upd_queue_def)

lemma set_kstack_simps [simp]:
  "threads (set_current_kernel_stack d k s) = threads s" "num_cpus (set_current_kernel_stack d k s) = num_cpus s"
  "exec (set_current_kernel_stack d k s) = exec s" "frames (set_current_kernel_stack d k s) = frames s"
  "next_tid (set_current_kernel_stack d k s) = next_tid s"
  "pending_unlock (set_current_kernel_stack d k s) = pending_unlock s"
  "futex_locks (set_current_kernel_stack d k s) = futex_locks s"
  "thread_lock (set_current_kernel_stack d k s) = thread_lock s"
  "cpu_queues (set_current_kernel_stack d k s) = cpu_queues s"
  "regs (set_current_kernel_stack d k s) = regs s" "idle_ctx (set_current_kernel_stack d k s) = idle_ctx s"
  by (simp_all add: set_current_kernel_stack_def)

lemma same_threads_eq: "threads s1 = threads s \<Longrightarrow> next_tid s1 = next_tid s \<Longrightarrow> same_threads s s1"
  by (simp add: same_threads_def dead_def)

text \<open>The context switch as an instance of the switch lemma.\<close>

lemma cont_simps [simp]:
  "threads (cont c gs s) = threads s" "num_cpus (cont c gs s) = num_cpus s"
  "exec (cont c gs s) = exec s" "frames (cont c gs s) = (frames s)(exec s c := gs)"
  "next_tid (cont c gs s) = next_tid s" "pending_unlock (cont c gs s) = pending_unlock s"
  "futex_locks (cont c gs s) = futex_locks s" "thread_lock (cont c gs s) = thread_lock s"
  "cpu_queues (cont c gs s) = cpu_queues s" "regs (cont c gs s) = regs s" "idle_ctx (cont c gs s) = idle_ctx s"
  by (simp_all add: cont_def)

lemma save_ctx_simps:
  "num_cpus (save_ctx x r s) = num_cpus s" "exec (save_ctx x r s) = exec s"
  "frames (save_ctx x r s) = frames s" "next_tid (save_ctx x r s) = next_tid s"
  "pending_unlock (save_ctx x r s) = pending_unlock s" "futex_locks (save_ctx x r s) = futex_locks s"
  "thread_lock (save_ctx x r s) = thread_lock s" "cpu_queues (save_ctx x r s) = cpu_queues s"
  "threads (save_ctx x r s) t =
     (if x = Thr t then map_option (\<lambda>th. th\<lparr>t_ctx := r\<rparr>) (threads s t) else threads s t)"
  "regs (save_ctx x r s) = regs s"
  by (cases x; simp add: save_ctx_def upd_thread_def)+

lemma load_ctx_simps:
  "num_cpus (load_ctx c y s) = num_cpus s"
  "frames (load_ctx c y s) = frames s" "next_tid (load_ctx c y s) = next_tid s"
  "pending_unlock (load_ctx c y s) = pending_unlock s" "futex_locks (load_ctx c y s) = futex_locks s"
  "thread_lock (load_ctx c y s) = thread_lock s" "cpu_queues (load_ctx c y s) = cpu_queues s"
  "threads (load_ctx c y s) = threads s" "idle_ctx (load_ctx c y s) = idle_ctx s"
  "saved_ctx y s = Some r \<Longrightarrow> exec (load_ctx c y s) = (exec s)(c := y)"
  "saved_ctx y s = Some r \<Longrightarrow> regs (load_ctx c y s) = (regs s)(c := r)"
  by (cases "saved_ctx y s"; simp add: load_ctx_def)+

lemma context_switch_simps:
  assumes "y = Idle d \<or> (\<exists>m. y = Thr m \<and> threads s m \<noteq> None)"
  shows "num_cpus (context_switch c x y gs s) = num_cpus s"
    "cpu_queues (context_switch c x y gs s) = cpu_queues s"
    "futex_locks (context_switch c x y gs s) = futex_locks s"
    "thread_lock (context_switch c x y gs s) = thread_lock s"
    "pending_unlock (context_switch c x y gs s) = pending_unlock s"
    "exec (context_switch c x y gs s) = (exec s)(c := y)"
    "frames (context_switch c x y gs s) = (frames s)(exec s c := gs)"
    "same_threads s (context_switch c x y gs s)"
    "runnable (context_switch c x y gs s) t = runnable s t"
proof -
  let ?s = "save_ctx x (regs s c) (cont c gs s)"
  have "\<exists>r. saved_ctx y ?s = Some r"
    using assms by (auto simp: saved_ctx_def save_ctx_simps)
  then obtain r where r: "saved_ctx y ?s = Some r" by blast
  note simps = context_switch_def load_ctx_simps(1-9) save_ctx_simps load_ctx_simps(10)[OF r]
  show "num_cpus (context_switch c x y gs s) = num_cpus s"
    "cpu_queues (context_switch c x y gs s) = cpu_queues s"
    "futex_locks (context_switch c x y gs s) = futex_locks s"
    "thread_lock (context_switch c x y gs s) = thread_lock s"
    "pending_unlock (context_switch c x y gs s) = pending_unlock s"
    "exec (context_switch c x y gs s) = (exec s)(c := y)"
    "frames (context_switch c x y gs s) = (frames s)(exec s c := gs)"
    by (simp_all add: simps)
  have th: "threads (context_switch c x y gs s) t =
      (if x = Thr t then map_option (\<lambda>th. th\<lparr>t_ctx := regs s c\<rparr>) (threads s t) else threads s t)" for t
    by (simp add: simps)
  have nt: "next_tid (context_switch c x y gs s) = next_tid s" by (simp add: simps)
  have "dead (context_switch c x y gs s) t = dead s t" for t
    by (cases "threads s t") (simp_all add: dead_def th)
  moreover have "map_option (\<lambda>th. (t_tid th, home_cpu th)) (threads (context_switch c x y gs s) t) =
     map_option (\<lambda>th. (t_tid th, home_cpu th)) (threads s t)" for t
    by (cases "threads s t") (simp_all add: th)
  ultimately show "same_threads s (context_switch c x y gs s)" by (simp add: same_threads_def nt)
  show "runnable (context_switch c x y gs s) t = runnable s t"
    by (cases "threads s t") (simp_all add: runnable_def th)
qed

lemma context_switch_inv:
  assumes inv: "sched_inv s" and c: "c < num_cpus s" and fr: "frames s (exec s c) = f # fs"
    and s0: "same_core s s0" "pending_unlock s0 = pending_unlock s" "futex_locks s0 = futex_locks s"
    and f: "claim (exec s c) f = self y" "pushing f = None" "holds f = None" "\<not> holds_thread_lock f"
      "inserting f = None" "at (exec s c) f (self y)"
    and y: "(\<exists>m. y = Thr m) \<or> (y = Idle c \<and> exec s c \<noteq> Idle c)"
    and stk: "stack_ok (exec s c) (g # fs)"
    and g: "case exec s c of Thr t \<Rightarrow> sleeps t g \<or> (dead s t \<and> y \<noteq> Thr t) | Idle d \<Rightarrow> g = Loop I_back | Ap d \<Rightarrow> True"
    and cur: "cq_current (cpu_queues s c) = self y"
  shows "sched_inv (context_switch c x y (g # fs) s0)"
proof -
  have "threads s m \<noteq> None" if "y = Thr m" for m
    using claimed(2)[OF inv c, of m] f(1) fr that by (auto simp: topf_def home_def)
  then have "y = Idle c \<or> (\<exists>m. y = Thr m \<and> threads s0 m \<noteq> None)"
    using y s0 by (auto simp: same_core_def)
  note sw = context_switch_simps[OF this, of c x "g # fs"]
  show ?thesis
  proof (rule switch_inv[OF inv c fr, where y = y and g = g])
    have q: "num_cpus s0 = num_cpus s" "cpu_queues s0 = cpu_queues s" "thread_lock s0 = thread_lock s"
      using s0 by (simp_all add: same_core_def)
    show "num_cpus (context_switch c x y (g # fs) s0) = num_cpus s"
      "cpu_queues (context_switch c x y (g # fs) s0) = cpu_queues s"
      "futex_locks (context_switch c x y (g # fs) s0) = futex_locks s"
      "thread_lock (context_switch c x y (g # fs) s0) = thread_lock s"
      "pending_unlock (context_switch c x y (g # fs) s0) = pending_unlock s"
      by (simp_all only: sw(1-5) q s0(2,3))
    show "same_threads s (context_switch c x y (g # fs) s0)"
      using sw(8) s0 by (simp add: same_threads_def same_core_def dead_def)
    show "runnable (context_switch c x y (g # fs) s0) t = runnable s t" for t
      using sw(9)[of t] s0 by (simp add: same_core_def runnable_def)
    show "exec (context_switch c x y (g # fs) s0) = (exec s)(c := y)"
      "frames (context_switch c x y (g # fs) s0) = (frames s)(exec s c := g # fs)"
      using sw(6,7) s0 by (simp_all add: same_core_def)
  qed (fact f y stk g cur)+
qed

section \<open>Rescue\<close>

lemma step_rescue_inv:
  assumes inv: "sched_inv s" and c: "c < num_cpus s" and fr: "frames s (exec s c) = Rescue p # fs"
    and st: "step_rescue p fs c s = Some s'"
  shows "sched_inv s'"
proof -
  note stk = exec_stack[OF inv c fr]
  note pop = stack_pop[OF stk(1) bottom_Rescue]
  show ?thesis
  proof (cases p)
    case (R_scan i)
    have pl: "plain (exec s c) (Rescue (R_scan j))" "plain (exec s c) (Rescue (R_lock j a))" for j a
      by (simp_all add: plain_def)
    have go: "sched_inv (cont c (Rescue g # fs) s1)"
      if "g = R_scan (i + 1) \<or> (\<exists>a. g = R_lock i a)" "same_core s s1" "pending_unlock s1 = pending_unlock s"
        "futex_locks s1 = futex_locks s" for g s1
      using that pl R_scan pop(3) by (intro goto_inv[OF inv c fr]) auto
    show ?thesis
    proof (cases "MAX_THREADS \<le> i")
      case True
      then show ?thesis using st R_scan pl by (auto intro!: pop_inv[OF inv c fr] simp: same_core_def)
    next
      case False
      show ?thesis
        using st R_scan False
        by (auto simp: Let_def same_core_def split: if_splits option.splits intro!: go)
    qed
  next
    case (R_lock i a)
    have pl: "plain (exec s c) (Rescue (R_lock i a))" "plain (exec s c) (Rescue (R_tlock i a))"
      by (simp_all add: plain_def)
    show ?thesis
      using st R_lock pl pop(3)
      by (auto simp: lock_bucket_def same_core_def split: if_splits intro!: goto_inv[OF inv c fr])
  next
    case (R_tlock i a)
    have pl: "plain (exec s c) (Rescue (R_tlock i a))" "plain (exec s c) (Rescue (R_scan (i + 1)))"
      by (simp_all add: plain_def)
    have lk: "futex_locks s (futex_bucket a)" using R_tlock by (intro holds_locked[OF inv c fr]) simp
    have free: "\<not> thread_lock s" using st R_tlock by (auto split: if_splits)
    have skip: "sched_inv (cont c (Rescue (R_scan (i + 1)) # fs) (unlock_rescue a s))"
      using pl pop(3) R_tlock lk free
      by (intro goto_inv[OF inv c fr]) (auto simp: unlock_rescue_def unlock_bucket_def same_core_def)
    show ?thesis
    proof (cases "\<exists>th. threads s i = Some th \<and> t_state th = Blocked")
      case False
      then show ?thesis using st R_tlock free skip by (auto simp: Let_def split: option.splits if_splits)
    next
      case True
      then obtain th where th: "threads s i = Some th" "t_state th = Blocked" by blast
      let ?s1 = "upd_thread i (rescue_thread (clock_ns s)) (s\<lparr>thread_lock := True\<rparr>)"
      have s': "s' = cont c (Rescue (R_push i a) # fs) ?s1" using st R_tlock free th by simp
      show ?thesis unfolding s'
      proof (rule cont_inv[OF inv c fr])
        show "same_threads s ?s1"
          using th upd_thread_same[of "rescue_thread (clock_ns s)" s i]
          by (simp add: same_threads_def upd_thread_def dead_def rescue_thread_def)
      qed (use stk(2) pop(3) R_tlock free th silent_pending[OF inv c fr] in
          \<open>auto simp: upd_thread_def qtok_def runnable_def rescue_thread_def\<close>)
    qed
  next
    case (R_push i a)
    obtain th where th: "threads s i = Some th"
      using sched_invD(8)[OF inv c] fr R_push by (auto simp: topf_def)
    have home: "home_cpu th < num_cpus s" "t_tid th = i"
      using sched_invD(3)[OF inv] th by (auto simp: threads_ok_def)
    let ?s1 = "push_tid (home_cpu th) i s"
    have notin: "i \<notin> set (cq_queue (cpu_queues s (home_cpu th)))"
      using R_push by (intro unqueued(1)[OF inv c fr _ home(1)]) simp
    have s': "s' = cont c (Rescue (R_ipi i a (home_cpu th)) # fs) ?s1"
      using st R_push th notin home sched_invD(2)[OF inv] by (simp add: Let_def)
    show ?thesis unfolding s'
      by (rule cont_inv[OF inv c fr])
        (use stk(2) pop(3) R_push th home silent_pending[OF inv c fr] in
          \<open>auto simp: qtok_push runnable_def same_threads_def dead_def home_def split: if_splits\<close>)
  next
    case (R_ipi i a tg)
    have lk: "futex_locks s (futex_bucket a)" using R_ipi by (intro holds_locked[OF inv c fr]) simp
    have tl: "thread_lock s" using R_ipi by (intro holds_thread_locked[OF inv c fr]) simp
    let ?s1 = "unlock_rescue a (if tg \<noteq> c then send_ipi tg s else s)"
    have s': "s' = cont c (Rescue (R_scan (i + 1)) # fs) ?s1" using st R_ipi by simp
    show ?thesis unfolding s'
      by (rule cont_inv[OF inv c fr])
        (use stk(2) pop(3) R_ipi lk tl silent_pending[OF inv c fr] in
          \<open>auto simp: unlock_rescue_def unlock_bucket_def send_ipi_def qtok_def runnable_def
             same_threads_def dead_def split: if_splits\<close>)
  qed
qed

section \<open>Yield\<close>

lemma pending_locked:
  assumes "sched_inv s" "c < num_cpus s" "pending_unlock s c = Some b"
  shows "futex_locks s b"
proof -
  have "lholds s b c \<le> (\<Sum>d<num_cpus s. lholds s b d)" using assms(2) by (rule le_sum)
  also have "\<dots> = of_bool (futex_locks s b)" using sched_invD(5)[OF assms(1)] unfolding locks_ok_def by blast
  finally show ?thesis using assms(3) by (cases "futex_locks s b") (simp_all add: lholds_def)
qed

lemma release_inv:
  assumes inv: "sched_inv s" and c: "c < num_cpus s" and fr: "frames s (exec s c) = f # fs"
    and f: "plain (exec s c) f" "holds f = None"
    and g: "plain (exec s c) g" "holds g = None" and stk: "stack_ok (exec s c) (g # gs)"
  shows "sched_inv (cont c (g # gs) (release_pending_unlock c s))"
proof -
  note x = exec_stack[OF inv c fr]
  let ?s1 = "release_pending_unlock c s"
  have eq: "num_cpus ?s1 = num_cpus s" "exec ?s1 = exec s" "frames ?s1 = frames s" "threads ?s1 = threads s"
    "cpu_queues ?s1 = cpu_queues s" "next_tid ?s1 = next_tid s" "thread_lock ?s1 = thread_lock s"
    "pending_unlock ?s1 = (pending_unlock s)(c := None)"
    by (auto simp: release_pending_unlock_def unlock_bucket_def split: option.splits)
  have lk: "of_bool (futex_locks s b) = of_bool (pending_unlock s c = Some b) + (of_bool (futex_locks ?s1 b) :: nat)" for b
    using pending_locked[OF inv c, of b]
    by (cases "pending_unlock s c") (auto simp: release_pending_unlock_def unlock_bucket_def)
  show ?thesis
  proof (rule cont_inv[OF inv c fr])
    show "same_threads s ?s1" by (simp add: eq same_threads_eq)
    show "point_ok ?s1 g" using g(1) by (rule plain_point)
    show "stack_ok (exec s c) (g # gs)" by (rule stk)
  qed (use x(2) f g lk in \<open>simp_all add: eq plain_def qtok_def runnable_def\<close>)
qed

lemma yield_frame [simp]:
  "claim x (Yield Y_entry) = self x" "claim x (Yield Y_lock) = self x"
  "claim x (Yield Y_resumed) = self x"
  by (cases x; simp)+

lemma queue_head:
  assumes inv: "sched_inv s" and c: "c < num_cpus s" and q: "cq_queue (cpu_queues s c) = m # ts"
  shows "home s m c" "threads s m \<noteq> None" "\<And>t. t \<in> set ts \<Longrightarrow> home s t c" "1 \<le> qtok s m"
proof -
  show "home s m c" "\<And>t. t \<in> set ts \<Longrightarrow> home s t c"
    using sched_invD(7)[OF inv c] q by (simp_all add: place_ok_def)
  then show "threads s m \<noteq> None" by (auto simp: home_def)
  show "1 \<le> qtok s m"
    using le_sum[OF c, of "\<lambda>e. count_list (cq_queue (cpu_queues s e)) m"] q by (simp add: qtok_def)
qed

text \<open>Taking the head of the own run queue moves its token to the program point.\<close>

lemma pop_queue_inv:
  assumes inv: "sched_inv s" and c: "c < num_cpus s" and fr: "frames s (exec s c) = f # fs" and f: "silent f"
    and q: "cq_queue (cpu_queues s c) = m # ts"
    and eq: "num_cpus s1 = num_cpus s" "exec s1 = exec s" "frames s1 = frames s" "threads s1 = threads s"
      "next_tid s1 = next_tid s" "thread_lock s1 = thread_lock s" "pending_unlock s1 = pending_unlock s"
      "futex_locks s1 = futex_locks s" "cpu_queues s1 = (cpu_queues s)(c := q')" "cq_queue q' = ts @ us"
    and us: "\<And>t. count_list us t = of_bool (claim (exec s c) f = Some t)"
    and f': "pushing f = None" "\<not> holds_thread_lock f" "inserting f = None"
    and g: "claim (exec s c) g = Some m" "pushing g = None" "\<not> holds_thread_lock g" "inserting g = None"
      "holds g = holds f" "at (exec s c) g (cq_current q')" "point_ok s g"
    and stk: "stack_ok (exec s c) (g # gs)"
  shows "sched_inv (cont c (g # gs) s1)"
proof -
  note m = queue_head[OF inv c q]
  have pend: "pending_unlock s c = None" by (rule silent_pending[OF inv c fr f])
  have usc: "home s t c" if "t \<in> set us" for t
  proof -
    have "0 < count_list us t" using that count_list_0_iff[of us t] by (cases "count_list us t") auto
    then have "claim (exec s c) (topf s c) = Some t" using us[of t] fr by (cases "claim (exec s c) f = Some t") (auto simp: topf_def)
    then show ?thesis by (rule claimed(2)[OF inv c])
  qed
  show ?thesis
  proof (rule cont_inv[OF inv c fr])
    show "same_threads s s1" by (simp add: eq same_threads_eq)
    show "stack_ok (exec s c) (g # gs)" by (rule stk)
    show "at (exec s c) g (cq_current (cpu_queues s1 c))" using g(6) by (simp add: eq(9))
    show "t \<in> set (cq_queue (cpu_queues s d)) \<or> home s t d"
      if "d < num_cpus s" "t \<in> set (cq_queue (cpu_queues s1 d))" for d t
    proof (cases "d = c")
      case True
      then have "t \<in> set ts \<or> t \<in> set us" using that(2) eq(9,10) by simp
      then show ?thesis using True m(3)[of t] usc[of t] by blast
    next
      case False
      then show ?thesis using that(2) by (simp add: eq)
    qed
    show "point_ok s1 g" using g(7) eq by (cases "(s, g)" rule: point_ok.cases) (simp_all add: home_def dead_def unstarted_def)
    show "qtok s1 t + of_bool (claim (exec s c) g = Some t) + of_bool (pushing g = Some t) + of_bool (runnable s t) =
        qtok s t + of_bool (claim (exec s c) f = Some t) + of_bool (pushing f = Some t) + of_bool (runnable s1 t)" for t
    proof -
      have "qtok s1 t + of_bool (t = m) = qtok s t + of_bool (claim (exec s c) f = Some t)"
        using qtok_own[OF c, of "\<lambda>_. q'" t] q us[of t] by (auto simp: eq qtok_def split: if_splits)
      moreover have "runnable s1 t = runnable s t" by (simp add: runnable_def eq)
      ultimately show ?thesis using g(1,2) f'(1) by (auto split: if_splits)
    qed
    show "claim (exec s c) f = Some t \<or> home s t c" if "claim (exec s c) g = Some t" for t
      using that g(1) m(1) by simp
  qed (use pend f' g(3-5) in \<open>simp_all add: eq\<close>)
qed

lemma push_call_stack:
  assumes "stack_ok x (f # fs)" "\<not> bottom x f" "lower x f2"
  shows "stack_ok x (f1 # f2 # fs)"
  using assms by (cases fs) (auto simp: stack_ok_def)

lemma yield_entry_inv:
  assumes inv: "sched_inv s" and c: "c < num_cpus s" and fr: "frames s (exec s c) = Yield Y_entry # fs"
  shows "sched_inv (cont c (Rescue (R_scan 0) # Yield Y_lock # fs) s)"
proof -
  note x = exec_stack[OF inv c fr]
  have pl: "plain (exec s c) (Yield Y_entry)" "lower (exec s c) (Yield Y_lock)"
    using x(2) by (cases "exec s c"; simp add: plain_def)+
  show ?thesis
    by (rule goto_inv[OF inv c fr])
      (use pl push_call_stack[OF x(1) bottom_simps(1) pl(2)] in \<open>simp_all add: same_core_def plain_def silent_def\<close>)
qed

lemma yield_lock_inv:
  assumes inv: "sched_inv s" and c: "c < num_cpus s" and fr: "frames s (exec s c) = Yield Y_lock # fs"
    and st: "step_yield Y_lock fs c s = Some s'"
  shows "sched_inv s'"
proof -
  note x = exec_stack[OF inv c fr]
  note pop = stack_pop[OF x(1) bottom_simps(1)]
  have pl: "plain (exec s c) (Yield Y_lock)" using x(2) by (cases "exec s c") (simp_all add: plain_def)
  have cur: "cq_current (cpu_queues s c) = self (exec s c)" using x(2) pl by (simp add: plain_def)
  have si: "silent (Yield Y_lock)" by (simp add: silent_def)
  show ?thesis
  proof (cases "cq_queue (cpu_queues s c)")
    case Nil
    have "sched_inv (cont c fs s)"
      by (rule pop_inv[OF inv c fr]) (use pl si in \<open>simp_all add: same_core_def\<close>)
    then show ?thesis using st Nil by (auto simp: Let_def split: option.splits)
  next
    case (Cons m ts)
    note m = queue_head[OF inv c Cons]
    then obtain th where th: "threads s m = Some th" by auto
    show ?thesis
    proof (cases "exec s c")
      case (Thr t)
      let ?q = "(cpu_queues s c)\<lparr>cq_current := Some m, cq_queue := ts @ [t]\<rparr>"
      have s': "s' = cont c (Yield (Y_switch t m (kstack_of s m)) # fs) (upd_queue c (\<lambda>_. ?q) s)"
        using st cur Cons Thr by (simp add: Let_def)
      show ?thesis unfolding s'
        by (rule pop_queue_inv[OF inv c fr si Cons, where us = "[t]" and q' = ?q]) (use Thr pop(3) in simp_all)
    next
      case (Idle d)
      then show ?thesis using x(2) by simp
    next
      case (Ap d)
      let ?q = "(cpu_queues s c)\<lparr>cq_current := Some m, cq_queue := ts, cq_idle := False\<rparr>"
      let ?k = "set_current_kernel_stack c (kernel_stack_top th)"
      have s': "s' = cont c (Yield (Y_jump m) # fs) (?k (upd_queue c (\<lambda>_. ?q) s))"
        using st cur Cons Ap th by (simp add: Let_def)
      show ?thesis unfolding s'
        by (rule pop_queue_inv[OF inv c fr si Cons, where us = "[]" and q' = ?q]) (use Ap pop(3) in simp_all)
    qed
  qed
qed

lemma yield_switch_inv:
  assumes inv: "sched_inv s" and c: "c < num_cpus s" and fr: "frames s (exec s c) = Yield (Y_switch cur m k) # fs"
    and st: "step_yield (Y_switch cur m k) fs c s = Some s'"
  shows "sched_inv s'"
proof -
  note x = exec_stack[OF inv c fr]
  note pop = stack_pop[OF x(1) bottom_simps(1)]
  have t: "exec s c = Thr cur" "cq_current (cpu_queues s c) = Some m" using x(2) by (cases "exec s c"; simp)+
  have "home s m c" "home s cur c"
    using sched_invD(6,7)[OF inv c] fr t by (simp_all add: place_ok_def exec_ok_def topf_def)
  then have "\<not> (threads s cur = None \<or> threads s m = None)" by (auto simp: home_def)
  then have s': "s' = context_switch c (Thr cur) (Thr m) (Yield Y_resumed # fs) (set_current_kernel_stack c k s)"
    using st by (simp add: Let_def split: if_splits)
  have core: "same_core s (set_current_kernel_stack c k s)" by (simp add: same_core_def)
  show ?thesis unfolding s'
    by (rule context_switch_inv[OF inv c fr core]) (use t pop(3) in simp_all)
qed

lemma yield_jump_inv:
  assumes inv: "sched_inv s" and c: "c < num_cpus s" and fr: "frames s (exec s c) = Yield (Y_jump m) # fs"
  shows "sched_inv (load_ctx c (Thr m) (cont c fs s))"
proof -
  note x = exec_stack[OF inv c fr]
  note pop = stack_pop[OF x(1) bottom_simps(1)]
  obtain d where d: "exec s c = Ap d" "cq_current (cpu_queues s c) = Some m" using x(2) by (cases "exec s c") auto
  have "home s m c" using sched_invD(7)[OF inv c] fr d by (simp add: place_ok_def topf_def)
  then have "threads (cont c fs s) m \<noteq> None" by (auto simp: home_def)
  then obtain r where r: "saved_ctx (Thr m) (cont c fs s) = Some r" by (auto simp: saved_ctx_def)
  obtain g gs where fs: "fs = g # gs" using pop(2) by blast
  note ex = load_ctx_simps(10)[OF r, of c]
  show ?thesis
    by (rule switch_inv[OF inv c fr, where y = "Thr m" and g = g and gs = gs])
       (use d pop(1) ex fs in \<open>simp_all add: load_ctx_simps(1-9) same_threads_def dead_def runnable_def\<close>)
qed

lemma yield_resumed_inv:
  assumes inv: "sched_inv s" and c: "c < num_cpus s" and fr: "frames s (exec s c) = Yield Y_resumed # fs"
  shows "sched_inv (cont c fs (release_pending_unlock c s))"
proof -
  note x = exec_stack[OF inv c fr]
  note pop = stack_pop[OF x(1) bottom_simps(1)]
  obtain g gs where fs: "fs = g # gs" "lower (exec s c) g" using pop(2) by blast
  have "plain (exec s c) (Yield Y_resumed)" using x(2) by (cases "exec s c") (simp_all add: plain_def)
  then show ?thesis
    unfolding fs(1) using lower_plain[OF fs(2)] pop(1)
    by (intro release_inv[OF inv c fr]) (simp_all add: fs(1))
qed

lemma step_yield_inv:
  assumes inv: "sched_inv s" and c: "c < num_cpus s" and fr: "frames s (exec s c) = Yield p # fs"
    and st: "step_yield p fs c s = Some s'"
  shows "sched_inv s'"
proof (cases p)
  case Y_entry
  then show ?thesis using st fr yield_entry_inv[OF inv c, of fs] by simp
next
  case Y_lock
  then show ?thesis using st fr yield_lock_inv[OF inv c, of fs s'] by simp
next
  case (Y_jump m)
  then show ?thesis using st fr yield_jump_inv[OF inv c, of m fs] by simp
next
  case (Y_switch cur m k)
  then show ?thesis using st fr yield_switch_inv[OF inv c, of cur m k fs s'] by simp
next
  case Y_resumed
  then show ?thesis using st fr yield_resumed_inv[OF inv c, of fs] by simp
qed

section \<open>Wait\<close>

lemma at_thread:
  "at x (Wait w) cur \<Longrightarrow> \<exists>t. x = Thr t" "at x (Wake k) cur \<Longrightarrow> \<exists>t. x = Thr t"
  "at x (Spawn p) cur \<Longrightarrow> \<exists>t. x = Thr t" "at x (Exit e) cur \<Longrightarrow> \<exists>t. x = Thr t"
  "at x User cur \<Longrightarrow> \<exists>t. x = Thr t" "at x Check_resched cur \<Longrightarrow> \<exists>t. x = Thr t"
  "at x Resched cur \<Longrightarrow> \<exists>t. x = Thr t"
  by (cases x; simp)+

lemma return_val_Thr:
  "exec s c = Thr t \<Longrightarrow> return_val c v fs s = cont c fs (s\<lparr>result := (result s)(t := v)\<rparr>)"
  by (simp add: return_val_def)

lemma lock_simps [simp]:
  "threads (lock_bucket b s) = threads s" "num_cpus (lock_bucket b s) = num_cpus s"
  "exec (lock_bucket b s) = exec s" "frames (lock_bucket b s) = frames s"
  "next_tid (lock_bucket b s) = next_tid s" "pending_unlock (lock_bucket b s) = pending_unlock s"
  "futex_locks (lock_bucket b s) = (futex_locks s)(b := True)" "thread_lock (lock_bucket b s) = thread_lock s"
  "cpu_queues (lock_bucket b s) = cpu_queues s"
  "threads (unlock_bucket b s) = threads s" "num_cpus (unlock_bucket b s) = num_cpus s"
  "exec (unlock_bucket b s) = exec s" "frames (unlock_bucket b s) = frames s"
  "next_tid (unlock_bucket b s) = next_tid s" "pending_unlock (unlock_bucket b s) = pending_unlock s"
  "futex_locks (unlock_bucket b s) = (futex_locks s)(b := False)" "thread_lock (unlock_bucket b s) = thread_lock s"
  "cpu_queues (unlock_bucket b s) = cpu_queues s"
  by (simp_all add: lock_bucket_def unlock_bucket_def)

text \<open>Steps of a thread between program points at which it is the current thread.\<close>

lemma thread_goto_inv:
  assumes inv: "sched_inv s" and c: "c < num_cpus s" and fr: "frames s (exec s c) = f # fs"
    and core: "same_core s s1" "pending_unlock s1 = pending_unlock s"
    and f: "plain (exec s c) f" "silent f" "\<not> bottom (exec s c) f" and g: "plain (exec s c) g"
    and lk: "\<And>b. of_bool (holds g = Some b) + of_bool (futex_locks s b) =
               (of_bool (holds f = Some b) + of_bool (futex_locks s1 b) :: nat)"
  shows "sched_inv (cont c (g # fs) s1)"
  using stack_pop(3)[OF exec_stack(1)[OF inv c fr] f(3)] by (intro goto_inv[OF inv c fr core f(1,2) g _ lk])

lemma silent_wait [simp]:
  "silent (Wait (W_entry a v d))" "silent (Wait (W_lock a v d))" "silent (Wait (W_check a v d))"
  "silent (Wait (W_valve a v d))" "silent (Wait (W_mark a v d))" "silent (Wait (W_pick b t))"
  "silent (Wait (W_handoff b t sw))" "silent (Wait (W_finish t))" "silent (Wait W_return)"
  by (simp_all add: silent_def)

lemma wait_early_inv:
  assumes inv: "sched_inv s" and c: "c < num_cpus s" and fr: "frames s (exec s c) = Wait p # fs"
    and p: "p = W_entry addr v d \<or> p = W_lock addr v d \<or> p = W_check addr v d \<or> p = W_valve addr v d"
    and st: "step_wait p fs c s = Some s'"
  shows "sched_inv s'"
proof -
  note x = exec_stack[OF inv c fr]
  obtain t where t: "exec s c = Thr t" using at_thread(1)[OF x(2)] by blast
  have lk: "holds (Wait p) = Some (futex_bucket addr) \<Longrightarrow> futex_locks s (futex_bucket addr)"
    by (rule holds_locked[OF inv c fr])
  have pl: "plain (exec s c) (Wait p)" "silent (Wait p)" using p by (auto simp: plain_def t)
  have spin: "sched_inv (cont c (Yield Y_entry # Wait W_return # fs) s1)"
    if "same_core s s1" "pending_unlock s1 = pending_unlock s"
      "\<And>b. of_bool (futex_locks s b) = (of_bool (holds (Wait p) = Some b) + of_bool (futex_locks s1 b) :: nat)" for s1
    by (rule goto_inv[OF inv c fr that(1,2)])
      (use that(3) pl push_call_stack[OF x(1) bottom_simps(2)] in \<open>simp_all add: plain_def t\<close>)
  note go = thread_goto_inv[OF inv c fr]
  note ret = pop_inv[OF inv c fr]
  from p show ?thesis
  proof (elim disjE)
    assume p: "p = W_entry addr v d"
    show ?thesis
      using st pl p spin[of s] by (auto simp: same_core_def plain_def t split: if_splits intro!: go)
  next
    assume p: "p = W_lock addr v d"
    then show ?thesis
      using st pl by (auto simp: same_core_def plain_def t split: if_splits intro!: go)
  next
    assume p: "p = W_check addr v d"
    then show ?thesis
      using st pl lk by (auto simp: same_core_def plain_def t Let_def return_val_Thr split: if_splits prod.splits intro!: go ret)
  next
    assume p: "p = W_valve addr v d"
    then show ?thesis
      using st pl lk by (auto simp: same_core_def plain_def t split: if_splits intro!: go spin)
  qed
qed

lemma upd_thread_simps [simp]:
  "num_cpus (upd_thread t f s) = num_cpus s" "exec (upd_thread t f s) = exec s"
  "frames (upd_thread t f s) = frames s" "next_tid (upd_thread t f s) = next_tid s"
  "pending_unlock (upd_thread t f s) = pending_unlock s" "futex_locks (upd_thread t f s) = futex_locks s"
  "thread_lock (upd_thread t f s) = thread_lock s" "cpu_queues (upd_thread t f s) = cpu_queues s"
  by (simp_all add: upd_thread_def)

lemma wait_mark_inv:
  assumes inv: "sched_inv s" and c: "c < num_cpus s" and fr: "frames s (exec s c) = Wait (W_mark addr v d) # fs"
    and st: "step_wait (W_mark addr v d) fs c s = Some s'"
  shows "sched_inv s'"
proof -
  note x = exec_stack[OF inv c fr]
  note pop = stack_pop[OF x(1) bottom_simps(2)]
  obtain t where t: "exec s c = Thr t" using at_thread(1)[OF x(2)] by blast
  then have cur: "cq_current (cpu_queues s c) = Some t" using x(2) by simp
  have pend: "pending_unlock s c = None" by (rule silent_pending[OF inv c fr]) simp
  have run: "runnable s t" using t fr by (intro claimed(1)[OF inv c]) (simp add: topf_def)
  then obtain th where th: "threads s t = Some th" "t_state th \<noteq> Dead"
    by (auto simp: runnable_def split: option.splits)
  let ?s1 = "upd_thread t (block_thread addr v d (clock_ns s)) s"
  have s': "s' = cont c (Wait (W_pick (futex_bucket addr) t) # fs) ?s1" using st cur by simp
  have same: "same_threads s ?s1" using th by (intro upd_thread_same) (simp_all add: block_thread_def)
  have run1: "runnable ?s1 u = (runnable s u \<and> u \<noteq> t)" for u
    using th by (auto simp: runnable_def upd_thread_def block_thread_def)
  show ?thesis unfolding s'
    by (rule cont_inv[OF inv c fr _ _ _ _ _ same])
      (use t cur pend run pop(3) in \<open>simp_all add: run1 qtok_def\<close>)
qed

lemma wait_pick_inv:
  assumes inv: "sched_inv s" and c: "c < num_cpus s" and fr: "frames s (exec s c) = Wait (W_pick b bt) # fs"
    and st: "step_wait (W_pick b bt) fs c s = Some s'"
  shows "sched_inv s'"
proof -
  note x = exec_stack[OF inv c fr]
  note pop = stack_pop[OF x(1) bottom_simps(2)]
  have t: "exec s c = Thr bt" using x(2) at_thread(1)[OF x(2)] by auto
  have pend: "pending_unlock s c = None" by (rule silent_pending[OF inv c fr]) simp
  show ?thesis
  proof (cases "cq_queue (cpu_queues s c)")
    case Nil
    let ?q = "(cpu_queues s c)\<lparr>cq_current := None, cq_idle := True\<rparr>"
    have s': "s' = cont c (Wait (W_handoff b bt None) # fs) (upd_queue c (\<lambda>_. ?q) s)"
      using st Nil by (simp add: Let_def)
    have q: "qtok (upd_queue c (\<lambda>_. ?q) s) u = qtok s u" for u using qtok_own[OF c, of "\<lambda>_. ?q" u] by simp
    show ?thesis unfolding s'
      by (rule cont_inv[OF inv c fr])
        (use t pend pop(3) Nil in \<open>simp_all add: q same_threads_eq runnable_def split: if_splits\<close>)
  next
    case (Cons m ts)
    let ?q = "(cpu_queues s c)\<lparr>cq_current := Some m, cq_queue := ts\<rparr>"
    have s': "s' = cont c (Wait (W_handoff b bt (Some (m, kstack_of s m))) # fs) (upd_queue c (\<lambda>_. ?q) s)"
      using st Cons by (simp add: Let_def)
    show ?thesis unfolding s'
      by (rule pop_queue_inv[OF inv c fr _ Cons, where us = "[]" and q' = ?q]) (use t pop(3) in simp_all)
  qed
qed

lemma wait_handoff_inv:
  assumes inv: "sched_inv s" and c: "c < num_cpus s" and fr: "frames s (exec s c) = Wait (W_handoff b bt sw) # fs"
  shows "sched_inv (cont c (Wait (W_switch bt sw) # fs) (s\<lparr>pending_unlock := (pending_unlock s)(c := Some b)\<rparr>))"
proof -
  note x = exec_stack[OF inv c fr]
  note pop = stack_pop[OF x(1) bottom_simps(2)]
  have t: "exec s c = Thr bt" using x(2) at_thread(1)[OF x(2)] by auto
  have pend: "pending_unlock s c = None" by (rule silent_pending[OF inv c fr]) simp
  show ?thesis
    by (rule cont_inv[OF inv c fr])
      (use x(2) t pend pop(3) in \<open>simp_all add: same_threads_eq runnable_def qtok_def\<close>)
qed

lemma wait_switch_inv:
  assumes inv: "sched_inv s" and c: "c < num_cpus s" and fr: "frames s (exec s c) = Wait (W_switch bt sw) # fs"
    and st: "step_wait (W_switch bt sw) fs c s = Some s'"
  shows "sched_inv s'"
proof -
  note x = exec_stack[OF inv c fr]
  note pop = stack_pop[OF x(1) bottom_simps(2)]
  have t: "exec s c = Thr bt" using x(2) at_thread(1)[OF x(2)] by auto
  have cur: "cq_current (cpu_queues s c) = map_option fst sw" using x(2) t by simp
  have hb: "threads s bt \<noteq> None" using sched_invD(6)[OF inv c] t by (auto simp: exec_ok_def home_def)
  show ?thesis
  proof (cases sw)
    case None
    then have s': "s' = context_switch c (Thr bt) (Idle c) (Wait (W_resumed bt) # fs) s"
      using st hb by simp
    have core: "same_core s s" by (simp add: same_core_def)
    show ?thesis unfolding s'
      by (rule context_switch_inv[OF inv c fr core]) (use t cur None pop(3) in simp_all)
  next
    case (Some mk)
    obtain m k where mk: "mk = (m, k)" by fastforce
    have "home s m c" using sched_invD(7)[OF inv c] fr t Some mk by (simp add: place_ok_def topf_def)
    then have "\<not> (threads s bt = None \<or> threads s m = None)" using hb by (auto simp: home_def)
    then have s': "s' = context_switch c (Thr bt) (Thr m) (Wait (W_resumed bt) # fs) (set_current_kernel_stack c k s)"
      using st Some mk by (simp add: Let_def split: if_splits)
    have core: "same_core s (set_current_kernel_stack c k s)" by (simp add: same_core_def)
    show ?thesis unfolding s'
      by (rule context_switch_inv[OF inv c fr core]) (use t cur Some mk pop(3) in simp_all)
  qed
qed

lemma wait_end_inv:
  assumes inv: "sched_inv s" and c: "c < num_cpus s" and fr: "frames s (exec s c) = Wait p # fs"
    and p: "p = W_resumed bt \<or> p = W_finish bt \<or> p = W_return"
    and st: "step_wait p fs c s = Some s'"
  shows "sched_inv s'"
proof -
  note x = exec_stack[OF inv c fr]
  note pop = stack_pop[OF x(1) bottom_simps(2)]
  obtain t where t: "exec s c = Thr t" using at_thread(1)[OF x(2)] by blast
  from p show ?thesis
  proof (elim disjE)
    assume p: "p = W_resumed bt"
    have "sched_inv (cont c (Wait (W_finish bt) # fs) (release_pending_unlock c s))"
      by (rule release_inv[OF inv c fr]) (use x(2) p t pop(3) in \<open>auto simp: plain_def\<close>)
    then show ?thesis using st p by simp
  next
    assume p: "p = W_finish bt"
    then have bt: "bt = t" "cq_current (cpu_queues s c) = Some t" using x(2) t by auto
    then obtain th where th: "threads s t = Some th"
      using sched_invD(6)[OF inv c] t by (auto simp: exec_ok_def home_def)
    let ?f = "\<lambda>th. th\<lparr>wait_timed_out := False, wait_deadline_ns := 0\<rparr>"
    let ?v = "if wait_timed_out th then - 110 else 0 :: int"
    let ?s1 = "(upd_thread t ?f s)\<lparr>result := (result s)(t := ?v)\<rparr>"
    have s': "s' = cont c fs ?s1" using st p bt th t by (simp add: return_val_Thr upd_thread_def)
    obtain g gs where fs: "fs = g # gs" "lower (exec s c) g" using pop(2) by blast
    note g = lower_plain[OF fs(2)]
    have pend: "pending_unlock s c = None" using p by (intro silent_pending[OF inv c fr]) simp
    have same: "same_threads s ?s1"
      using upd_thread_same[of ?f s t] by (simp add: same_threads_def dead_def upd_thread_def)
    have run: "runnable ?s1 u = runnable s u" for u using th by (auto simp: runnable_def upd_thread_def)
    show ?thesis unfolding s' fs(1)
      by (rule cont_inv[OF inv c fr _ _ _ _ _ same])
        (use g p t bt pend pop(1) fs plain_point[of "exec s c" g] run in
          \<open>simp_all add: plain_def upd_thread_def qtok_def\<close>)
  next
    assume p: "p = W_return"
    have "sched_inv (cont c fs (s\<lparr>result := (result s)(t := 0)\<rparr>))"
      by (rule pop_inv[OF inv c fr]) (use p t in \<open>simp_all add: plain_def same_core_def\<close>)
    then show ?thesis using st p t by (simp add: return_val_Thr)
  qed
qed

lemma step_wait_inv:
  assumes inv: "sched_inv s" and c: "c < num_cpus s" and fr: "frames s (exec s c) = Wait p # fs"
    and st: "step_wait p fs c s = Some s'"
  shows "sched_inv s'"
proof (cases p)
  case (W_mark a v d)
  then show ?thesis using st fr wait_mark_inv[OF inv c, of a v d fs s'] by simp
next
  case (W_pick b t)
  then show ?thesis using st fr wait_pick_inv[OF inv c, of b t fs s'] by simp
next
  case (W_handoff b t sw)
  then show ?thesis using st fr wait_handoff_inv[OF inv c, of b t sw fs] by simp
next
  case (W_switch t sw)
  then show ?thesis using st fr wait_switch_inv[OF inv c, of t sw fs s'] by simp
qed (rule wait_early_inv[OF inv c fr _ st] wait_end_inv[OF inv c fr _ st]; simp)+

section \<open>Wake, exit, idle\<close>

lemma step_wake_inv:
  assumes inv: "sched_inv s" and c: "c < num_cpus s" and fr: "frames s (exec s c) = Wake p # fs"
    and st: "step_wake p fs c s = Some s'"
  shows "sched_inv s'"
proof -
  note x = exec_stack[OF inv c fr]
  note pop = stack_pop[OF x(1) bottom_simps(3)]
  obtain t where t: "exec s c = Thr t" using at_thread(2)[OF x(2)] by blast
  have cur: "cq_current (cpu_queues s c) = Some t" using x(2) t by (cases p) auto
  have pend: "pending_unlock s c = None" by (rule silent_pending[OF inv c fr]) simp
  show ?thesis
  proof (cases p)
    case (K_lock a n)
    then show ?thesis
      using st by (auto simp: same_core_def plain_def t split: if_splits intro!: thread_goto_inv[OF inv c fr])
  next
    case (K_tlock a n)
    have "sched_inv (cont c (Wake (K_scan a n 0 0) # fs) (s\<lparr>thread_lock := True\<rparr>))" if "\<not> thread_lock s"
      by (rule cont_inv[OF inv c fr])
        (use t cur pend pop(3) K_tlock that in \<open>simp_all add: same_threads_eq qtok_def runnable_def\<close>)
    then show ?thesis using st K_tlock by (auto split: if_splits)
  next
    case (K_scan a n i w)
    have go: "sched_inv (cont c (g # fs) s)" if "g = Wake (K_scan a n (i + 1) w) \<or> g = Wake (K_end a n w)" for g
      by (rule cont_inv[OF inv c fr])
        (use t cur pend pop(3) K_scan that in \<open>auto simp: same_threads_eq\<close>)
    show ?thesis
    proof (cases "MAX_THREADS \<le> i \<or> n \<le> w \<or> (\<forall>th. threads s i = Some th \<longrightarrow> \<not> (t_state th = Blocked \<and> futex_addr th = a))")
      case True
      then show ?thesis using st K_scan by (auto split: if_splits option.splits intro: go)
    next
      case False
      then obtain th where th: "threads s i = Some th" "t_state th = Blocked" "futex_addr th = a" by blast
      have ok: "t_tid th = i" using sched_invD(3)[OF inv] th(1) by (simp add: threads_ok_def)
      let ?s1 = "upd_thread i wake_thread s"
      have s': "s' = cont c (Wake (K_push a n i (w + 1) (home_cpu th) i) # fs) ?s1"
        using st K_scan False th ok by auto
      have same: "same_threads s ?s1" using th by (intro upd_thread_same) (simp_all add: wake_thread_def)
      have run: "runnable ?s1 u = (runnable s u \<or> u = i)" "\<not> runnable s i" for u
        using th by (auto simp: runnable_def upd_thread_def wake_thread_def)
      have home: "home ?s1 i (home_cpu th)" using th by (simp add: home_def upd_thread_def wake_thread_def)
      show ?thesis unfolding s'
        by (rule cont_inv[OF inv c fr _ _ _ _ _ same])
          (use t cur pend pop(3) K_scan run(2) home in \<open>simp_all add: run(1) qtok_def\<close>)
    qed
  next
    case (K_push a n i w tg tid)
    then have pt: "home s tid tg" using sched_invD(8)[OF inv c] fr by (simp add: topf_def)
    then have tg: "tg < num_cpus s" using sched_invD(3)[OF inv] by (auto simp: home_def threads_ok_def)
    have "sched_inv (cont c (Wake (K_ipi a n i w tg) # fs) (push_tid tg tid s))"
      by (rule cont_inv[OF inv c fr])
        (use t cur pend pop(3) K_push pt tg in
          \<open>auto simp: same_threads_eq qtok_push runnable_def split: if_splits\<close>)
    then show ?thesis using st K_push by simp
  next
    case (K_ipi a n i w tg)
    let ?s1 = "if tg \<noteq> c then send_ipi tg s else s"
    have eq: "num_cpus ?s1 = num_cpus s" "exec ?s1 = exec s" "frames ?s1 = frames s" "threads ?s1 = threads s"
      "cpu_queues ?s1 = cpu_queues s" "next_tid ?s1 = next_tid s" "thread_lock ?s1 = thread_lock s"
      "pending_unlock ?s1 = pending_unlock s" "futex_locks ?s1 = futex_locks s"
      by simp_all
    have "sched_inv (cont c (Wake (K_scan a n (i + 1) w) # fs) ?s1)"
      by (rule cont_inv[OF inv c fr])
        (use t cur pend pop(3) K_ipi in \<open>simp_all only: eq\<close>, simp_all add: same_threads_eq eq qtok_def runnable_def)
    then show ?thesis using st K_ipi by simp
  next
    case (K_end a n w)
    have lk: "futex_locks s (futex_bucket a)" using K_end by (intro holds_locked[OF inv c fr]) simp
    have tl: "thread_lock s" using K_end by (intro holds_thread_locked[OF inv c fr]) simp
    obtain g gs where fs: "fs = g # gs" "lower (exec s c) g" using pop(2) by blast
    note g = lower_plain[OF fs(2)]
    obtain s1 where s1: "s' = cont c fs s1" "num_cpus s1 = num_cpus s" "exec s1 = exec s" "frames s1 = frames s"
      "threads s1 = threads s" "cpu_queues s1 = cpu_queues s" "next_tid s1 = next_tid s" "\<not> thread_lock s1"
      "pending_unlock s1 = pending_unlock s" "futex_locks s1 = (futex_locks s)(futex_bucket a := False)"
      using st K_end t by (auto simp: Let_def return_val_Thr split: if_splits)
    show ?thesis unfolding s1(1) fs(1)
      by (rule cont_inv[OF inv c fr])
        (use g t cur pend pop(1) fs K_end lk tl plain_point[of "exec s c" g] s1(8) in
          \<open>simp_all add: s1(2-7,9,10) plain_def same_threads_eq qtok_def runnable_def\<close>)
  qed
qed

lemma step_exit_inv:
  assumes inv: "sched_inv s" and c: "c < num_cpus s" and fr: "frames s (exec s c) = Exit p # fs"
    and st: "step_exit p fs c s = Some s'"
  shows "sched_inv s'"
proof -
  note x = exec_stack[OF inv c fr]
  note pop = stack_pop[OF x(1) bottom_simps(7)]
  obtain t where t: "exec s c = Thr t" using at_thread(4)[OF x(2)] by blast
  have pend: "pending_unlock s c = None" by (rule silent_pending[OF inv c fr]) simp
  show ?thesis
  proof (cases p)
    case X_take
    have cur: "cq_current (cpu_queues s c) = Some t" using x(2) t X_take by simp
    let ?f = "\<lambda>q. q\<lparr>cq_current := None, cq_idle := True\<rparr>"
    have q: "qtok (upd_queue c ?f s) u = qtok s u" for u using qtok_own[OF c, of ?f u] by simp
    have "sched_inv (cont c (Exit (X_mark (Some t)) # fs) (upd_queue c ?f s))"
      by (rule cont_inv[OF inv c fr])
        (use t pend pop(3) X_take in \<open>simp_all add: q same_threads_eq runnable_def split: if_splits\<close>)
    then show ?thesis using st X_take cur by simp
  next
    case (X_mark u)
    have u: "u = Some t" using x(2) t X_mark by simp
    have run: "runnable s t" using t fr X_mark by (intro claimed(1)[OF inv c]) (simp add: topf_def)
    then obtain th where th: "threads s t = Some th" by (auto simp: runnable_def split: option.splits)
    let ?s1 = "upd_thread t (\<lambda>th. th\<lparr>t_state := Dead\<rparr>) s"
    have same: "same_threads s ?s1" by (intro upd_thread_same) simp_all
    have run1: "runnable ?s1 v = (runnable s v \<and> v \<noteq> t)" for v
      using th by (auto simp: runnable_def upd_thread_def)
    have "sched_inv (cont c (Exit (X_switch (Some t)) # fs) ?s1)"
      by (rule cont_inv[OF inv c fr _ _ _ _ _ same])
        (use t x(2) pend run pop(3) X_mark th in
          \<open>simp_all add: run1 qtok_def, simp_all add: dead_def upd_thread_def\<close>)
    then show ?thesis using st X_mark u by simp
  next
    case (X_switch u)
    have u: "u = Some t" "cq_current (cpu_queues s c) = None" using x(2) t X_switch by simp_all
    have core: "same_core s s" by (simp add: same_core_def)
    have "dead s t" using sched_invD(8)[OF inv c] fr X_switch u by (simp add: topf_def)
    have "sched_inv (context_switch c (Thr t) (Idle c) (Exit X_stopped # fs) s)"
      by (rule context_switch_inv[OF inv c fr core]) (use t u X_switch pop(3) \<open>dead s t\<close> in simp_all)
    then show ?thesis using st X_switch u by simp
  next
    case X_stopped
    then show ?thesis using st by simp
  qed
qed

section \<open>Idle loops\<close>

lemma loop_stack:
  assumes "stack_ok x (Loop p # fs)"
  shows "stack_ok x (Loop q # fs)" "lower x (Loop q) \<Longrightarrow> stack_ok x (f # Loop q # fs)"
  using assms by (cases fs; cases x; auto simp: stack_ok_def)+

lemma loop_frames:
  assumes "at x (Loop p) cur"
  shows "(\<exists>c. x = Idle c) \<or> (\<exists>c. x = Ap c)"
  using assms by (cases x) auto

lemma silent_loop [simp]:
  "silent (Loop I_disable)" "silent (Loop I_check)" "silent (Loop I_hlt)" "silent (Loop I_pop)"
  "silent (Loop (I_set m))" "silent (Loop (I_switch m))" "silent (Loop I_clear)" "silent (Loop A_loop)"
  "silent (Loop A_hlt)"
  by (simp_all add: silent_def)

lemma step_loop_inv:
  assumes inv: "sched_inv s" and c: "c < num_cpus s" and fr: "frames s (exec s c) = Loop p # fs"
    and st: "step_loop p fs c s = Some s'"
  shows "sched_inv s'"
proof -
  note x = exec_stack[OF inv c fr]
  note stk = loop_stack[OF x(1)]
  have ex: "exec s c = Idle c \<or> exec s c = Ap c"
    using loop_frames[OF x(2)] sched_invD(6)[OF inv c] by (auto simp: exec_ok_def)
  have go: "sched_inv (cont c (g # gs) s1)"
    if "plain (exec s c) (Loop p)" "silent (Loop p)" "plain (exec s c) g" "holds g = None" "stack_ok (exec s c) (g # gs)"
      "same_core s s1" "pending_unlock s1 = pending_unlock s" "futex_locks s1 = futex_locks s" for g gs s1
    by (rule goto_inv[OF inv c fr that(6,7,1,2,3,5)]) (use that in simp)
  have rel: "sched_inv (cont c (g # gs) (release_pending_unlock c s))"
    if "plain (exec s c) (Loop p)" "plain (exec s c) g" "holds g = None" "stack_ok (exec s c) (g # gs)" for g gs
    by (rule release_inv[OF inv c fr that(1) _ that(2,3,4)]) simp
  show ?thesis
  proof (cases p)
    case I_top
    then have "exec s c = Idle c" using x(2) ex by auto
    then show ?thesis using st I_top stk(2)[of I_disable] by (auto simp: plain_def intro!: rel)
  next
    case I_disable
    then have "exec s c = Idle c" using x(2) ex by auto
    then show ?thesis using st I_disable stk(1) by (auto simp: plain_def same_core_def intro!: go)
  next
    case I_check
    then have "exec s c = Idle c" using x(2) ex by auto
    then show ?thesis using st I_check stk(1) by (auto simp: plain_def same_core_def split: if_splits intro!: go)
  next
    case I_hlt
    then have "exec s c = Idle c" using x(2) ex by auto
    then show ?thesis using st I_hlt stk(1) by (auto simp: plain_def same_core_def split: if_splits intro!: go)
  next
    case I_pop
    then have ix: "exec s c = Idle c" using x(2) ex by auto
    show ?thesis
    proof (cases "cq_queue (cpu_queues s c)")
      case Nil
      then show ?thesis using st I_pop stk(1) ix by (auto simp: plain_def same_core_def Let_def intro!: go)
    next
      case (Cons m ts)
      let ?q = "(cpu_queues s c)\<lparr>cq_queue := ts\<rparr>"
      have s': "s' = cont c (Loop (I_set m) # fs) (upd_queue c (\<lambda>_. ?q) s)"
        using st I_pop Cons by (simp add: Let_def)
      show ?thesis unfolding s'
        by (rule pop_queue_inv[OF inv c fr _ Cons, where us = "[]" and q' = ?q])
          (use ix x(2) stk(1) I_pop in simp_all)
    qed
  next
    case (I_set m)
    then have ix: "exec s c = Idle c" using x(2) ex by auto
    have pend: "pending_unlock s c = None" using I_set by (intro silent_pending[OF inv c fr]) simp
    have hm: "home s m c" using sched_invD(7)[OF inv c] fr ix I_set by (simp add: place_ok_def topf_def)
    then obtain th where th: "threads s m = Some th" by (auto simp: home_def)
    let ?f = "\<lambda>q. q\<lparr>cq_current := Some m, cq_idle := False\<rparr>"
    let ?s1 = "set_current_kernel_stack c (kernel_stack_top th) (upd_queue c ?f s)"
    have s': "s' = cont c (Loop (I_switch m) # fs) ?s1" using st I_set th by (simp add: Let_def)
    have q: "qtok ?s1 u = qtok s u" for u using qtok_own[OF c, of ?f u] by (simp add: qtok_def)
    show ?thesis unfolding s'
      by (rule cont_inv[OF inv c fr])
        (use ix pend stk(1) I_set q hm in \<open>simp_all add: same_threads_eq runnable_def split: if_splits\<close>)
  next
    case (I_switch m)
    then have ix: "exec s c = Idle c" "cq_current (cpu_queues s c) = Some m" using x(2) ex by auto
    have core: "same_core s s" by (simp add: same_core_def)
    have "sched_inv (context_switch c (Idle c) (Thr m) (Loop I_back # fs) s)"
      by (rule context_switch_inv[OF inv c fr core]) (use ix I_switch stk(1) in simp_all)
    then show ?thesis using st I_switch by simp
  next
    case I_back
    then have "exec s c = Idle c" using x(2) ex by auto
    then show ?thesis using st I_back stk(1) by (auto simp: plain_def intro!: rel)
  next
    case I_clear
    then have ix: "exec s c = Idle c" "cq_current (cpu_queues s c) = None" using x(2) ex by auto
    have pend: "pending_unlock s c = None" using I_clear by (intro silent_pending[OF inv c fr]) simp
    let ?f = "\<lambda>q. q\<lparr>cq_current := None, cq_idle := True\<rparr>"
    have q: "qtok (upd_queue c ?f s) u = qtok s u" for u using qtok_own[OF c, of ?f u] by simp
    have "sched_inv (cont c (Loop I_top # fs) (upd_queue c ?f s))"
      by (rule cont_inv[OF inv c fr])
        (use ix pend stk(1) I_clear q in \<open>simp_all add: same_threads_eq runnable_def split: if_splits\<close>)
    then show ?thesis using st I_clear by simp
  next
    case A_loop
    then have "exec s c = Ap c" using x(2) ex by auto
    then show ?thesis using st A_loop stk(1) by (auto simp: plain_def same_core_def intro!: go)
  next
    case A_hlt
    then have "exec s c = Ap c" using x(2) ex by auto
    then show ?thesis using st A_hlt stk(2)[of A_loop] by (auto simp: plain_def same_core_def split: if_splits intro!: go)
  qed
qed

section \<open>Spawn\<close>

text \<open>A thread that nothing refers to is stored; its token is at the program point.\<close>

lemma set_thread_inv:
  assumes inv: "sched_inv s" and c: "c < num_cpus s" and fr: "frames s (exec s c) = f # fs"
    and unref: "\<And>d. d < num_cpus s \<Longrightarrow> exec s d \<noteq> Thr tid"
      "\<And>d. d < num_cpus s \<Longrightarrow> tid \<notin> set (cq_queue (cpu_queues s d))"
      "\<And>d. d < num_cpus s \<Longrightarrow> claim (exec s d) (topf s d) \<noteq> Some tid"
      "\<And>d. d < num_cpus s \<Longrightarrow> d \<noteq> c \<Longrightarrow> pushing (topf s d) \<noteq> Some tid \<and> inserting (topf s d) \<noteq> Some tid"
      "\<not> dead s tid"
    and eq: "num_cpus s' = num_cpus s" "exec s' = exec s" "next_tid s' = next_tid s"
      "threads s' = (threads s)(tid := Some th)" "cpu_queues s' = cpu_queues s"
      "pending_unlock s' = pending_unlock s" "futex_locks s' = futex_locks s"
      "\<And>x. x \<noteq> exec s c \<Longrightarrow> x \<noteq> Thr tid \<Longrightarrow> frames s' x = frames s x" "frames s' (exec s c) = g # fs"
    and th: "t_tid th = tid" "tid < MAX_THREADS" "tid < next_tid s" "home_cpu th < num_cpus s" "t_state th = Ready \<or> t_state th = Running"
      "stack_ok (Thr tid) (frames s' (Thr tid))" "sleeps tid (hd (frames s' (Thr tid)))"
    and f: "claim (exec s c) f = self (exec s c)" "silent f" "\<not> bottom (exec s c) f"
      "holds f = None" "of_bool (pushing f = Some tid) = (of_bool (runnable s tid) :: nat)" "pushing f = None \<or> pushing f = Some tid"
    and g: "claim (exec s c) g = self (exec s c)" "\<And>cur. at (exec s c) f cur = at (exec s c) g cur" "inserting g = None"
      "pushing g = Some tid" "point_ok s' g" "holds g = None" "resumes g = resumes f"
    and tl: "of_bool (holds_thread_lock g) + of_bool (thread_lock s) =
               (of_bool (holds_thread_lock f) + of_bool (thread_lock s') :: nat)"
  shows "sched_inv s'"
proof -
  note I = sched_invD[OF inv]
  note x = exec_stack[OF inv c fr]
  have tf: "topf s c = f" using fr by (simp add: topf_def)
  have tg: "topf s' c = g" by (simp add: topf_def eq)
  have home: "t \<noteq> tid \<Longrightarrow> home s' t d = home s t d" for t d by (simp add: home_def eq)
  have view: "topf s' d = topf s d" "frames s' (exec s d) = frames s (exec s d)"
    if "d < num_cpus s" "d \<noteq> c" for d
  proof -
    have "exec s d \<noteq> exec s c" using exec_inj[OF inv that(1) c] that(2) by blast
    then show "topf s' d = topf s d" "frames s' (exec s d) = frames s (exec s d)"
      using unref(1)[OF that(1)] by (simp_all add: topf_def eq)
  qed
  have ok: "exec_ok s' d \<and> place_ok s' d \<and> point_ok s' (topf s' d) \<and> handoff_ok s' d" if d: "d < num_cpus s" for d
  proof -
    have ex: "case exec s d of Thr t \<Rightarrow> home s' t d | Idle e \<Rightarrow> e = d | Ap e \<Rightarrow> e = d"
      using I(6)[OF d] unref(1)[OF d] by (auto simp: exec_ok_def home split: context_id.splits)
    have q: "\<forall>t \<in> set (cq_queue (cpu_queues s d)). home s' t d"
      using I(7)[OF d] unref(2)[OF d] home by (metis place_ok_def)
    show ?thesis
    proof (cases "d = c")
      case True
      have "claim (exec s c) (topf s c) = Some m \<Longrightarrow> home s' m c" for m
        using I(7)[OF c] unref(3)[OF c] home[of m c] by (auto simp: place_ok_def)
      then have "place_ok s' c" using q True f(1) g(1) tf tg by (simp add: place_ok_def eq)
      moreover have "exec_ok s' c"
        using ex[unfolded True] x g(2) stack_pop(3)[OF x(1) f(3)] tg by (simp add: exec_ok_def eq)
      moreover have "handoff_ok s' c"
        using silent_pending[OF inv c fr f(2)] by (simp add: handoff_ok_def eq)
      ultimately show ?thesis using True g(5) tg by simp
    next
      case False
      note v = view[OF d False]
      have "claim (exec s d) (topf s d) = Some m \<Longrightarrow> home s' m d" for m
        using I(7)[OF d] unref(3)[OF d] home[of m d] by (auto simp: place_ok_def)
      then have "place_ok s' d" using q v by (simp add: place_ok_def eq)
      moreover have "exec_ok s' d" using ex I(6)[OF d] v by (simp add: exec_ok_def eq)
      moreover have "handoff_ok s' d" using I(9)[OF d] v by (simp add: handoff_ok_def eq)
      moreover have "point_ok s' (topf s d)"
        using I(8)[OF d] unref(4)[OF d False] unref(5)
        by (cases "(s, topf s d)" rule: point_ok.cases) (auto simp: eq unstarted_def dead_def home_def)
      ultimately show ?thesis using v by simp
    qed
  qed
  have insd: "inserting (topf s' d) \<noteq> Some t"
    if "d < num_cpus s" "e < num_cpus s" "e \<noteq> d" "inserting (topf s' e) = Some t" for d e t
  proof -
    have "inserting (topf s d) \<noteq> Some t" if "inserting (topf s e) = Some t"
      using inv that \<open>d < num_cpus s\<close> \<open>e < num_cpus s\<close> \<open>e \<noteq> d\<close> by (simp add: sched_inv_def)
    then show ?thesis using that g(3) tg view(1) by (cases "d = c"; cases "e = c") auto
  qed
  have susp: "suspended_ok s'"
  proof -
    have "stack_ok (Thr t) (frames s' (Thr t)) \<and> (sleeps t (hd (frames s' (Thr t))) \<or> dead s' t)"
      if t: "threads s' t \<noteq> None" "\<forall>d < num_cpus s. exec s d \<noteq> Thr t" for t
    proof (cases "t = tid")
      case True
      then show ?thesis using th by simp
    next
      case False
      then have "threads s t \<noteq> None" "frames s' (Thr t) = frames s (Thr t)" "dead s' t = dead s t"
        using t c by (auto simp: eq dead_def)
      then show ?thesis using I(4) t(2) unfolding suspended_ok_def by metis
    qed
    moreover have "frames s' (Idle d) = frames s (Idle d)" if "d < num_cpus s" "exec s d \<noteq> Idle d" for d
    proof -
      have "exec s c \<noteq> Idle d" using that I(6)[OF c] by (auto simp: exec_ok_def)
      then show ?thesis by (simp add: eq)
    qed
    ultimately show ?thesis using I(4) by (simp add: suspended_ok_def eq(1,2))
  qed
  have "locks_ok s'"
  proof -
    have "(\<Sum>d<num_cpus s. lholds s' b d) = (\<Sum>d<num_cpus s. lholds s b d)" for b
    proof (rule sum.cong[OF refl])
      fix d assume "d \<in> {..<num_cpus s}"
      then show "lholds s' b d = lholds s b d"
        using view(1)[of d] g(6) f(4) tf tg by (cases "d = c") (simp_all add: lholds_def eq)
    qed
    moreover have "(\<Sum>d<num_cpus s. of_bool (holds_thread_lock (topf s' d))) + of_bool (holds_thread_lock (topf s c)) =
        (\<Sum>d<num_cpus s. of_bool (holds_thread_lock (topf s d))) + (of_bool (holds_thread_lock (topf s' c)) :: nat)"
      by (intro sum_change c) (simp add: view(1))
    then have "(\<Sum>d<num_cpus s. of_bool (holds_thread_lock (topf s' d))) = (of_bool (thread_lock s') :: nat)"
      using I(5) tl[folded tf tg] unfolding locks_ok_def by linarith
    ultimately show ?thesis using I(5) by (simp add: locks_ok_def eq)
  qed
  moreover have "tokens s' t = of_bool (runnable s' t)" for t
  proof -
    have "(\<Sum>d<num_cpus s. ltok s' d t) + ltok s c t = (\<Sum>d<num_cpus s. ltok s d t) + ltok s' c t"
      by (intro sum_change c) (simp add: ltok_def view eq)
    moreover have "ltok s' c t + of_bool (runnable s t) = ltok s c t + of_bool (runnable s' t)"
    proof (cases "t = tid")
      case True
      then show ?thesis using f(1,5) g(1,4) tf tg th(5) by (auto simp: ltok_def eq runnable_def)
    next
      case False
      then show ?thesis using f(1,6) g(1,4) tf tg by (auto simp: ltok_def eq runnable_def)
    qed
    ultimately show ?thesis using I(10)[of t] by (simp add: tokens_def qtok_def eq)
  qed
  moreover have "threads_ok s'" using I(3) th(1-4) by (auto simp: threads_ok_def eq)
  ultimately show ?thesis
    using I(1,2) ok insd susp unfolding sched_inv_def eq(1) by blast
qed

lemma silent_spawn [simp]:
  "silent (Spawn (S_entry a))" "silent (Spawn (S_insert a t k r9 rip))" "silent (Spawn (S_scan a t cpu b l f))"
  "silent (Spawn (S_home a t b))" "silent (Spawn (S_push t b))" "silent (Spawn (S_ipi t b))" "silent (Spawn S_child_go)"
  by (simp_all add: silent_def)

lemma unreferenced:
  assumes inv: "sched_inv s" and c: "c < num_cpus s"
    and t: "threads s t = None \<or> (unstarted s t \<and> pushing (topf s c) = Some t)" and d: "d < num_cpus s"
  shows "exec s d \<noteq> Thr t" "t \<notin> set (cq_queue (cpu_queues s d))" "claim (exec s d) (topf s d) \<noteq> Some t"
    "d \<noteq> c \<Longrightarrow> pushing (topf s d) \<noteq> Some t"
proof -
  note I = sched_invD[OF inv]
  have none: "\<not> home s t e" if "threads s t = None" for e using that by (simp add: home_def)
  have push: "pushing (topf s d) \<noteq> Some t" if "d \<noteq> c"
  proof
    assume p: "pushing (topf s d) = Some t"
    have "1 \<le> ltok s d t" using p by (simp add: ltok_def)
    moreover have "ltok s d t \<le> (\<Sum>e<num_cpus s. ltok s e t)" using d by (rule le_sum)
    ultimately have ge: "1 \<le> tokens s t" by (simp add: tokens_def)
    have "threads s t \<noteq> None"
    proof
      assume "threads s t = None"
      then show False using ge I(10)[of t] by (simp add: runnable_def)
    qed
    then have "pushing (topf s c) = Some t" using t by auto
    then have "1 \<le> ltok s c t" by (simp add: ltok_def)
    moreover have "ltok s c t + ltok s d t \<le> (\<Sum>e<num_cpus s. ltok s e t)"
      using c d that by (intro le_sum2) auto
    ultimately have "2 \<le> tokens s t" using \<open>1 \<le> ltok s d t\<close> by (simp add: tokens_def)
    then show False using I(10)[of t] by (cases "runnable s t") auto
  qed
  then show "d \<noteq> c \<Longrightarrow> pushing (topf s d) \<noteq> Some t" .
  show "exec s d \<noteq> Thr t"
    using t d I(6)[OF d] none by (auto simp: unstarted_def exec_ok_def)
  show "claim (exec s d) (topf s d) \<noteq> Some t"
  proof
    assume cl: "claim (exec s d) (topf s d) = Some t"
    have "runnable s t" "home s t d" using claimed(1,2)[OF inv d cl] by auto
    then have p: "pushing (topf s c) = Some t" using t none by auto
    then have "c = d" using claimed(3)[OF inv d cl c] by auto
    then have "2 \<le> ltok s c t" using cl p by (simp add: ltok_def)
    moreover have "ltok s c t \<le> (\<Sum>e<num_cpus s. ltok s e t)" using c by (rule le_sum)
    ultimately show False using I(10)[of t] by (cases "runnable s t") (auto simp: tokens_def)
  qed
  show "t \<notin> set (cq_queue (cpu_queues s d))"
  proof
    assume q: "t \<in> set (cq_queue (cpu_queues s d))"
    then have "home s t d" using I(7)[OF d] by (simp add: place_ok_def)
    then have p: "pushing (topf s c) = Some t" using t none by auto
    have "frames s (exec s c) = topf s c # tl (frames s (exec s c))"
      using I(6)[OF c] by (simp add: exec_ok_def stack_ok_def topf_def)
    then show False using unqueued(1)[OF inv c _ p d] q by blast
  qed
qed

lemma spawn_entry_inv:
  assumes inv: "sched_inv s" and c: "c < num_cpus s" and fr: "frames s (exec s c) = Spawn (S_entry a) # fs"
    and st: "step_spawn (S_entry a) fs c s = Some s'" and nw: "next_tid s \<le> next_tid s'"
  shows "sched_inv s'"
proof -
  note I = sched_invD[OF inv]
  note x = exec_stack[OF inv c fr]
  note pop = stack_pop[OF x(1) bottom_simps(4)]
  obtain t where t: "exec s c = Thr t" "cq_current (cpu_queues s c) = Some t"
    using at_thread(3)[OF x(2)] x(2) by auto
  have pend: "pending_unlock s c = None" by (rule silent_pending[OF inv c fr]) simp
  show ?thesis
  proof (cases "MAX_THREADS \<le> next_tid s")
    case True
    obtain g gs where fs: "fs = g # gs" "lower (exec s c) g" using pop(2) by blast
    note g = lower_plain[OF fs(2)]
    let ?s1 = "s\<lparr>next_tid := (next_tid s + 1) mod 4294967296, result := (result s)(t := 0)\<rparr>"
    have s': "s' = cont c fs ?s1"
      using st True t by (simp add: Let_def get_clone_regs_def return_val_Thr)
    have same: "same_threads s ?s1" using nw unfolding s' by (simp add: same_threads_def dead_def)
    show ?thesis unfolding s' fs(1)
      by (rule cont_inv[OF inv c fr _ _ _ _ _ same])
        (use g t pend pop(1) fs plain_point[of "exec s c" g] in
          \<open>simp_all add: plain_def qtok_def runnable_def\<close>)
  next
    case False
    then have lt: "(next_tid s + 1) mod 4294967296 = next_tid s + 1" by (simp add: MAX_THREADS_def)
    obtain r9 rip where r: "get_clone_regs c s = (r9, rip)" by fastforce
    let ?k = "kstack_next s + KSTACK_USABLE"
    let ?s1 = "s\<lparr>next_tid := next_tid s + 1, kstack_next := kstack_next s + KSTACK_USABLE + PREEMPT_REGION_SIZE\<rparr>"
    have s': "s' = cont c (Spawn (S_insert a (next_tid s) ?k r9 rip) # fs) ?s1"
      using st False r lt by (simp add: Let_def)
    have fresh: "threads s (next_tid s) = None" using I(3) by (cases "threads s (next_tid s)") (auto simp: threads_ok_def)
    have ins: "inserting (topf s d) \<noteq> Some (next_tid s)" if d: "d < num_cpus s" for d
      using I(8)[OF d] by (cases "topf s d" rule: inserting.cases) auto
    show ?thesis unfolding s'
      by (rule cont_inv[OF inv c fr])
        (use t pend pop(3) fresh False ins in
          \<open>simp_all add: same_threads_def dead_def qtok_def runnable_def\<close>)
  qed
qed

lemma spawn_insert_inv:
  assumes inv: "sched_inv s" and c: "c < num_cpus s"
    and fr: "frames s (exec s c) = Spawn (S_insert a tid k r9 rip) # fs"
    and st: "step_spawn (S_insert a tid k r9 rip) fs c s = Some s'"
  shows "sched_inv s'"
proof -
  note I = sched_invD[OF inv]
  note x = exec_stack[OF inv c fr]
  obtain t where t: "exec s c = Thr t" using at_thread(3)[OF x(2)] by auto
  have tf: "topf s c = Spawn (S_insert a tid k r9 rip)" using fr by (simp add: topf_def)
  have pt: "threads s tid = None" "tid < MAX_THREADS" "tid < next_tid s" using I(8)[OF c] tf by auto
  have nt: "t \<noteq> tid" using I(6)[OF c] t pt(1) by (auto simp: exec_ok_def home_def)
  have free: "\<not> thread_lock s" using st by (auto split: if_splits)
  note un = unreferenced[OF inv c, of tid]
  have ins: "inserting (topf s d) \<noteq> Some tid" if "d < num_cpus s" "d \<noteq> c" for d
    using inv c that tf by (auto simp: sched_inv_def)
  show ?thesis
  proof (rule set_thread_inv[OF inv c fr, where tid = tid and
        th = "new_thread a tid k r9 rip (fxsave_template s)" and
        g = "Spawn (S_scan a tid 0 0 (two64 - 1) False)"])
    show "pushing (topf s d) \<noteq> Some tid \<and> inserting (topf s d) \<noteq> Some tid" if "d < num_cpus s" "d \<noteq> c" for d
      using un(4) pt(1) that ins by blast
    show "point_ok s' (Spawn (S_scan a tid 0 0 (two64 - 1) False))"
      using st free un(1) pt(1) I(1) by (auto simp: unstarted_def)
    show "of_bool (pushing (Spawn (S_insert a tid k r9 rip)) = Some tid) = (of_bool (runnable s tid) :: nat)"
      using pt(1) by (simp add: runnable_def)
  qed (use st free t nt pt un(1-3) I(1) in \<open>auto simp: new_thread_def stack_ok_def dead_def\<close>)
qed

lemma spawn_home_inv:
  assumes inv: "sched_inv s" and c: "c < num_cpus s"
    and fr: "frames s (exec s c) = Spawn (S_home a tid best) # fs"
    and st: "step_spawn (S_home a tid best) fs c s = Some s'"
  shows "sched_inv s'"
proof -
  note I = sched_invD[OF inv]
  note x = exec_stack[OF inv c fr]
  obtain t where t: "exec s c = Thr t" using at_thread(3)[OF x(2)] by auto
  have tf: "topf s c = Spawn (S_home a tid best)" using fr by (simp add: topf_def)
  have pt: "unstarted s tid" "best < num_cpus s" using I(8)[OF c] tf by auto
  then obtain th where th: "threads s tid = Some th" by (auto simp: unstarted_def)
  have ok: "t_tid th = tid" "tid < MAX_THREADS" "tid < next_tid s" using I(3) th by (auto simp: threads_ok_def)
  have nt: "t \<noteq> tid" using pt(1) c t by (auto simp: unstarted_def)
  have run: "runnable s tid" using unqueued(2)[OF inv c fr _ c] by simp
  then have nd: "\<not> dead s tid" by (auto simp: runnable_def dead_def split: option.splits)
  have sl: "stack_ok (Thr tid) (frames s (Thr tid))" "sleeps tid (hd (frames s (Thr tid)))"
    using I(4) pt(1) nd by (auto simp: suspended_ok_def unstarted_def)
  note un = unreferenced[OF inv c, of tid]
  have ins: "inserting (topf s d) \<noteq> Some tid" if d: "d < num_cpus s" for d
    using I(8)[OF d] th by (cases "topf s d" rule: inserting.cases) auto
  show ?thesis
  proof (rule set_thread_inv[OF inv c fr, where tid = tid and th = "th\<lparr>home_cpu := best\<rparr>" and
        g = "Spawn (S_push tid best)"])
    show "pushing (topf s d) \<noteq> Some tid \<and> inserting (topf s d) \<noteq> Some tid" if "d < num_cpus s" "d \<noteq> c" for d
      using un(4) pt(1) tf that ins by simp
    show "exec s d \<noteq> Thr tid" "tid \<notin> set (cq_queue (cpu_queues s d))" "claim (exec s d) (topf s d) \<noteq> Some tid"
      if "d < num_cpus s" for d using un(1-3) pt(1) tf that by simp_all
    show "point_ok s' (Spawn (S_push tid best))" using st th by (auto simp: home_def upd_thread_def)
    show "t_state (th\<lparr>home_cpu := best\<rparr>) = Ready \<or> t_state (th\<lparr>home_cpu := best\<rparr>) = Running"
      using run th by (simp add: runnable_def)
  qed (use st t nt pt ok th sl nd run in \<open>auto simp: upd_thread_def\<close>)
qed

lemma spawn_rest_inv:
  assumes inv: "sched_inv s" and c: "c < num_cpus s" and fr: "frames s (exec s c) = Spawn p # fs"
    and p: "p = S_scan a tid cpu best len fnd \<or> p = S_push tid best \<or> p = S_ipi tid best"
    and st: "step_spawn p fs c s = Some s'"
  shows "sched_inv s'"
proof -
  note I = sched_invD[OF inv]
  note x = exec_stack[OF inv c fr]
  note pop = stack_pop[OF x(1) bottom_simps(4)]
  have tf: "topf s c = Spawn p" using fr by (simp add: topf_def)
  obtain t where t: "exec s c = Thr t" "cq_current (cpu_queues s c) = Some t"
    using at_thread(3)[OF x(2)] x(2) p by auto
  have pend: "pending_unlock s c = None" using p by (intro silent_pending[OF inv c fr]) auto
  from p show ?thesis
  proof (elim disjE)
    assume p: "p = S_scan a tid cpu best len fnd"
    have pt: "unstarted s tid" "best < num_cpus s" using I(8)[OF c] tf p by auto
    have go: "sched_inv (cont c (g # fs) s)"
      if "(g = Spawn (S_home a tid b') \<or> (\<exists>i l f. g = Spawn (S_scan a tid i b' l f))) \<and> b' < num_cpus s" for g b'
      by (rule cont_inv[OF inv c fr]) (use t pend pop(3) p pt that in \<open>auto simp: same_threads_eq\<close>)
    show ?thesis
    proof (cases "num_cpus s \<le> cpu")
      case True
      then show ?thesis using st p pt go[of "Spawn (S_home a tid best)" best] by simp
    next
      case False
      obtain b' l' f' where pc: "pick_cpu cpu (cpu_queues s cpu) (best, len, fnd) = (b', l', f')" by (rule prod_cases3)
      then have "b' < num_cpus s" using False pt by (auto simp: pick_cpu_def Let_def split: if_splits)
      then show ?thesis using st p pc False go[of _ b'] by (auto simp: Let_def)
    qed
  next
    assume p: "p = S_push tid best"
    have pt: "home s tid best" using I(8)[OF c] tf p by auto
    then have b: "best < num_cpus s" using I(3) by (auto simp: home_def threads_ok_def)
    have "sched_inv (cont c (Spawn (S_ipi tid best) # fs) (push_tid best tid s))"
      by (rule cont_inv[OF inv c fr])
        (use t pend pop(3) p pt b in \<open>auto simp: same_threads_eq qtok_push runnable_def split: if_splits\<close>)
    then show ?thesis using st p by simp
  next
    assume p: "p = S_ipi tid best"
    have tl: "thread_lock s" using p by (intro holds_thread_locked[OF inv c fr]) simp
    obtain g gs where fs: "fs = g # gs" "lower (exec s c) g" using pop(2) by blast
    note g = lower_plain[OF fs(2)]
    obtain s1 where s1: "s' = cont c fs s1" "num_cpus s1 = num_cpus s" "exec s1 = exec s" "frames s1 = frames s"
      "threads s1 = threads s" "cpu_queues s1 = cpu_queues s" "next_tid s1 = next_tid s" "\<not> thread_lock s1"
      "pending_unlock s1 = pending_unlock s" "futex_locks s1 = futex_locks s"
      using st p t by (auto simp: return_val_Thr split: if_splits)
    show ?thesis unfolding s1(1) fs(1)
      by (rule cont_inv[OF inv c fr])
        (use g t pend pop(1) fs p tl plain_point[of "exec s c" g] s1(8) in
          \<open>simp_all add: s1(2-7,9,10) plain_def same_threads_eq qtok_def runnable_def\<close>)
  qed
qed

lemma spawn_child_inv:
  assumes inv: "sched_inv s" and c: "c < num_cpus s" and fr: "frames s (exec s c) = Spawn p # fs"
    and p: "p = S_child \<or> p = S_child_go" and st: "step_spawn p fs c s = Some s'"
  shows "sched_inv s'"
proof -
  note x = exec_stack[OF inv c fr]
  note pop = stack_pop[OF x(1) bottom_simps(4)]
  obtain t where t: "exec s c = Thr t" using at_thread(3)[OF x(2)] by auto
  from p show ?thesis
  proof
    assume p: "p = S_child"
    have "sched_inv (cont c (Spawn S_child_go # fs) (release_pending_unlock c s))"
      by (rule release_inv[OF inv c fr]) (use p t pop(3) in \<open>auto simp: plain_def\<close>)
    then show ?thesis using st p by simp
  next
    assume p: "p = S_child_go"
    show ?thesis
      using st p t by (auto simp: Let_def return_val_Thr same_core_def plain_def intro!: pop_inv[OF inv c fr])
  qed
qed

lemma step_spawn_inv:
  assumes inv: "sched_inv s" and c: "c < num_cpus s" and fr: "frames s (exec s c) = Spawn p # fs"
    and st: "step_spawn p fs c s = Some s'" and nw: "next_tid s \<le> next_tid s'"
  shows "sched_inv s'"
proof (cases p)
  case (S_entry a)
  then show ?thesis using st nw fr spawn_entry_inv[OF inv c, of a fs s'] by simp
next
  case (S_insert a tid k r9 rip)
  then show ?thesis using st fr spawn_insert_inv[OF inv c, of a tid k r9 rip fs s'] by simp
next
  case (S_home a tid best)
  then show ?thesis using st fr spawn_home_inv[OF inv c, of a tid best fs s'] by simp
qed (rule spawn_rest_inv[OF inv c fr _ st] spawn_child_inv[OF inv c fr _ st]; simp)+

end
