(* ===== verification/Sched_Effects.thy ===== *)
theory Sched_Effects
  imports Sched_Steps
begin

text \<open>
  What one step of a CPU changes: of the other CPUs, of the saved contexts, of the run queues and of the
  blocked threads.
\<close>

section \<open>What one step changes\<close>

definition blocked_on :: "sched \<Rightarrow> nat \<Rightarrow> nat \<Rightarrow> bool" where
  "blocked_on s j a \<longleftrightarrow> (\<exists>th. threads s j = Some th \<and> t_state th = Blocked \<and> futex_addr th = a)"

fun notifies :: "frame \<Rightarrow> nat option" where
  "notifies (Rescue (R_ipi i addr target)) = Some target"
| "notifies (Wake (K_ipi addr n i w target)) = Some target"
| "notifies (Spawn (S_ipi tid best)) = Some best"
| "notifies f = None"

fun resume_point :: "frame \<Rightarrow> frame list" where
  "resume_point (Yield (Y_switch cur m k)) = [Yield Y_resumed]"
| "resume_point (Wait (W_switch t sw)) = [Wait (W_resumed t)]"
| "resume_point (Exit (X_switch t)) = [Exit X_stopped]"
| "resume_point (Loop (I_switch m)) = [Loop I_back]"
| "resume_point f = []"


lemma context_fields [simp]:
  "exec (return_val c v fs s) = exec s" "regs (return_val c v fs s) = regs s"
  "threads (return_val c v fs s) = threads s" "num_cpus (return_val c v fs s) = num_cpus s"
  "frames (return_val c v fs s) = (frames s)(exec s c := fs)"
  "cpu_queues (return_val c v fs s) = cpu_queues s" "irq (return_val c v fs s) = irq s"
  by (simp_all add: return_val_def cont_def split: context_id.splits)

lemma release_fields [simp]:
  "exec (release_pending_unlock c s) = exec s" "regs (release_pending_unlock c s) = regs s"
  "threads (release_pending_unlock c s) = threads s" "num_cpus (release_pending_unlock c s) = num_cpus s"
  "frames (release_pending_unlock c s) = frames s" "cpu_queues (release_pending_unlock c s) = cpu_queues s"
  "irq (release_pending_unlock c s) = irq s"
  by (simp_all add: release_pending_unlock_def unlock_bucket_def split: option.splits)

lemma regs_fields [simp]:
  "regs (push_tid d m s) = regs s" "regs (send_ipi d s) = regs s" "regs (upd_queue d f s) = regs s"
  "regs (lock_bucket b s) = regs s" "regs (unlock_bucket b s) = regs s" "regs (upd_thread t g s) = regs s"
  "irq (cont c gs s) = irq s" "irq (push_tid d m s) = irq s" "irq (upd_queue d f s) = irq s"
  "irq (lock_bucket b s) = irq s" "irq (unlock_bucket b s) = irq s" "irq (upd_thread t g s) = irq s"
  "irq (set_current_kernel_stack d k s) = irq s" "irq (save_ctx x r s) = irq s" "irq (load_ctx d y s) = irq s"
  by (simp_all add: push_tid_def upd_queue_def send_ipi_def lock_bucket_def unlock_bucket_def upd_thread_def
      cont_def set_current_kernel_stack_def save_ctx_def load_ctx_def split: context_id.splits option.splits)

definition ctx_of :: "sched \<Rightarrow> nat \<Rightarrow> thread_ctx option" where
  "ctx_of s t = map_option t_ctx (threads s t)"

lemma switch_fields [simp]:
  "num_cpus (context_switch c x y gs s) = num_cpus s" "cpu_queues (context_switch c x y gs s) = cpu_queues s"
  "irq (context_switch c x y gs s) = irq s" "frames (context_switch c x y gs s) = (frames s)(exec s c := gs)"
  "d \<noteq> c \<Longrightarrow> exec (context_switch c x y gs s) d = exec s d"
  "d \<noteq> c \<Longrightarrow> regs (context_switch c x y gs s) d = regs s d"
  "threads (context_switch c x y gs s) t =
     (if x = Thr t then map_option (\<lambda>th. th\<lparr>t_ctx := regs s c\<rparr>) (threads s t) else threads s t)"
  by (simp_all add: context_switch_def load_ctx_simps save_ctx_simps)
    (simp_all add: load_ctx_def save_ctx_simps split: option.splits)


lemma switch_own:
  "exec (context_switch c x y gs s) c \<noteq> exec s c \<Longrightarrow> exec s c = x \<Longrightarrow>
     exec (context_switch c x y gs s) c = y \<and>
     saved_ctx y s = Some (regs (context_switch c x y gs s) c)"
  "exec (load_ctx c y s) c \<noteq> exec s c \<Longrightarrow>
     exec (load_ctx c y s) c = y \<and> saved_ctx y s = Some (regs (load_ctx c y s) c)"
  by (auto simp: context_switch_def load_ctx_def save_ctx_simps save_ctx_def saved_ctx_def upd_thread_def cont_def
      split: option.splits context_id.splits if_splits)

fun placing :: "frame \<Rightarrow> nat option" where
  "placing (Spawn (S_insert a tid k r9 rip)) = Some tid"
| "placing (Spawn (S_scan a tid cpu best len found)) = Some tid"
| "placing (Spawn (S_home a tid best)) = Some tid"
| "placing f = None"

fun switching :: "frame \<Rightarrow> bool" where
  "switching (Yield (Y_jump m)) \<longleftrightarrow> True"
| "switching (Yield (Y_switch cur m k)) \<longleftrightarrow> True"
| "switching (Wait (W_switch t sw)) \<longleftrightarrow> True"
| "switching (Exit (X_switch t)) \<longleftrightarrow> True"
| "switching (Loop (I_switch m)) \<longleftrightarrow> True"
| "switching f \<longleftrightarrow> False"

definition step_effect :: "nat \<Rightarrow> frame \<Rightarrow> sched \<Rightarrow> sched \<Rightarrow> bool" where
  "step_effect c f s s' \<longleftrightarrow>
     num_cpus s' = num_cpus s \<and>
     (\<forall>d. d \<noteq> c \<longrightarrow> exec s' d = exec s d \<and> regs s' d = regs s d) \<and>
     (\<forall>x. x \<noteq> exec s c \<and> (\<forall>t. inserting f = Some t \<longrightarrow> x \<noteq> Thr t) \<longrightarrow> frames s' x = frames s x) \<and>
     (\<forall>t. exec s c \<noteq> Thr t \<and> inserting f \<noteq> Some t \<longrightarrow> ctx_of s' t = ctx_of s t) \<and>
     (\<forall>d. d \<noteq> c \<longrightarrow>
        cq_current (cpu_queues s' d) = cq_current (cpu_queues s d) \<and>
        cq_idle (cpu_queues s' d) = cq_idle (cpu_queues s d) \<and>
        (cq_queue (cpu_queues s' d) = cq_queue (cpu_queues s d) \<or> notifies (hd (frames s' (exec s' c))) = Some d)) \<and>
     ((cq_idle (cpu_queues s c) \<longleftrightarrow> cq_current (cpu_queues s c) = None) \<longrightarrow>
      (cq_idle (cpu_queues s' c) \<longleftrightarrow> cq_current (cpu_queues s' c) = None)) \<and>
     (\<forall>t a. blocked_on s' t a \<longrightarrow> blocked_on s t a \<or> (\<exists>v d. f = Wait (W_mark a v d))) \<and>
     (\<forall>d. d \<noteq> c \<longrightarrow> (irq s d \<longrightarrow> irq s' d) \<and>
        (notifies f = Some d \<and> awaits_irq (topf s d) \<and> cq_idle (cpu_queues s d) \<longrightarrow> irq s' d)) \<and>
     (\<forall>t th. threads s t = Some th \<longrightarrow>
        (\<exists>th'. threads s' t = Some th' \<and> (home_cpu th' = home_cpu th \<or> placing f = Some t))) \<and>
     (switching f \<or> exec s' c = exec s c)"

fun own_point :: "nat \<Rightarrow> frame \<Rightarrow> sched \<Rightarrow> bool" where
  "own_point c (Yield (Y_jump m)) s \<longleftrightarrow> exec s c = Ap c"
| "own_point c (Yield (Y_switch cur m k)) s \<longleftrightarrow> exec s c = Thr cur"
| "own_point c (Wait (W_pick b t)) s \<longleftrightarrow> cq_current (cpu_queues s c) \<noteq> None"
| "own_point c (Wait (W_switch t sw)) s \<longleftrightarrow> exec s c = Thr t"
| "own_point c (Exit (X_switch t)) s \<longleftrightarrow> (\<exists>u. t = Some u \<and> exec s c = Thr u)"
| "own_point c (Loop (I_switch m)) s \<longleftrightarrow> exec s c = Idle c"
| "own_point c f s \<longleftrightarrow> True"

lemma step_effect:
  assumes st: "step_frame f fs c s = Some s'"
    and sw: "own_point c f s"
  shows "step_effect c f s s'"
proof (cases f)
  case (Rescue p)
  with st show ?thesis by (cases p; auto simp: step_effect_def blocked_on_def ctx_of_def option.map_comp o_def upd_thread_def unlock_rescue_def Let_def load_ctx_def saved_ctx_def check_resched_def resched_def rescue_thread_def push_tid_def send_ipi_def split: if_splits option.splits)
next
  case (Yield p)
  with st sw show ?thesis by (cases p; auto simp: step_effect_def blocked_on_def ctx_of_def option.map_comp o_def upd_thread_def unlock_rescue_def Let_def load_ctx_def saved_ctx_def check_resched_def resched_def split: if_splits option.splits list.splits)
next
  case (Wait p)
  with st sw show ?thesis by (cases "(p, fs, c, s)" rule: step_wait.cases;
    auto simp: step_effect_def blocked_on_def ctx_of_def option.map_comp o_def upd_thread_def unlock_rescue_def Let_def load_ctx_def saved_ctx_def check_resched_def resched_def block_thread_def split: if_splits option.splits list.splits prod.splits)
next
  case (Wake p)
  with st show ?thesis by (cases p; auto simp: step_effect_def blocked_on_def ctx_of_def option.map_comp o_def upd_thread_def unlock_rescue_def Let_def load_ctx_def saved_ctx_def check_resched_def resched_def wake_thread_def push_tid_def send_ipi_def split: if_splits option.splits)
next
  case (Spawn p)
  with st show ?thesis by (cases p; auto simp: step_effect_def blocked_on_def ctx_of_def option.map_comp o_def upd_thread_def unlock_rescue_def Let_def load_ctx_def saved_ctx_def check_resched_def resched_def push_tid_def send_ipi_def new_thread_def split: if_splits prod.splits)
next
  case (Exit p)
  with st sw show ?thesis by (cases p; auto simp: step_effect_def blocked_on_def ctx_of_def option.map_comp o_def upd_thread_def unlock_rescue_def Let_def load_ctx_def saved_ctx_def check_resched_def resched_def split: if_splits option.splits)
next
  case (Loop p)
  with st sw show ?thesis by (cases p; auto simp: step_effect_def blocked_on_def ctx_of_def option.map_comp o_def upd_thread_def unlock_rescue_def Let_def load_ctx_def saved_ctx_def check_resched_def resched_def split: if_splits option.splits list.splits)
qed (use st in \<open>auto simp: step_effect_def blocked_on_def ctx_of_def option.map_comp o_def upd_thread_def unlock_rescue_def Let_def load_ctx_def saved_ctx_def check_resched_def resched_def split: if_splits\<close>)

definition same_ctx :: "sched \<Rightarrow> sched \<Rightarrow> bool" where
  "same_ctx s s1 \<longleftrightarrow> exec s1 = exec s \<and> regs s1 = regs s \<and> threads s1 = threads s \<and> idle_ctx s1 = idle_ctx s"

lemma step_switch:
  assumes st: "step_frame f fs c s = Some s'" and ne: "exec s' c \<noteq> exec s c"
    and sw: "own_point c f s"
  shows "saved_ctx (exec s' c) s = Some (regs s' c)" "claim (exec s c) f = self (exec s' c)"
    "(\<exists>m. exec s' c = Thr m) \<or> exec s' c = Idle c" "frames s' (exec s c) = resume_point f @ fs"
    "exec s c = Thr t \<Longrightarrow> ctx_of s' t = map_option (\<lambda>_. regs s c) (ctx_of s t)"
proof -
  have "switching f" using step_effect[OF st sw] ne by (auto simp: step_effect_def)
  then have "\<exists>y s1. same_ctx s s1 \<and> claim (exec s c) f = self y \<and> ((\<exists>m. y = Thr m) \<or> y = Idle c) \<and>
      (s' = context_switch c (exec s c) y (resume_point f @ fs) s1 \<or>
       s' = load_ctx c y (cont c (resume_point f @ fs) s1) \<and> exec s c = Ap c)"
  proof (cases f rule: switching.cases)
    case (2 cur m k)
    then have "s' = context_switch c (Thr cur) (Thr m) (Yield Y_resumed # fs) (set_current_kernel_stack c k s)"
      using st ne by (auto simp: Let_def split: if_splits)
    then show ?thesis using sw 2
      by (intro exI[of _ "Thr m"] exI[of _ "set_current_kernel_stack c k s"]) (simp add: same_ctx_def)
  next
    case (3 t w)
    show ?thesis
    proof (cases w)
      case None
      then have "s' = context_switch c (Thr t) (Idle c) (Wait (W_resumed t) # fs) s"
        using st ne 3 by (auto split: if_splits)
      then show ?thesis using sw 3 None
        by (intro exI[of _ "Idle c"] exI[of _ s]) (simp add: same_ctx_def)
    next
      case (Some a)
      obtain m k where a: "a = (m, k)" by (cases a)
      then have "s' = context_switch c (Thr t) (Thr m) (Wait (W_resumed t) # fs) (set_current_kernel_stack c k s)"
        using st ne 3 Some by (auto simp: Let_def split: if_splits)
      then show ?thesis using sw 3 Some a
        by (intro exI[of _ "Thr m"] exI[of _ "set_current_kernel_stack c k s"]) (simp add: same_ctx_def)
    qed
  next
    case (1 m)
    then show ?thesis using st sw
      by (intro exI[of _ "Thr m"] exI[of _ s]) (simp add: same_ctx_def)
  next
    case (4 t)
    then show ?thesis using st sw
      by (intro exI[of _ "Idle c"] exI[of _ s]) (auto simp: same_ctx_def)
  next
    case (5 m)
    then show ?thesis using st sw
      by (intro exI[of _ "Thr m"] exI[of _ s]) (simp add: same_ctx_def)
  qed simp_all
  then obtain y s1 where y: "same_ctx s s1" "claim (exec s c) f = self y" "(\<exists>m. y = Thr m) \<or> y = Idle c"
      "s' = context_switch c (exec s c) y (resume_point f @ fs) s1 \<or>
       s' = load_ctx c y (cont c (resume_point f @ fs) s1) \<and> exec s c = Ap c" by blast
  have "exec s' c = y \<and> saved_ctx y s = Some (regs s' c)"
    using y(4) ne switch_own(1)[of c "exec s c" y "resume_point f @ fs" s1]
      switch_own(2)[of c y "cont c (resume_point f @ fs) s1"] y(1)
    by (auto simp: same_ctx_def saved_ctx_def cong: context_id.case_cong)
  moreover have "frames s' (exec s c) = resume_point f @ fs"
    using y(1,4) by (auto simp: same_ctx_def load_ctx_simps)
  moreover have "ctx_of s' t = map_option (\<lambda>_. regs s c) (ctx_of s t)" if "exec s c = Thr t" for t
    using y(1,4) that by (auto simp: same_ctx_def ctx_of_def option.map_comp o_def)
  ultimately have "saved_ctx (exec s' c) s = Some (regs s' c) \<and> claim (exec s c) f = self (exec s' c) \<and>
    ((\<exists>m. exec s' c = Thr m) \<or> exec s' c = Idle c) \<and> frames s' (exec s c) = resume_point f @ fs \<and>
    (\<forall>t. exec s c = Thr t \<longrightarrow> ctx_of s' t = map_option (\<lambda>_. regs s c) (ctx_of s t))"
    using y(2,3) by simp
  then show "saved_ctx (exec s' c) s = Some (regs s' c)" "claim (exec s c) f = self (exec s' c)"
    "(\<exists>m. exec s' c = Thr m) \<or> exec s' c = Idle c" "frames s' (exec s c) = resume_point f @ fs"
    "exec s c = Thr t \<Longrightarrow> ctx_of s' t = map_option (\<lambda>_. regs s c) (ctx_of s t)" by auto
qed

definition idle_flag :: "cpu_queue \<Rightarrow> bool" where
  "idle_flag q \<longleftrightarrow> (cq_idle q \<longleftrightarrow> cq_current q = None)"

lemma step_effectD:
  assumes "step_effect c f s s'"
  shows "num_cpus s' = num_cpus s" "d \<noteq> c \<Longrightarrow> exec s' d = exec s d"
    "x \<noteq> exec s c \<Longrightarrow> (\<And>t. inserting f = Some t \<Longrightarrow> x \<noteq> Thr t) \<Longrightarrow> frames s' x = frames s x"
    "exec s c \<noteq> Thr t \<Longrightarrow> inserting f \<noteq> Some t \<Longrightarrow> ctx_of s' t = ctx_of s t"
    "d \<noteq> c \<Longrightarrow> cq_queue (cpu_queues s' d) \<noteq> cq_queue (cpu_queues s d) \<Longrightarrow> notifies (topf s' c) = Some d"
    "idle_flag (cpu_queues s d) \<Longrightarrow> idle_flag (cpu_queues s' d)"
    "blocked_on s' t a \<Longrightarrow> blocked_on s t a \<or> (\<exists>v u. f = Wait (W_mark a v u))"
    "d \<noteq> c \<Longrightarrow> irq s d \<Longrightarrow> irq s' d"
    "d \<noteq> c \<Longrightarrow> notifies f = Some d \<Longrightarrow> awaits_irq (topf s d) \<Longrightarrow> cq_idle (cpu_queues s d) \<Longrightarrow> irq s' d"
    "home s t d \<Longrightarrow> placing f \<noteq> Some t \<Longrightarrow> home s' t d"
proof -
  show "num_cpus s' = num_cpus s" "d \<noteq> c \<Longrightarrow> exec s' d = exec s d"
    "x \<noteq> exec s c \<Longrightarrow> (\<And>t. inserting f = Some t \<Longrightarrow> x \<noteq> Thr t) \<Longrightarrow> frames s' x = frames s x"
    "exec s c \<noteq> Thr t \<Longrightarrow> inserting f \<noteq> Some t \<Longrightarrow> ctx_of s' t = ctx_of s t"
    "d \<noteq> c \<Longrightarrow> irq s d \<Longrightarrow> irq s' d"
    "d \<noteq> c \<Longrightarrow> notifies f = Some d \<Longrightarrow> awaits_irq (topf s d) \<Longrightarrow> cq_idle (cpu_queues s d) \<Longrightarrow> irq s' d"
    using assms by (simp_all add: step_effect_def)
  show "d \<noteq> c \<Longrightarrow> cq_queue (cpu_queues s' d) \<noteq> cq_queue (cpu_queues s d) \<Longrightarrow> notifies (topf s' c) = Some d"
    using assms unfolding step_effect_def topf_def by blast
  show "blocked_on s' t a \<Longrightarrow> blocked_on s t a \<or> (\<exists>v u. f = Wait (W_mark a v u))"
    using assms unfolding step_effect_def by blast
  show "idle_flag (cpu_queues s d) \<Longrightarrow> idle_flag (cpu_queues s' d)"
    using assms unfolding step_effect_def idle_flag_def by metis
  show "home s t d \<Longrightarrow> placing f \<noteq> Some t \<Longrightarrow> home s' t d"
    using assms unfolding step_effect_def home_def by metis
qed

section \<open>Steps of a state that satisfies the invariant\<close>

lemma cpu_step_effect:
  assumes inv: "sched_inv s" and c: "c < num_cpus s" and st: "cpu_step c s = Some s'"
  obtains f fs where "frames s (exec s c) = f # fs" "topf s c = f" "step_frame f fs c s = Some s'"
    "step_effect c f s s'"
    "exec s' c \<noteq> exec s c \<Longrightarrow>
       saved_ctx (exec s' c) s = Some (regs s' c) \<and> claim (exec s c) f = self (exec s' c) \<and>
       ((\<exists>m. exec s' c = Thr m) \<or> exec s' c = Idle c) \<and> frames s' (exec s c) = resume_point f @ fs \<and>
       (\<forall>t. exec s c = Thr t \<longrightarrow> ctx_of s' t = map_option (\<lambda>_. regs s c) (ctx_of s t))"
proof -
  obtain f fs where fr: "frames s (exec s c) = f # fs" using st by (auto simp: cpu_step_def split: list.splits)
  have sf: "step_frame f fs c s = Some s'" using st fr by (simp add: cpu_step_def)
  have at: "at (exec s c) f (cq_current (cpu_queues s c))" by (rule exec_stack(2)[OF inv c fr])
  have x: "case exec s c of Thr t \<Rightarrow> True | Idle d \<Rightarrow> d = c | Ap d \<Rightarrow> d = c"
    using sched_invD(6)[OF inv c] by (simp add: exec_ok_def split: context_id.splits)
  have h: "own_point c f s"
    using at x by (cases "(c, f, s)" rule: own_point.cases; cases "exec s c"; simp)
  show ?thesis
  proof (rule that[OF fr _ sf step_effect[OF sf h]])
    show "topf s c = f" using fr by (simp add: topf_def)
    assume ne: "exec s' c \<noteq> exec s c"
    note sw = step_switch[OF sf ne h]
    show "saved_ctx (exec s' c) s = Some (regs s' c) \<and> claim (exec s c) f = self (exec s' c) \<and>
       ((\<exists>m. exec s' c = Thr m) \<or> exec s' c = Idle c) \<and> frames s' (exec s c) = resume_point f @ fs \<and>
       (\<forall>t. exec s c = Thr t \<longrightarrow> ctx_of s' t = map_option (\<lambda>_. regs s c) (ctx_of s t))"
      using sw(1-4) sw(5) by blast
  qed
qed

text \<open>The frames that the other CPUs are at do not change.\<close>

lemma other_frames:
  assumes inv: "sched_inv s" and c: "c < num_cpus s" and eff: "step_effect c (topf s c) s s'"
    and d: "d < num_cpus s" "d \<noteq> c"
  shows "topf s' d = topf s d" "frames s' (exec s d) = frames s (exec s d)"
proof -
  have ex: "exec s' d = exec s d" using eff d(2) by (simp add: step_effect_def)
  have "exec s d \<noteq> exec s c" using exec_inj[OF inv d(1) c] d(2) by blast
  moreover have "exec s d \<noteq> Thr t" if "inserting (topf s c) = Some t" for t
  proof
    assume "exec s d = Thr t"
    then have "threads s t \<noteq> None" using sched_invD(6)[OF inv d(1)] by (auto simp: exec_ok_def home_def)
    moreover have "threads s t = None"
      using sched_invD(8)[OF inv c] that by (cases "topf s c" rule: inserting.cases) auto
    ultimately show False by simp
  qed
  ultimately show "frames s' (exec s d) = frames s (exec s d)" using eff by (simp add: step_effect_def)
  then show "topf s' d = topf s d" by (simp add: topf_def ex)
qed

text \<open>A context that a CPU switches to was suspended.\<close>

lemma entered:
  assumes inv: "sched_inv s" and c: "c < num_cpus s" and st: "cpu_step c s = Some s'"
    and ne: "exec s' c \<noteq> exec s c"
  shows "frames s' (exec s' c) = frames s (exec s' c)" "resumes (topf s' c)"
    "exec s' c = Thr m \<Longrightarrow> sleeps m (topf s' c) \<and> home s m c \<and> (\<forall>d < num_cpus s. exec s d \<noteq> Thr m)"
proof -
  obtain f fs where f: "frames s (exec s c) = f # fs" "topf s c = f" "step_effect c f s s'"
      "claim (exec s c) f = self (exec s' c)" "(\<exists>m. exec s' c = Thr m) \<or> exec s' c = Idle c"
    using cpu_step_effect[OF inv c st] ne by metis
  have "(resumes (hd (frames s (exec s' c))) \<and> (\<forall>t. inserting f = Some t \<longrightarrow> exec s' c \<noteq> Thr t)) \<and>
    (\<forall>m. exec s' c = Thr m \<longrightarrow> sleeps m (hd (frames s (exec s' c))) \<and> home s m c \<and> (\<forall>d < num_cpus s. exec s d \<noteq> Thr m))"
  proof (cases "exec s' c")
    case (Thr m)
    then have "claim (exec s c) (topf s c) = Some m" using f by simp
    note cl = claimed[OF inv c this]
    have no: "exec s d \<noteq> Thr m" if "d < num_cpus s" for d
    proof
      assume ex: "exec s d = Thr m"
      then have "home s m d" using sched_invD(6)[OF inv that] by (simp add: exec_ok_def)
      then have "d = c" using cl(2) homeD by blast
      then show False using ne ex Thr by simp
    qed
    have th: "threads s m \<noteq> None" "\<not> dead s m"
      using cl(1) by (auto simp: dead_def runnable_def split: option.splits)
    then have "sleeps m (hd (frames s (Thr m)))"
      using sched_invD(4)[OF inv] no unfolding suspended_ok_def by blast
    moreover have "inserting f \<noteq> Some m"
      using sched_invD(8)[OF inv c] th(1) f(2) by (cases f rule: inserting.cases) auto
    ultimately show ?thesis using Thr no cl(2) sleeps_frame(6) by auto
  next
    case (Idle d)
    then have "exec s' c = Idle c" using f(5) by auto
    moreover have "hd (frames s (Idle c)) = Loop I_top \<or> hd (frames s (Idle c)) = Loop I_back"
      using sched_invD(4)[OF inv] c ne calculation by (simp add: suspended_ok_def)
    ultimately show ?thesis by auto
  qed (use f(5) in simp)
  moreover from this show fr: "frames s' (exec s' c) = frames s (exec s' c)"
    using f(3) ne by (simp add: step_effect_def)
  ultimately show "resumes (topf s' c)"
    "exec s' c = Thr m \<Longrightarrow> sleeps m (topf s' c) \<and> home s m c \<and> (\<forall>d < num_cpus s. exec s d \<noteq> Thr m)"
    by (simp_all add: topf_def fr)
qed

end
