(* ===== verification/Sched_Props.thy ===== *)
theory Sched_Props
  imports Sched_Steps
begin

text \<open>
  Runs of the scheduler and what holds in every state they reach. A run starts after \<open>init\<close> with any
  number of CPUs up to \<open>MAX_CPUS\<close> and interleaves the steps of the CPUs with system calls, timer
  interrupts, user stores and the passing of time in any order; \<open>NEXT_TID\<close>, a \<open>u32\<close> that
  every \<open>clone\<close> increments, must not wrap around.
\<close>

section \<open>Runs\<close>

inductive sched_step :: "sched \<Rightarrow> sched \<Rightarrow> bool" where
  "sched_event e s = Some s' \<Longrightarrow> next_tid s \<le> next_tid s' \<Longrightarrow> sched_step s s'"

definition sched_start :: "sched \<Rightarrow> bool" where
  "sched_start s \<longleftrightarrow> (\<exists>b n. 0 < n \<and> n \<le> MAX_CPUS \<and> s = sched_init b n)"

text \<open>Runs can be computed from the sequence of their events.\<close>

fun sched_run :: "event list \<Rightarrow> sched \<Rightarrow> sched option" where
  "sched_run [] s = Some s"
| "sched_run (e # es) s =
     (case sched_event e s of
        None \<Rightarrow> None
      | Some s' \<Rightarrow> if next_tid s \<le> next_tid s' then sched_run es s' else None)"

lemma sched_run_steps: "sched_run es s = Some s' \<Longrightarrow> sched_step\<^sup>*\<^sup>* s s'"
proof (induction es s rule: sched_run.induct)
  case (2 e es s)
  then show ?case
    by (auto split: option.splits if_splits intro: converse_rtranclp_into_rtranclp sched_step.intros)
qed simp

text \<open>A boot configuration for the concrete runs.\<close>

definition boot0 :: boot where
  "boot0 = \<lparr>boot_kstack = 0x1000, boot_fxsave = [], boot_idle_rsp = (\<lambda>_. 0), boot_regs = (\<lambda>_. zero_ctx []),
     boot_mem = (\<lambda>_. 0)\<rparr>"

lemmas run_defs = sched_event_def cpu_step_def in_user_def call_frames_def cont_def upd_thread_def upd_queue_def
  push_tid_def return_val_def set_current_kernel_stack_def unlock_bucket_def lock_bucket_def
  release_pending_unlock_def send_ipi_def awaits_irq_def context_switch_def load_ctx_def save_ctx_def
  saved_ctx_def unlock_rescue_def check_resched_def resched_def topf_def get_clone_regs_def
  sched_init_def main_thread_def zero_ctx_def boot0_def Let_def MAX_THREADS_def MAX_CPUS_def
  futex_bucket_def FUTEX_BUCKETS_def pending_wake_consume_def pending_wake_insert_def
  PENDING_WAKES_PER_BUCKET_def wake_thread_def pick_cpu_def new_thread_def store_tids_def kstack_of_def
  KSTACK_USABLE_def PREEMPT_REGION_SIZE_def

definition args0 :: clone_args where
  "args0 = \<lparr>ca_fn_ptr = 0, ca_stack = 0x8000, ca_tls = 0, ca_child_tid = 0, ca_parent_tid = 0, ca_flags = 0\<rparr>"

text \<open>The main thread creates a second thread, which an application processor starts.\<close>

definition two_threads :: "event list" where
  "two_threads = [Run 1, Syscall 0 (Call_clone args0) 7 9] @ replicate 8 (Run 0) @ replicate 39 (Run 1) @
     replicate 35 (Run 0)"

lemma replicate_event [simp]:
  "replicate (numeral k) (e :: event) = e # replicate (pred_numeral k) e" "replicate 1 (e :: event) = [e]"
  by (simp_all add: numeral_eq_Suc One_nat_def)

lemma sched_run_append: "sched_run (es @ es') s = Option.bind (sched_run es s) (sched_run es')"
  by (induction es s rule: sched_run.induct) (auto split: option.splits)

lemma sched_start_boot0 [simp]: "sched_start (sched_init boot0 1)" "sched_start (sched_init boot0 2)"
  unfolding sched_start_def MAX_CPUS_def by (intro exI conjI; simp)+

lemma same_core_inv:
  assumes "same_core s s1" "pending_unlock s1 = pending_unlock s" "futex_locks s1 = futex_locks s" "sched_inv s"
  shows "sched_inv s1"
proof -
  have eq: "num_cpus s1 = num_cpus s" "exec s1 = exec s" "frames s1 = frames s" "threads s1 = threads s"
    "cpu_queues s1 = cpu_queues s" "next_tid s1 = next_tid s" "thread_lock s1 = thread_lock s"
    using assms(1) by (simp_all add: same_core_def)
  have tf: "topf s1 = topf s" by (simp add: fun_eq_iff topf_def eq)
  have h: "home s1 = home s" "dead s1 = dead s" "unstarted s1 = unstarted s" "runnable s1 = runnable s"
    by (simp_all add: fun_eq_iff home_def dead_def unstarted_def runnable_def eq)
  have pt: "point_ok s1 f = point_ok s f" for f
    by (cases "(s, f)" rule: point_ok.cases) (simp_all add: eq h)
  show ?thesis
    using assms(4)
    by (simp add: sched_inv_def threads_ok_def exec_ok_def place_ok_def handoff_ok_def suspended_ok_def
        locks_ok_def lholds_def tokens_def qtok_def ltok_def eq tf h pt assms(2,3) cong: context_id.case_cong)
qed

lemma cpu_step_inv:
  assumes inv: "sched_inv s" and c: "c < num_cpus s" and st: "cpu_step c s = Some s'" and nw: "next_tid s \<le> next_tid s'"
  shows "sched_inv s'"
proof -
  obtain f fs where fr: "frames s (exec s c) = f # fs" and sf: "step_frame f fs c s = Some s'"
    using st by (auto simp: cpu_step_def split: list.splits)
  note x = exec_stack[OF inv c fr]
  show ?thesis
  proof (cases f)
    case Check_resched
    then obtain t where t: "exec s c = Thr t" using at_thread(6) x(2) by blast
    show ?thesis
      using sf Check_resched push_call_stack[OF x(1), of Resched] t
      by (auto simp: check_resched_def same_core_def plain_def intro!: goto_inv[OF inv c fr])
  next
    case Resched
    then obtain t where t: "exec s c = Thr t" using at_thread(7) x(2) by blast
    show ?thesis
      using sf Resched t
      by (auto simp: resched_def same_core_def plain_def split: if_splits intro!: pop_inv[OF inv c fr] thread_goto_inv[OF inv c fr])
  qed (use sf fr nw step_rescue_inv[OF inv c] step_yield_inv[OF inv c] step_wait_inv[OF inv c] step_wake_inv[OF inv c]
      step_spawn_inv[OF inv c] step_exit_inv[OF inv c] step_loop_inv[OF inv c] in auto)
qed

lemma timer_simps [simp]:
  "num_cpus (timer_tick c s) = num_cpus s" "exec (timer_tick c s) = exec s" "frames (timer_tick c s) = frames s"
  "threads (timer_tick c s) = threads s" "cpu_queues (timer_tick c s) = cpu_queues s"
  "num_cpus (watchdog_wake s) = num_cpus s" "exec (watchdog_wake s) = exec s" "frames (watchdog_wake s) = frames s"
  "threads (watchdog_wake s) = threads s" "cpu_queues (watchdog_wake s) = cpu_queues s"
  by (simp_all add: timer_tick_def watchdog_wake_def Let_def)

lemma timer_core:
  "same_core s (send_ipi c (timer_tick c (watchdog_wake s)))"
  "pending_unlock (send_ipi c (timer_tick c (watchdog_wake s))) = pending_unlock s"
  "futex_locks (send_ipi c (timer_tick c (watchdog_wake s))) = futex_locks s"
  by (simp_all add: same_core_def timer_tick_def watchdog_wake_def Let_def)

lemma timer_inv:
  assumes inv: "sched_inv s" and c: "c < num_cpus s"
  shows "sched_inv (timer_handler c s)"
proof -
  let ?s = "send_ipi c (timer_tick c (watchdog_wake s))"
  have inv1: "sched_inv ?s" by (rule same_core_inv[OF timer_core inv])
  show ?thesis
  proof (cases "\<exists>fs. frames s (exec s c) = User # fs")
    case True
    then obtain fs where fr: "frames s (exec s c) = User # fs" by blast
    have fr1: "frames ?s (exec ?s c) = User # fs" by (simp add: fr)
    have c1: "c < num_cpus ?s" using c by simp
    note x = exec_stack[OF inv c fr]
    obtain t where t: "exec s c = Thr t" using at_thread(5)[OF x(2)] by blast
    have "sched_inv (cont c (Check_resched # User # fs) ?s)"
      by (rule goto_inv[OF inv1 c1 fr1])
        (use t x(1) in \<open>auto simp: same_core_def plain_def stack_ok_def\<close>)
    then show ?thesis by (simp add: timer_handler_def Let_def fr)
  next
    case False
    then have "timer_handler c s = ?s"
      by (auto simp: timer_handler_def Let_def split: list.splits frame.splits)
    then show ?thesis using inv1 by simp
  qed
qed

lemma syscall_inv:
  assumes inv: "sched_inv s" and c: "c < num_cpus s" and u: "in_user c s"
  shows "sched_inv (cont c (call_frames k @ [Check_resched, User]) (s\<lparr>percpu := p\<rparr>))"
proof -
  have fr: "frames s (exec s c) = User # []" using u by (simp add: in_user_def)
  note x = exec_stack[OF inv c fr]
  obtain t where t: "exec s c = Thr t" using at_thread(5)[OF x(2)] by blast
  obtain g gs where g: "call_frames k @ [Check_resched, User] = g # gs" "plain (exec s c) g" "holds g = None"
    "stack_ok (exec s c) (g # gs)"
    by (cases k) (auto simp: call_frames_def plain_def stack_ok_def t)
  show ?thesis unfolding g(1)
    by (rule goto_inv[OF inv c fr]) (use g t in \<open>auto simp: same_core_def plain_def\<close>)
qed

lemma sched_event_inv:
  assumes inv: "sched_inv s" and st: "sched_event e s = Some s'" and nw: "next_tid s \<le> next_tid s'"
  shows "sched_inv s'"
proof -
  have core: "sched_inv s1"
    if "same_core s s1" "pending_unlock s1 = pending_unlock s" "futex_locks s1 = futex_locks s" for s1
    using that inv by (rule same_core_inv)
  show ?thesis
  proof (cases e)
    case (Run c)
    then show ?thesis using st nw cpu_step_inv[OF inv] by (auto simp: sched_event_def split: if_splits)
  next
    case (Syscall c k r9 rip)
    then show ?thesis using st by (auto simp: sched_event_def split: if_splits intro!: syscall_inv[OF inv])
  next
    case (Timer c)
    then show ?thesis using st timer_inv[OF inv] by (auto simp: sched_event_def split: if_splits)
  qed (use st in \<open>auto simp: sched_event_def same_core_def enable_blocking_futex_def split: if_splits intro!: core\<close>)
qed

lemma sched_init_inv: "sched_start s \<Longrightarrow> sched_inv s"
proof -
  assume "sched_start s"
  then obtain b n where n: "0 < n" "n \<le> MAX_CPUS" and s: "s = sched_init b n" by (auto simp: sched_start_def)
  have tf: "topf s c = (if c = 0 then User else Loop A_loop)" for c by (simp add: topf_def s sched_init_def)
  have ex: "exec s c = (if c = 0 then Thr 0 else Ap c)" for c by (simp add: s sched_init_def)
  have n': "num_cpus s = n" by (simp add: s sched_init_def)
  have lt: "ltok s c t = of_bool (c = 0 \<and> t = 0)" for c t by (auto simp: ltok_def tf ex)
  have "(\<Sum>c<n. ltok s c t) = of_bool (t = 0)" for t
  proof -
    have "(\<Sum>c<n. ltok s c t) + 0 = (\<Sum>c<n. 0) + ltok s 0 t"
      using n(1) by (intro sum_change) (simp_all add: lt)
    then show ?thesis by (simp add: lt)
  qed
  then have tok: "tokens s t = of_bool (runnable s t)" for t
    by (simp add: tokens_def n' qtok_def runnable_def) (simp add: s sched_init_def main_thread_def)
  have pu: "pending_unlock s c = None" for c by (simp add: s sched_init_def)
  have "holds (topf s c) = None" for c by (simp add: tf)
  then have "(\<Sum>c<n. lholds s b' c) = 0" for b' by (simp add: lholds_def pu)
  moreover have "\<not> holds_thread_lock (topf s c)" for c by (simp add: tf)
  then have "(\<Sum>c<n. of_bool (holds_thread_lock (topf s c)) :: nat) = 0" by simp
  ultimately have "locks_ok s" by (simp add: locks_ok_def n' s sched_init_def)
  moreover have "suspended_ok s"
    using n(1) by (auto simp: suspended_ok_def ex n') (auto simp: s sched_init_def stack_ok_def)
  moreover have "exec_ok s c \<and> place_ok s c \<and> point_ok s (topf s c) \<and> handoff_ok s c" for c
    by (auto simp: exec_ok_def place_ok_def handoff_ok_def tf ex)
      (auto simp: s sched_init_def home_def main_thread_def stack_ok_def)
  moreover have "threads_ok s"
    using n(1) by (auto simp: threads_ok_def s sched_init_def main_thread_def MAX_THREADS_def)
  ultimately show ?thesis using n tok by (simp add: sched_inv_def n' tf)
qed

interpretation sched_sys: transition_system sched_start sched_step sched_inv
  by unfold_locales (auto intro: sched_init_inv sched_event_inv elim!: sched_step.cases)


lemma sched_reachable_inv: "sched_start s0 \<Longrightarrow> sched_step\<^sup>*\<^sup>* s0 s \<Longrightarrow> sched_inv s"
  by (rule sched_sys.reachable_inv)

section \<open>One place per thread\<close>

fun leaving :: "nat \<Rightarrow> frame \<Rightarrow> bool" where
  "leaving t (Yield (Y_switch cur m k)) \<longleftrightarrow> cur = t"
| "leaving t (Wait (W_pick b u)) \<longleftrightarrow> u = t"
| "leaving t (Wait (W_handoff b u sw)) \<longleftrightarrow> u = t"
| "leaving t (Wait (W_switch u sw)) \<longleftrightarrow> u = t"
| "leaving t f \<longleftrightarrow> False"

lemma distinct_count_list: "(\<And>t. count_list xs t \<le> 1) \<Longrightarrow> distinct xs"
proof (induction xs)
  case (Cons x xs)
  have "count_list xs t \<le> 1" for t using Cons.prems[of t] by (simp split: if_splits)
  moreover have "x \<notin> set xs" using Cons.prems[of x] count_list_0_iff[of xs x] by simp
  ultimately show ?case using Cons.IH by simp
qed simp

lemma count_list_concat: "count_list (concat (map f [0..<n])) t = (\<Sum>c<n. count_list (f c) t)"
  by (induction n) simp_all

lemma executing_claims:
  assumes inv: "sched_inv s" and c: "c < num_cpus s" and t: "exec s c = Thr t"
  shows "claim (exec s c) (topf s c) = Some t \<or> leaving t (topf s c) \<or> topf s c = Exit (X_switch (Some t))"
  using sched_invD(6)[OF inv c] t
  by (cases "(Thr t, topf s c)" rule: claim.cases) (auto simp: exec_ok_def)

text \<open>C1 In every reachable state each runnable thread is in exactly one place: once in one run queue,
  or current on one CPU, or on its way into a queue; a blocked or dead thread is in none. No run queue
  holds a thread twice, no two queues share a thread, no thread executes on two CPUs, queued threads
  are runnable and on their home CPU, and a queued thread that still executes does so on that CPU and
  is about to be switched out.\<close>

theorem sched_one_place:
  assumes "sched_start s0" "sched_step\<^sup>*\<^sup>* s0 s"
  shows "(\<forall>t. tokens s t = of_bool (runnable s t)) \<and>
    distinct (concat (map (\<lambda>c. cq_queue (cpu_queues s c)) [0..<num_cpus s])) \<and>
    (\<forall>c < num_cpus s. \<forall>t \<in> set (cq_queue (cpu_queues s c)). runnable s t \<and> home s t c) \<and>
    (\<forall>c < num_cpus s. \<forall>d < num_cpus s. \<forall>t. exec s c = Thr t \<and> exec s d = Thr t \<longrightarrow> c = d) \<and>
    (\<forall>c < num_cpus s. \<forall>d < num_cpus s. \<forall>t.
       exec s c = Thr t \<and> t \<in> set (cq_queue (cpu_queues s d)) \<longrightarrow> c = d \<and> leaving t (topf s c))"
proof (intro conjI)
  have inv: "sched_inv s" by (rule sched_reachable_inv[OF assms])
  note I = sched_invD[OF inv]
  show tok: "\<forall>t. tokens s t = of_bool (runnable s t)" using I(10) by blast
  have le: "qtok s t \<le> of_bool (runnable s t)" for t using I(10)[of t] by (simp add: tokens_def)
  have "count_list (concat (map (\<lambda>c. cq_queue (cpu_queues s c)) [0..<num_cpus s])) t \<le> 1" for t
    using le[of t] by (cases "runnable s t") (simp_all add: count_list_concat qtok_def)
  then show "distinct (concat (map (\<lambda>c. cq_queue (cpu_queues s c)) [0..<num_cpus s]))"
    by (rule distinct_count_list)
  show q: "\<forall>c < num_cpus s. \<forall>t \<in> set (cq_queue (cpu_queues s c)). runnable s t \<and> home s t c"
  proof (intro allI impI ballI)
    fix c t assume c: "c < num_cpus s" and t: "t \<in> set (cq_queue (cpu_queues s c))"
    have "count_list (cq_queue (cpu_queues s c)) t \<le> qtok s t" unfolding qtok_def using c by (rule le_sum)
    moreover have "count_list (cq_queue (cpu_queues s c)) t \<noteq> 0" using t by (simp add: count_list_0_iff)
    ultimately have "runnable s t" using le[of t] by (cases "runnable s t") auto
    then show "runnable s t \<and> home s t c" using I(7)[OF c] t by (simp add: place_ok_def)
  qed
  show "\<forall>c < num_cpus s. \<forall>d < num_cpus s. \<forall>t. exec s c = Thr t \<and> exec s d = Thr t \<longrightarrow> c = d"
    using exec_inj[OF inv] by metis
  show "\<forall>c < num_cpus s. \<forall>d < num_cpus s. \<forall>t.
           exec s c = Thr t \<and> t \<in> set (cq_queue (cpu_queues s d)) \<longrightarrow> c = d \<and> leaving t (topf s c)"
  proof (intro allI impI, elim conjE)
    fix c d t
    assume c: "c < num_cpus s" and d: "d < num_cpus s" and t: "exec s c = Thr t"
      and tq: "t \<in> set (cq_queue (cpu_queues s d))"
    have "home s t c" "home s t d" "runnable s t" using I(6)[OF c] t q d tq by (simp_all add: exec_ok_def)
    then have "c = d" "\<not> dead s t" using homeD by (blast, auto simp: runnable_def dead_def split: option.splits)
    moreover have "claim (exec s c) (topf s c) \<noteq> Some t" using claimed(4)[OF inv c _ d] tq by blast
    moreover have "topf s c \<noteq> Exit (X_switch (Some t))" using I(8)[OF c] \<open>\<not> dead s t\<close> by auto
    ultimately show "c = d \<and> leaving t (topf s c)" using executing_claims[OF inv c t] by blast
  qed
qed

theorem sched_one_place_witness:
  "\<exists>s. sched_run [Syscall 0 (Call_clone args0) 7 9, Run 0, Run 0, Run 0, Run 0, Run 0, Run 0, Run 0] (sched_init boot0 2) = Some s \<and>
    cq_queue (cpu_queues s 1) = [1] \<and> tokens s 1 = 1 \<and> tokens s 0 = 1 \<and> tokens s 2 = 0"
proof -
  obtain s where s: "sched_run [Syscall 0 (Call_clone args0) 7 9, Run 0, Run 0, Run 0, Run 0, Run 0, Run 0, Run 0] (sched_init boot0 2) = Some s"
      "cq_queue (cpu_queues s 1) = [1]" "runnable s 0" "runnable s 1" "\<not> runnable s 2"
    by (simp add: run_defs args0_def runnable_def)
  note one = sched_one_place[OF sched_start_boot0(2) sched_run_steps[OF s(1)]]
  have "tokens s t = of_bool (runnable s t)" for t using one by blast
  then show ?thesis using s by simp
qed

section \<open>Locks\<close>

definition holder :: "sched \<Rightarrow> nat \<Rightarrow> nat \<Rightarrow> bool" where
  "holder s b c \<longleftrightarrow> holds (topf s c) = Some b \<or> pending_unlock s c = Some b"

lemma sum_ex:
  fixes g :: "nat \<Rightarrow> nat"
  shows "(\<Sum>d<n. g d) \<noteq> 0 \<Longrightarrow> \<exists>d<n. g d \<noteq> 0"
  by (metis lessThan_iff sum.neutral)

lemma lock_holder:
  assumes inv: "sched_inv s" and b: "futex_locks s b"
  shows "\<exists>c < num_cpus s. holder s b c"
proof -
  have "(\<Sum>c<num_cpus s. lholds s b c) = 1" using sched_invD(5)[OF inv] b unfolding locks_ok_def by simp
  then obtain c where "c < num_cpus s" "lholds s b c \<noteq> 0" using sum_ex[of "lholds s b" "num_cpus s"] by auto
  then show ?thesis by (auto simp: holder_def lholds_def)
qed

lemma thread_lock_holder:
  assumes inv: "sched_inv s" and l: "thread_lock s"
  shows "\<exists>c < num_cpus s. holds_thread_lock (topf s c)"
proof -
  have "(\<Sum>c<num_cpus s. of_bool (holds_thread_lock (topf s c))) = (1 :: nat)"
    using sched_invD(5)[OF inv] l unfolding locks_ok_def by simp
  then show ?thesis using sum_ex[of "\<lambda>c. of_bool (holds_thread_lock (topf s c))" "num_cpus s"] by auto
qed

lemma holder_unique:
  assumes inv: "sched_inv s" and c: "c < num_cpus s" "d < num_cpus s" "holder s b c" "holder s b d"
  shows "c = d" "futex_locks s b" "lholds s b c = 1"
proof -
  have sum: "(\<Sum>e<num_cpus s. lholds s b e) = of_bool (futex_locks s b)"
    using sched_invD(5)[OF inv] unfolding locks_ok_def by blast
  have one: "1 \<le> lholds s b c" "1 \<le> lholds s b d" using c(3,4) by (auto simp: holder_def lholds_def)
  have le: "lholds s b c \<le> of_bool (futex_locks s b)" using le_sum[OF c(1), of "lholds s b"] sum by simp
  then show "futex_locks s b" using one(1) by (cases "futex_locks s b") auto
  then show "lholds s b c = 1" using le one(1) by simp
  show "c = d"
  proof (rule ccontr)
    assume "c \<noteq> d"
    then have "lholds s b c + lholds s b d \<le> 1"
      using le_sum2[OF c(1,2), of "lholds s b"] sum \<open>futex_locks s b\<close> by simp
    then show False using one by simp
  qed
qed

lemma thread_lock_unique:
  assumes inv: "sched_inv s" and c: "c < num_cpus s" "d < num_cpus s"
    "holds_thread_lock (topf s c)" "holds_thread_lock (topf s d)"
  shows "c = d" "thread_lock s"
proof -
  let ?g = "\<lambda>c. of_bool (holds_thread_lock (topf s c)) :: nat"
  have sum: "(\<Sum>e<num_cpus s. ?g e) = of_bool (thread_lock s)"
    using sched_invD(5)[OF inv] unfolding locks_ok_def by blast
  have le: "?g c \<le> of_bool (thread_lock s)" using le_sum[OF c(1), of ?g] unfolding sum .
  then show tl: "thread_lock s" using c(3) by (cases "thread_lock s") auto
  show "c = d"
  proof (rule ccontr)
    assume "c \<noteq> d"
    then have "?g c + ?g d \<le> of_bool (thread_lock s)" using le_sum2[OF c(1,2), of ?g] unfolding sum by simp
    then show False using c(3,4) tl by simp
  qed
qed

text \<open>C10 The futex bucket locks exclude each other although they are handed over across context
  switches: a bucket lock is taken exactly when one CPU is its holder, by its program point or by an
  unlock that was left to it, never two; a CPU to which an unlock was left is about to switch or to
  release it, and the release always finds the lock taken. The same holds for the thread lock.\<close>

theorem sched_lock_handoff:
  assumes "sched_start s0" "sched_step\<^sup>*\<^sup>* s0 s"
  shows "(\<forall>b. futex_locks s b \<longleftrightarrow> (\<exists>c < num_cpus s. holder s b c)) \<and>
    (\<forall>b c d. c < num_cpus s \<and> d < num_cpus s \<and> holder s b c \<and> holder s b d \<longrightarrow> c = d) \<and>
    (\<forall>b c. c < num_cpus s \<longrightarrow> \<not> (holds (topf s c) = Some b \<and> pending_unlock s c = Some b)) \<and>
    (\<forall>b c. c < num_cpus s \<and> pending_unlock s c = Some b \<longrightarrow>
       futex_locks s b \<and> (resumes (topf s c) \<or> (\<exists>t sw. topf s c = Wait (W_switch t sw)))) \<and>
    (thread_lock s \<longleftrightarrow> (\<exists>c < num_cpus s. holds_thread_lock (topf s c))) \<and>
    (\<forall>c d. c < num_cpus s \<and> d < num_cpus s \<and> holds_thread_lock (topf s c) \<and> holds_thread_lock (topf s d) \<longrightarrow> c = d)"
proof (intro conjI allI iffI impI)
  have inv: "sched_inv s" by (rule sched_reachable_inv[OF assms])
  show "\<exists>c < num_cpus s. holder s b c" if "futex_locks s b" for b using lock_holder[OF inv that] .
  show "futex_locks s b" if "\<exists>c < num_cpus s. holder s b c" for b using holder_unique(2)[OF inv] that by blast
  show "c = d" if "c < num_cpus s \<and> d < num_cpus s \<and> holder s b c \<and> holder s b d" for b c d
    using holder_unique(1)[OF inv] that by blast
  show "\<not> (holds (topf s c) = Some b \<and> pending_unlock s c = Some b)" if "c < num_cpus s" for b c
  proof
    assume "holds (topf s c) = Some b \<and> pending_unlock s c = Some b"
    then have "holder s b c" "lholds s b c = 2" by (simp_all add: holder_def lholds_def)
    then show False using holder_unique(3)[OF inv that that] by fastforce
  qed
  show "futex_locks s b" if "c < num_cpus s \<and> pending_unlock s c = Some b" for b c
    using holder_unique(2)[OF inv, of c c b] that by (simp add: holder_def)
  show "resumes (topf s c) \<or> (\<exists>t sw. topf s c = Wait (W_switch t sw))"
    if "c < num_cpus s \<and> pending_unlock s c = Some b" for b c
    using sched_invD(9)[OF inv, of c] that by (simp add: handoff_ok_def)
  show "\<exists>c < num_cpus s. holds_thread_lock (topf s c)" if "thread_lock s" using thread_lock_holder[OF inv that] .
  show "thread_lock s" if "\<exists>c < num_cpus s. holds_thread_lock (topf s c)"
    using thread_lock_unique(2)[OF inv] that by blast
  show "c = d" if "c < num_cpus s \<and> d < num_cpus s \<and> holds_thread_lock (topf s c) \<and> holds_thread_lock (topf s d)" for c d
    using thread_lock_unique(1)[OF inv] that by blast
qed

theorem sched_lock_handoff_witness:
  "\<exists>s. sched_run [Syscall 0 (Call_wake 4 1) 0 0, Run 0, Run 0] (sched_init boot0 1) = Some s \<and>
    futex_locks s 1 \<and> holder s 1 0 \<and> thread_lock s \<and> holds_thread_lock (topf s 0)"
proof -
  obtain s where s: "sched_run [Syscall 0 (Call_wake 4 1) 0 0, Run 0, Run 0] (sched_init boot0 1) = Some s"
      "futex_locks s 1" "thread_lock s" "num_cpus s = 1" by (simp add: run_defs)
  note ho = sched_lock_handoff[OF sched_start_boot0(1) sched_run_steps[OF s(1)]]
  have "\<exists>c < num_cpus s. holder s 1 c" "\<exists>c < num_cpus s. holds_thread_lock (topf s c)" using ho s(2,3) by blast+
  then show ?thesis using s by simp
qed

section \<open>Progress\<close>

fun parked :: "frame \<Rightarrow> bool" where
  "parked User \<longleftrightarrow> True"
| "parked (Loop I_hlt) \<longleftrightarrow> True"
| "parked (Loop A_hlt) \<longleftrightarrow> True"
| "parked f \<longleftrightarrow> False"

fun waits_bucket :: "frame \<Rightarrow> nat option" where
  "waits_bucket (Rescue (R_lock i addr)) = Some (futex_bucket addr)"
| "waits_bucket (Wait (W_lock addr v d)) = Some (futex_bucket addr)"
| "waits_bucket (Wake (K_lock addr n)) = Some (futex_bucket addr)"
| "waits_bucket f = None"

fun waits_thread_lock :: "frame \<Rightarrow> bool" where
  "waits_thread_lock (Rescue (R_tlock i addr)) \<longleftrightarrow> True"
| "waits_thread_lock (Wake (K_tlock addr n)) \<longleftrightarrow> True"
| "waits_thread_lock (Spawn (S_insert a tid k r9 rip)) \<longleftrightarrow> True"
| "waits_thread_lock f \<longleftrightarrow> False"

lemma holder_points:
  assumes "sched_inv s" "c < num_cpus s" "holder s b c"
  shows "holds (topf s c) \<noteq> None \<or> resumes (topf s c) \<or> (\<exists>t sw. topf s c = Wait (W_switch t sw))"
  using assms(3) sched_invD(9)[OF assms(1,2)] unfolding holder_def handoff_ok_def by auto

lemma holder_frame:
  assumes "holds f \<noteq> None \<or> resumes f \<or> (\<exists>t sw. f = Wait (W_switch t sw))"
  shows "\<not> parked f \<and> waits_bucket f = None"
  using assms by (cases f rule: waits_bucket.cases) (auto elim: parked.elims)

lemma blocked_step:
  assumes inv: "sched_inv s" and c: "c < num_cpus s" and st: "cpu_step c s = None"
  shows "parked (topf s c) \<or> (\<exists>b. waits_bucket (topf s c) = Some b \<and> futex_locks s b) \<or>
    (waits_thread_lock (topf s c) \<and> thread_lock s)"
proof -
  obtain f fs where fr: "frames s (exec s c) = f # fs"
    using sched_invD(6)[OF inv c] by (cases "frames s (exec s c)") (auto simp: exec_ok_def stack_ok_def)
  have tf: "topf s c = f" using fr by (simp add: topf_def)
  have at: "at (exec s c) f (cq_current (cpu_queues s c))" by (rule exec_stack(2)[OF inv c fr])
  have sf: "step_frame f fs c s = None" using st fr by (simp add: cpu_step_def)
  show ?thesis unfolding tf
  proof (cases f)
    case (Rescue p)
    then show "parked f \<or> (\<exists>b. waits_bucket f = Some b \<and> futex_locks s b) \<or> (waits_thread_lock f \<and> thread_lock s)"
      using sf by (cases p) (auto simp: Let_def split: if_splits option.splits)
  next
    case (Yield p)
    then show "parked f \<or> (\<exists>b. waits_bucket f = Some b \<and> futex_locks s b) \<or> (waits_thread_lock f \<and> thread_lock s)"
      using sf by (cases p) (auto simp: Let_def split: if_splits option.splits list.splits)
  next
    case (Wait p)
    then show "parked f \<or> (\<exists>b. waits_bucket f = Some b \<and> futex_locks s b) \<or> (waits_thread_lock f \<and> thread_lock s)"
      using sf by (cases "(p, fs, c, s)" rule: step_wait.cases)
        (auto simp: Let_def split: if_splits option.splits list.splits prod.splits)
  next
    case (Wake p)
    then show "parked f \<or> (\<exists>b. waits_bucket f = Some b \<and> futex_locks s b) \<or> (waits_thread_lock f \<and> thread_lock s)"
      using sf by (cases p) (auto simp: Let_def split: if_splits option.splits)
  next
    case (Spawn p)
    then show "parked f \<or> (\<exists>b. waits_bucket f = Some b \<and> futex_locks s b) \<or> (waits_thread_lock f \<and> thread_lock s)"
      using sf by (cases p) (auto simp: Let_def split: if_splits option.splits prod.splits)
  next
    case (Exit p)
    then show "parked f \<or> (\<exists>b. waits_bucket f = Some b \<and> futex_locks s b) \<or> (waits_thread_lock f \<and> thread_lock s)"
      using sf at by (cases p; cases "exec s c") auto
  next
    case (Loop p)
    then show "parked f \<or> (\<exists>b. waits_bucket f = Some b \<and> futex_locks s b) \<or> (waits_thread_lock f \<and> thread_lock s)"
      using sf by (cases p) (auto simp: Let_def split: if_splits option.splits list.splits)
  qed (use sf in auto)
qed

text \<open>C16 The scheduler does not deadlock: a CPU that spins on a lock waits for another CPU that can take
  a step - the holder of that lock, or the holder of the thread lock for which the first holder waits
  in turn.\<close>

theorem sched_no_deadlock:
  assumes "sched_start s0" "sched_step\<^sup>*\<^sup>* s0 s" "c < num_cpus s" "cpu_step c s = None" "\<not> parked (topf s c)"
  shows "\<exists>d < num_cpus s. d \<noteq> c \<and> cpu_step d s \<noteq> None \<and>
    (holds_thread_lock (topf s d) \<or> (\<exists>b. waits_bucket (topf s c) = Some b \<and> holder s b d))"
proof -
  have inv: "sched_inv s" by (rule sched_reachable_inv[OF assms(1,2)])
  have tl: "\<exists>d < num_cpus s. d \<noteq> e \<and> cpu_step d s \<noteq> None \<and> holds_thread_lock (topf s d)"
    if e: "thread_lock s" "\<not> holds_thread_lock (topf s e)" for e
  proof -
    obtain d where d: "d < num_cpus s" "holds_thread_lock (topf s d)" using thread_lock_holder[OF inv e(1)] by blast
    have "cpu_step d s \<noteq> None"
    proof
      assume "cpu_step d s = None"
      from blocked_step[OF inv d(1) this] d(2) show False
        by (cases "topf s d" rule: holds_thread_lock.cases) auto
    qed
    then show ?thesis using d e(2) by blast
  qed
  have free: "\<not> holds_thread_lock (topf s e)" if "waits_thread_lock (topf s e) \<or> waits_bucket (topf s e) \<noteq> None" for e
    using that by (cases "topf s e" rule: holds_thread_lock.cases) auto
  from blocked_step[OF inv assms(3,4)] assms(5)
  consider b where "waits_bucket (topf s c) = Some b" "futex_locks s b"
    | "waits_thread_lock (topf s c)" "thread_lock s" by blast
  then show ?thesis
  proof cases
    case 1
    obtain d where d: "d < num_cpus s" "holder s b d" using lock_holder[OF inv 1(2)] by blast
    have ndc: "d \<noteq> c"
    proof
      assume "d = c"
      then show False using holder_frame[OF holder_points[OF inv d]] 1(1) by simp
    qed
    show ?thesis
    proof (cases "cpu_step d s")
      case (Some s')
      then show ?thesis using d 1 ndc by blast
    next
      case None
      have "waits_thread_lock (topf s d) \<and> thread_lock s"
      proof -
        have "\<not> parked (topf s d)" "waits_bucket (topf s d) = None"
          using holder_frame[OF holder_points[OF inv d]] by auto
        then show ?thesis using blocked_step[OF inv d(1) None] by auto
      qed
      then show ?thesis using tl[of c] free[of c] 1(1) by blast
    qed
  next
    case 2
    then show ?thesis using tl[of c] free[of c] by blast
  qed
qed

theorem sched_no_deadlock_witness:
  "\<exists>s. cpu_step 1 s = None \<and> topf s 1 = Wake (K_lock 4 1) \<and>
    (\<exists>d < num_cpus s. d \<noteq> 1 \<and> cpu_step d s \<noteq> None \<and> (holds_thread_lock (topf s d) \<or> holder s 1 d))"
proof -
  obtain s where s: "sched_run (two_threads @ [Syscall 0 (Call_wake 4 1) 0 0, Run 0, Syscall 1 (Call_wake 4 1) 0 0]) (sched_init boot0 2) = Some s"
      "cpu_step 1 s = None" "topf s 1 = Wake (K_lock 4 1)" "num_cpus s = 2"
    by (simp add: run_defs two_threads_def args0_def)
  have "\<exists>d < num_cpus s. d \<noteq> 1 \<and> cpu_step d s \<noteq> None \<and>
    (holds_thread_lock (topf s d) \<or> (\<exists>b. waits_bucket (topf s 1) = Some b \<and> holder s b d))"
    by (rule sched_no_deadlock[OF sched_start_boot0(2) sched_run_steps[OF s(1)]]) (use s in simp_all)
  then have "\<exists>d < num_cpus s. d \<noteq> 1 \<and> cpu_step d s \<noteq> None \<and> (holds_thread_lock (topf s d) \<or> holder s 1 d)"
    using s(3) by (simp add: futex_bucket_def FUTEX_BUCKETS_def)
  then show ?thesis using s(2,3) by blast
qed

end
