(* ===== verification/Sched_Wake.thy ===== *)
theory Sched_Wake
  imports Sched_Effects Sched_Props
begin

text \<open>
  Wake-ups are not lost, and a thread that is switched out continues where it was. The invariant of
  this theory adds to that of the scheduler what a waker has established so far, that the idle flag of a
  queue agrees with its current thread, and that a halted CPU with a nonempty queue has been or is
  about to be notified.
\<close>

section \<open>The invariant\<close>

fun scanned :: "sched \<Rightarrow> frame \<Rightarrow> bool" where
  "scanned s (Wake (K_scan addr n i w)) \<longleftrightarrow> w \<le> n \<and> (\<forall>j<i. \<not> blocked_on s j addr)"
| "scanned s (Wake (K_push addr n i w target tid)) \<longleftrightarrow> w \<le> n \<and> (\<forall>j\<le>i. \<not> blocked_on s j addr)"
| "scanned s (Wake (K_ipi addr n i w target)) \<longleftrightarrow> w \<le> n \<and> (\<forall>j\<le>i. \<not> blocked_on s j addr)"
| "scanned s (Wake (K_end addr n w)) \<longleftrightarrow> w \<le> n \<and> (w = n \<or> (\<forall>j<MAX_THREADS. \<not> blocked_on s j addr))"
| "scanned s f \<longleftrightarrow> True"

definition notified :: "sched \<Rightarrow> nat \<Rightarrow> bool" where
  "notified s c \<longleftrightarrow> irq s c \<or> (\<exists>d < num_cpus s. d \<noteq> c \<and> notifies (topf s d) = Some c)"

definition wake_inv :: "sched \<Rightarrow> bool" where
  "wake_inv s \<longleftrightarrow>
     (\<forall>c < num_cpus s. scanned s (topf s c) \<and> idle_flag (cpu_queues s c) \<and>
        (topf s c = Loop I_hlt \<and> cq_queue (cpu_queues s c) \<noteq> [] \<longrightarrow> notified s c))"

fun wake_address :: "frame \<Rightarrow> nat option" where
  "wake_address (Wake (K_scan addr n i w)) = Some addr"
| "wake_address (Wake (K_push addr n i w target tid)) = Some addr"
| "wake_address (Wake (K_ipi addr n i w target)) = Some addr"
| "wake_address (Wake (K_end addr n w)) = Some addr"
| "wake_address f = None"

lemma wake_address_holds: "wake_address f = Some a \<Longrightarrow> holds f = Some (futex_bucket a)"
  by (cases f rule: wake_address.cases) auto

lemma scanned_mono:
  assumes "scanned s f" "\<And>j a. wake_address f = Some a \<Longrightarrow> blocked_on s' j a \<Longrightarrow> blocked_on s j a"
  shows "scanned s' f"
  using assms by (cases "(s, f)" rule: scanned.cases) auto

lemma lower_quiet: "lower x f \<Longrightarrow> scanned s f \<and> f \<noteq> Loop I_hlt"
  by (cases x) auto

lemma resumes_quiet: "resumes f \<Longrightarrow> scanned s f \<and> f \<noteq> Loop I_hlt"
  by (cases f rule: resumes.cases) auto

text \<open>The program point a CPU reaches by its own step.\<close>

lemma all_below:
  "(\<forall>j < i + (1 :: nat). P j) \<longleftrightarrow> (\<forall>j<i. P j) \<and> P i" "(\<forall>j \<le> i. P j) \<longleftrightarrow> (\<forall>j<(i :: nat). P j) \<and> P i"
  by (metis Suc_eq_plus1 less_Suc_eq) (auto simp: le_less)

lemma blocked_on_simps:
  "blocked_on (cont c gs s) j a = blocked_on s j a" "blocked_on (push_tid d m s) j a = blocked_on s j a"
  "blocked_on (send_ipi d s) j a = blocked_on s j a" "blocked_on (s\<lparr>thread_lock := l\<rparr>) j a = blocked_on s j a"
  "blocked_on (upd_thread i wake_thread s) j a \<longleftrightarrow> j \<noteq> i \<and> blocked_on s j a"
  by (auto simp: blocked_on_def upd_thread_def wake_thread_def)

lemma own_scan:
  assumes "step_frame f fs c s = Some s'" "scanned s f" "topf s c = f" "exec s' c = exec s c"
    "frames s (exec s c) = f # fs"
  shows "frames s' (exec s c) = fs \<or> (scanned s' (topf s' c) \<and>
    (topf s' c = Loop I_hlt \<longrightarrow> cq_queue (cpu_queues s' c) = []) \<and>
    (\<forall>t. placing (topf s' c) = Some t \<longrightarrow> placing f = Some t \<or> t = next_tid s))"
proof (cases f)
  case (Wake p)
  show ?thesis
  proof (cases p)
    case (K_scan addr n i w)
    then show ?thesis using Wake assms
      by (auto simp: topf_def all_below blocked_on_simps blocked_on_def[of s i] Suc_le_eq split: if_splits option.splits)
  qed (use Wake assms in \<open>auto simp: topf_def blocked_on_simps Let_def all_below split: if_splits\<close>)
next
  case (Rescue p)
  with assms show ?thesis by (cases p; auto simp: topf_def Let_def unlock_rescue_def split: if_splits option.splits)
next
  case (Yield p)
  with assms show ?thesis by (cases p; auto simp: topf_def Let_def load_ctx_simps split: if_splits option.splits list.splits)
next
  case (Wait p)
  with assms show ?thesis by (cases "(p, fs, c, s)" rule: step_wait.cases;
    auto simp: topf_def Let_def split: if_splits option.splits list.splits prod.splits)
next
  case (Spawn p)
  with assms show ?thesis by (cases p; auto simp: topf_def Let_def split: if_splits prod.splits)
next
  case (Exit p)
  with assms show ?thesis by (cases p; auto simp: topf_def split: option.splits)
next
  case (Loop p)
  with assms show ?thesis by (cases p; auto simp: topf_def Let_def split: if_splits option.splits list.splits)
qed (use assms in \<open>auto simp: topf_def check_resched_def resched_def split: if_splits\<close>)

lemma own_point_after:
  assumes inv: "sched_inv s" and wi: "scanned s (topf s c)" and c: "c < num_cpus s"
    and st: "cpu_step c s = Some s'" and inv': "sched_inv s'"
  shows "scanned s' (topf s' c) \<and> (topf s' c = Loop I_hlt \<longrightarrow> cq_queue (cpu_queues s' c) = []) \<and>
    (\<forall>t. placing (topf s' c) = Some t \<longrightarrow> placing (topf s c) = Some t \<or> t = next_tid s)"
proof -
  obtain f fs where f: "frames s (exec s c) = f # fs" "topf s c = f" "step_frame f fs c s = Some s'" "step_effect c f s s'"
    using cpu_step_effect[OF inv c st] by blast
  have n: "num_cpus s' = num_cpus s" using f(4) by (simp add: step_effect_def)
  consider "exec s' c \<noteq> exec s c" | "exec s' c = exec s c" "frames s' (exec s c) = fs"
    | "exec s' c = exec s c" "frames s' (exec s c) \<noteq> fs" by blast
  then show ?thesis
  proof cases
    case 1
    have r: "resumes (topf s' c)" by (rule entered(2)[OF inv c st 1])
    then have "placing (topf s' c) = None" by (cases "topf s' c" rule: resumes.cases) auto
    then show ?thesis using resumes_quiet[OF r] by simp
  next
    case 2
    have "fs \<noteq> []" using sched_invD(6)[OF inv', of c] c 2 n by (auto simp: exec_ok_def stack_ok_def)
    moreover have "\<forall>g \<in> set fs. lower (exec s c) g" using exec_stack(1)[OF inv c f(1)] by (simp add: stack_ok_def)
    ultimately have "lower (exec s c) (topf s' c)" using 2 by (simp add: topf_def)
    moreover from this have "placing (topf s' c) = None" by (cases "exec s c") auto
    ultimately show ?thesis using lower_quiet by fastforce
  next
    case 3
    then show ?thesis using own_scan[OF f(3) _ f(2) 3(1) f(1)] wi f(2) by auto
  qed
qed

lemma wake_step:
  assumes inv: "sched_inv s" and wi: "wake_inv s" and c: "c < num_cpus s"
    and st: "cpu_step c s = Some s'" and inv': "sched_inv s'"
  shows "wake_inv s'"
  unfolding wake_inv_def
proof (intro allI impI)
  obtain f fs where f: "topf s c = f" "step_effect c f s s'" using cpu_step_effect[OF inv c st] by blast
  have n: "num_cpus s' = num_cpus s" using f(2) by (simp add: step_effect_def)
  note eff = step_effectD[OF f(2)]
  note own = own_point_after[OF inv _ c st inv']
  note other = other_frames(1)[OF inv c f(2)[folded f(1)]]
  fix d assume d: "d < num_cpus s'"
  then have w: "scanned s (topf s d)" "idle_flag (cpu_queues s d)"
      "topf s d = Loop I_hlt \<and> cq_queue (cpu_queues s d) \<noteq> [] \<longrightarrow> notified s d"
    using wi n by (simp_all add: wake_inv_def)
  have i: "idle_flag (cpu_queues s' d)"
    by (rule eff(6)[OF w(2)])
  show "scanned s' (topf s' d) \<and> idle_flag (cpu_queues s' d) \<and>
     (topf s' d = Loop I_hlt \<and> cq_queue (cpu_queues s' d) \<noteq> [] \<longrightarrow> notified s' d)"
  proof (cases "d = c")
    case True
    then show ?thesis using own w(1) i by auto
  next
    case False
    have tf: "topf s' d = topf s d" using other[of d] d n False by simp
    have "scanned s' (topf s d)"
    proof (rule scanned_mono[OF w(1)])
      fix j a assume a: "wake_address (topf s d) = Some a" and bl: "blocked_on s' j a"
      have hd: "holder s (futex_bucket a) d" using wake_address_holds[OF a] by (simp add: holder_def)
      have "f \<noteq> Wait (W_mark a v u)" for v u
      proof
        assume "f = Wait (W_mark a v u)"
        then have "holder s (futex_bucket a) c" using f(1) by (simp add: holder_def)
        then show False using holder_unique(1)[OF inv c _ _ hd] d n False by auto
      qed
      then show "blocked_on s j a" using eff(7)[OF bl] by blast
    qed
    moreover have "notified s' d" if h: "topf s d = Loop I_hlt" "cq_queue (cpu_queues s' d) \<noteq> []"
    proof (cases "cq_queue (cpu_queues s' d) = cq_queue (cpu_queues s d)")
      case False
      then have "notifies (topf s' c) = Some d" using eff(5) \<open>d \<noteq> c\<close> by blast
      then show ?thesis using c n \<open>d \<noteq> c\<close> by (auto simp: notified_def)
    next
      case True
      then have "notified s d" using w(3) h by simp
      moreover have "irq s' d" if "irq s d" using eff(8) \<open>d \<noteq> c\<close> that by blast
      moreover have "irq s' d \<or> notifies (topf s' e) = Some d" if e: "e < num_cpus s" "notifies (topf s e) = Some d" for e
      proof (cases "e = c")
        case True
        have "cq_current (cpu_queues s d) = None"
          using sched_invD(6)[OF inv, of d] d n h(1) by (cases "exec s d") (simp_all add: exec_ok_def)
        then have "cq_idle (cpu_queues s d)" using w(2) by (simp add: idle_flag_def)
        then show ?thesis using eff(9)[OF \<open>d \<noteq> c\<close>] f(1) e(2) True h(1) by (simp add: awaits_irq_def)
      qed (use other[OF e(1)] e(2) in simp)
      ultimately show ?thesis unfolding notified_def n by blast
    qed
    ultimately show ?thesis using tf i by simp
  qed
qed

text \<open>The other events change no thread and no queue, and at most start a system call.\<close>

fun entry :: "frame \<Rightarrow> bool" where
  "entry Check_resched \<longleftrightarrow> True"
| "entry (Yield Y_entry) \<longleftrightarrow> True"
| "entry (Wait (W_entry addr v d)) \<longleftrightarrow> True"
| "entry (Wake (K_lock addr n)) \<longleftrightarrow> True"
| "entry (Spawn (S_entry a)) \<longleftrightarrow> True"
| "entry (Exit X_take) \<longleftrightarrow> True"
| "entry f \<longleftrightarrow> False"

lemma entry_quiet: "entry f \<Longrightarrow> scanned s f \<and> f \<noteq> Loop I_hlt \<and> placing f = None"
  by (cases f rule: entry.cases) auto

definition outside :: "sched \<Rightarrow> sched \<Rightarrow> bool" where
  "outside s s' \<longleftrightarrow>
     num_cpus s' = num_cpus s \<and> threads s' = threads s \<and> cpu_queues s' = cpu_queues s \<and>
     exec s' = exec s \<and> next_tid s' = next_tid s \<and> (\<forall>d. irq s d \<longrightarrow> irq s' d) \<and>
     (\<forall>x. frames s' x = frames s x \<or>
        (\<exists>c < num_cpus s. x = exec s c \<and> hd (frames s x) = User \<and> entry (hd (frames s' x))))"

lemma timer_outside:
  assumes c: "c < num_cpus s"
  shows "outside s (timer_handler c s)"
proof -
  let ?u = "send_ipi c (timer_tick c (watchdog_wake s))"
  have u: "num_cpus ?u = num_cpus s" "threads ?u = threads s" "cpu_queues ?u = cpu_queues s"
      "exec ?u = exec s" "next_tid ?u = next_tid s" "frames ?u = frames s"
    by (simp_all add: timer_tick_def watchdog_wake_def Let_def)
  have "irq (timer_tick c (watchdog_wake s)) = irq s" by (simp add: timer_tick_def watchdog_wake_def Let_def)
  then have i: "irq s d \<Longrightarrow> irq ?u d" for d by (simp add: send_ipi_def)
  consider "timer_handler c s = ?u"
    | fs where "timer_handler c s = cont c (Check_resched # User # fs) ?u" "frames s (exec s c) = User # fs"
    unfolding timer_handler_def Let_def u
    by (cases "frames s (exec s c)"; cases "hd (frames s (exec s c))") auto
  then show ?thesis
    by cases (use c u i in \<open>auto simp: outside_def\<close>)
qed

lemma event_outside:
  assumes "sched_event e s = Some s'" "\<And>c. e \<noteq> Run c"
  shows "outside s s'"
proof (cases e)
  case (Syscall c k r9 rip)
  then have c: "c < num_cpus s" "frames s (exec s c) = [User]"
    and s': "s' = cont c (call_frames k @ [Check_resched, User])
         (s\<lparr>percpu := (percpu s)(c := (percpu s c)\<lparr>ps_saved_r9 := r9, ps_saved_clone_rip := rip\<rparr>)\<rparr>)"
    using assms(1) by (auto simp: sched_event_def in_user_def split: if_splits)
  have "entry (hd (call_frames k @ [Check_resched, User]))" by (cases k) (simp_all add: call_frames_def)
  then show ?thesis using c unfolding s' by (auto simp: outside_def)
next
  case (Timer c)
  then show ?thesis using assms(1) timer_outside by (auto simp: sched_event_def split: if_splits)
qed (use assms in \<open>auto simp: sched_event_def outside_def enable_blocking_futex_def split: if_splits\<close>)

lemma outside_top:
  assumes inv: "sched_inv s" and out: "outside s s'" and d: "d < num_cpus s"
  shows "topf s' d = topf s d \<or> topf s d = User \<and> entry (topf s' d)"
  using out d unfolding outside_def topf_def by metis

lemma wake_outside:
  assumes inv: "sched_inv s" and wi: "wake_inv s" and out: "outside s s'"
  shows "wake_inv s'"
  unfolding wake_inv_def
proof (intro allI impI)
  note top = outside_top[OF inv out]
  have eq: "num_cpus s' = num_cpus s" "cpu_queues s' = cpu_queues s" "threads s' = threads s" "\<And>d. irq s d \<Longrightarrow> irq s' d"
    using out by (auto simp: outside_def)
  fix d assume "d < num_cpus s'"
  then have d: "d < num_cpus s" by (simp add: eq)
  then have w: "scanned s (topf s d)" "idle_flag (cpu_queues s d)"
      "topf s d = Loop I_hlt \<and> cq_queue (cpu_queues s d) \<noteq> [] \<longrightarrow> notified s d"
    using wi by (simp_all add: wake_inv_def)
  have sc: "scanned s' (topf s' d)"
    using top[OF d] scanned_mono[OF w(1), of s'] entry_quiet by (auto simp: blocked_on_def eq)
  have "notified s' d" if h: "topf s' d = Loop I_hlt" "cq_queue (cpu_queues s d) \<noteq> []"
  proof -
    have "topf s d = Loop I_hlt" using top[OF d] h(1) by auto
    then have "notified s d" using w(3) h(2) by simp
    moreover have "notifies (topf s' e) = Some d" if "e < num_cpus s" "notifies (topf s e) = Some d" for e
      using top[OF that(1)] that(2) by auto
    ultimately show ?thesis unfolding notified_def eq using eq(4) by blast
  qed
  then show "scanned s' (topf s' d) \<and> idle_flag (cpu_queues s' d) \<and>
     (topf s' d = Loop I_hlt \<and> cq_queue (cpu_queues s' d) \<noteq> [] \<longrightarrow> notified s' d)"
    using sc w(2) by (simp add: eq)
qed

lemma step_Run:
  assumes "sched_step s s'"
  obtains c where "c < num_cpus s" "cpu_step c s = Some s'" | "outside s s'"
proof -
  obtain e where e: "sched_event e s = Some s'" using assms by (auto elim: sched_step.cases)
  show ?thesis
  proof (cases "\<exists>c. e = Run c")
    case True
    then show ?thesis using e that(1) by (auto simp: sched_event_def split: if_splits)
  next
    case False
    then show ?thesis using event_outside[OF e] that(2) by blast
  qed
qed

interpretation wake_sys: transition_system sched_start sched_step "\<lambda>s. sched_inv s \<and> wake_inv s"
proof
  fix s assume s: "sched_start s"
  then obtain b n where n: "s = sched_init b n" by (auto simp: sched_start_def)
  have "topf s c = (if c = 0 then User else Loop A_loop)" for c by (simp add: n sched_init_def topf_def)
  then have "wake_inv s" by (simp add: wake_inv_def idle_flag_def) (simp add: n sched_init_def)
  then show "sched_inv s \<and> wake_inv s" using s by (simp add: sched_init_inv)
next
  fix s s' assume i: "sched_inv s \<and> wake_inv s" and st: "sched_step s s'"
  have inv': "sched_inv s'" using sched_sys.step_inv[OF _ st] i by blast
  from st show "sched_inv s' \<and> wake_inv s'"
    by (cases rule: step_Run) (use i inv' wake_step wake_outside in blast)+
qed

section \<open>Wake-ups are not lost\<close>

lemma pending_insert_recorded:
  "addr \<in> set (pending_wake_insert addr ws) \<or> 0 \<notin> set ws"
  by (auto simp: pending_wake_insert_def position_None_iff position_Some_iff set_update_memI split: option.splits)

lemma reachable_wake:
  assumes "sched_start s0" "sched_step\<^sup>*\<^sup>* s0 s"
  shows "sched_inv s" "wake_inv s"
  using wake_sys.reachable_inv[OF assms] by simp_all



text \<open>C20 An idle CPU sleeps only while there is nothing to run: if a CPU is halted in
  \<open>cpu_idle_loop\<close> although its run queue is not empty, an interrupt is pending that ends the halt,
  or another CPU is about to send one.\<close>

theorem idle_cpu_wakes:
  assumes "sched_start s0" "sched_step\<^sup>*\<^sup>* s0 s" "c < num_cpus s"
    "topf s c = Loop I_hlt" "cq_queue (cpu_queues s c) \<noteq> []"
  shows "cpu_step c s \<noteq> None \<or> (\<exists>d < num_cpus s. d \<noteq> c \<and> notifies (topf s d) = Some c \<and>
    (\<forall>s'. cpu_step d s = Some s' \<longrightarrow> irq s' c))"
proof -
  note I = reachable_wake[OF assms(1,2)]
  have "notified s c" using I(2) assms(3-5) by (simp add: wake_inv_def)
  then show ?thesis
    unfolding notified_def
  proof (elim disjE exE conjE)
    assume "irq s c"
    then have "cpu_step c s \<noteq> None" using assms(4) sched_invD(6)[OF I(1) assms(3)]
      by (cases "frames s (exec s c)") (auto simp: cpu_step_def topf_def exec_ok_def stack_ok_def)
    then show ?thesis by simp
  next
    fix d assume d: "d < num_cpus s" "d \<noteq> c" "notifies (topf s d) = Some c"
    have "cq_current (cpu_queues s c) = None"
      using sched_invD(6)[OF I(1) assms(3)] assms(4) by (cases "exec s c") (simp_all add: exec_ok_def)
    then have "cq_idle (cpu_queues s c)" using I(2) assms(3) by (simp add: wake_inv_def idle_flag_def)
    then have "irq s' c" if "cpu_step d s = Some s'" for s'
      using cpu_step_effect[OF I(1) d(1) that] step_effectD(9)[of d "topf s d" s s' c] d assms(4)
      by (metis awaits_irq_def)
    then show ?thesis using d by blast
  qed
qed

theorem idle_cpu_wakes_witness:
  "\<exists>s. topf s 1 = Loop I_hlt \<and> cq_queue (cpu_queues s 1) = [2] \<and>
    (cpu_step 1 s \<noteq> None \<or> (\<exists>d < num_cpus s. d \<noteq> 1 \<and> notifies (topf s d) = Some 1 \<and>
      (\<forall>s'. cpu_step d s = Some s' \<longrightarrow> irq s' 1)))"
proof -
  obtain s where s: "sched_run (two_threads @ Syscall 1 Call_exit 0 0 # replicate 39 (Run 1) @
        Syscall 0 (Call_clone args0) 7 9 # replicate 7 (Run 0)) (sched_init boot0 2) = Some s"
      "topf s 1 = Loop I_hlt" "cq_queue (cpu_queues s 1) = [2]" "num_cpus s = 2"
    by (simp add: run_defs two_threads_def args0_def)
  have "cpu_step 1 s \<noteq> None \<or> (\<exists>d < num_cpus s. d \<noteq> 1 \<and> notifies (topf s d) = Some 1 \<and>
      (\<forall>s'. cpu_step d s = Some s' \<longrightarrow> irq s' 1))"
    by (rule idle_cpu_wakes[OF sched_start_boot0(2) sched_run_steps[OF s(1)]]) (use s in simp_all)
  then show ?thesis using s(2,3) by blast
qed

section \<open>Threads continue where they were switched out\<close>

definition off :: "nat \<Rightarrow> sched \<Rightarrow> bool" where
  "off t s \<longleftrightarrow> (\<forall>d < num_cpus s. exec s d \<noteq> Thr t)"

text \<open>No CPU is about to create or to place the thread.\<close>

definition settled :: "nat \<Rightarrow> nat \<Rightarrow> sched \<Rightarrow> bool" where
  "settled t c s \<longleftrightarrow> home s t c \<and> (\<forall>d < num_cpus s. placing (topf s d) \<noteq> Some t)"

lemma home_below: "sched_inv s \<Longrightarrow> home s t c \<Longrightarrow> t < next_tid s"
  using sched_invD(3)[of s] by (auto simp: home_def threads_ok_def)

lemma inserting_placing: "inserting f = Some t \<Longrightarrow> placing f = Some t"
  by (cases f rule: inserting.cases) auto

lemma settled_step:
  assumes inv: "sched_inv s" "wake_inv s" and st: "sched_step s s'" and inv': "sched_inv s'" and se: "settled t c s"
  shows "settled t c s'"
  using st
proof (cases rule: step_Run)
  case (1 e)
  obtain f where f: "topf s e = f" "step_effect e f s s'" using cpu_step_effect[OF inv(1) 1] by blast
  note eff = step_effectD[OF f(2)]
  have "placing f \<noteq> Some t" using se 1(1) f(1) by (auto simp: settled_def)
  then have "home s' t c" using eff(10) se by (simp add: settled_def)
  moreover have "placing (topf s' d) \<noteq> Some t" if d: "d < num_cpus s" for d
  proof (cases "d = e")
    case True
    have "scanned s (topf s e)" using inv(2) 1(1) by (simp add: wake_inv_def)
    then have "placing (topf s' e) = Some t \<Longrightarrow> t = next_tid s"
      using own_point_after[OF inv(1) _ 1 inv'] \<open>placing f \<noteq> Some t\<close> f(1) by blast
    moreover have "t < next_tid s" using se home_below[OF inv(1)] by (auto simp: settled_def)
    ultimately show ?thesis using True by auto
  next
    case False
    then show ?thesis
      using other_frames(1)[OF inv(1) 1(1) f(2)[folded f(1)] d] se d by (simp add: settled_def)
  qed
  ultimately show ?thesis using eff(1) by (simp add: settled_def)
next
  case 2
  have "placing (topf s' d) \<noteq> Some t" if "d < num_cpus s" for d
    using outside_top[OF inv(1) 2 that] entry_quiet[of "topf s' d" s] se that by (auto simp: settled_def)
  then show ?thesis using 2 se by (auto simp: settled_def outside_def home_def)
qed

lemma off_step:
  assumes inv: "sched_inv s" and st: "sched_step s s'" and se: "settled t c s" and o: "off t s"
  shows "ctx_of s' t = ctx_of s t \<and> frames s' (Thr t) = frames s (Thr t)"
  using st
proof (cases rule: step_Run)
  case (1 e)
  obtain f where f: "topf s e = f" "step_effect e f s s'" using cpu_step_effect[OF inv 1] by blast
  have p: "placing f \<noteq> Some t" using se 1(1) f(1) by (auto simp: settled_def)
  have "exec s e \<noteq> Thr t" using o 1(1) by (simp add: off_def)
  moreover have "inserting f \<noteq> Some t" using inserting_placing[of f t] p by blast
  ultimately show ?thesis using step_effectD(3)[OF f(2), of "Thr t"] step_effectD(4)[OF f(2), of t] by auto
next
  case 2
  have "frames s' (Thr t) = frames s (Thr t)" using 2 o unfolding outside_def off_def by metis
  then show ?thesis using 2 by (simp add: outside_def ctx_of_def)
qed

lemma off_run:
  assumes run: "(\<lambda>x y. sched_step x y \<and> off t y)\<^sup>*\<^sup>* s s'"
    and "sched_inv s" "wake_inv s" "settled t c s" "off t s"
  shows "sched_inv s' \<and> wake_inv s' \<and> settled t c s' \<and> off t s' \<and>
    ctx_of s' t = ctx_of s t \<and> frames s' (Thr t) = frames s (Thr t)"
  using run
proof (induction rule: rtranclp_induct)
  case (step y z)
  have "sched_inv z \<and> wake_inv z" using wake_sys.step_inv[of y z] step by simp
  then show ?case using step settled_step[of y z t c] off_step[of y z t c] by simp
qed (use assms in simp)

lemma executing_settled:
  assumes inv: "sched_inv s" and c: "c < num_cpus s" and ex: "exec s c = Thr t"
  shows "settled t c s"
proof -
  have h: "home s t c" using sched_invD(6)[OF inv c] ex by (simp add: exec_ok_def)
  have "placing (topf s d) \<noteq> Some t" if d: "d < num_cpus s" for d
  proof
    assume "placing (topf s d) = Some t"
    then have "threads s t = None \<or> unstarted s t"
      using sched_invD(8)[OF inv d] by (cases "topf s d" rule: placing.cases) auto
    then show False using h c ex by (auto simp: home_def unstarted_def)
  qed
  then show ?thesis using h by (simp add: settled_def)
qed

lemma leave_step:
  assumes inv: "sched_inv s" and st: "sched_step s s'" and c: "c < num_cpus s" "exec s c = Thr t" and o: "off t s'"
  shows "ctx_of s' t = Some (regs s c)" "\<exists>f fs. frames s (Thr t) = f # fs \<and> frames s' (Thr t) = resume_point f @ fs"
proof -
  have x: "(\<exists>f fs. frames s (Thr t) = f # fs \<and> frames s' (Thr t) = resume_point f @ fs) \<and> ctx_of s' t = Some (regs s c)"
    using st
  proof (cases rule: step_Run)
    case (1 e)
    obtain f fs where f: "frames s (exec s e) = f # fs" "step_effect e f s s'"
        "exec s' e \<noteq> exec s e \<Longrightarrow> frames s' (exec s e) = resume_point f @ fs \<and>
           (\<forall>t. exec s e = Thr t \<longrightarrow> ctx_of s' t = map_option (\<lambda>_. regs s e) (ctx_of s t))"
      using cpu_step_effect[OF inv 1] by metis
    have "e = c" using step_effectD(1,2)[OF f(2)] o c by (metis off_def)
    then have "exec s' e \<noteq> exec s e" using step_effectD(1)[OF f(2)] o c by (auto simp: off_def)
    moreover have "threads s t \<noteq> None"
      using executing_settled[OF inv c] by (auto simp: settled_def home_def)
    ultimately show ?thesis using f(1,3) \<open>e = c\<close> c(2) by (auto simp: ctx_of_def)
  next
    case 2
    then show ?thesis using o c by (auto simp: outside_def off_def)
  qed
  then show "ctx_of s' t = Some (regs s c)"
    "\<exists>f fs. frames s (Thr t) = f # fs \<and> frames s' (Thr t) = resume_point f @ fs" by auto
qed

lemma enter_step:
  assumes inv: "sched_inv s" and st: "sched_step s s'" and o: "off t s" and d: "d < num_cpus s'" "exec s' d = Thr t"
  shows "ctx_of s t = Some (regs s' d)" "frames s' (Thr t) = frames s (Thr t)" "home s t d"
proof -
  have "ctx_of s t = Some (regs s' d) \<and> frames s' (Thr t) = frames s (Thr t) \<and> home s t d"
    using st
  proof (cases rule: step_Run)
    case (1 e)
    obtain f fs where f: "step_effect e f s s'"
        "exec s' e \<noteq> exec s e \<Longrightarrow> saved_ctx (exec s' e) s = Some (regs s' e)"
      using cpu_step_effect[OF inv 1] by metis
    have n: "num_cpus s' = num_cpus s" by (rule step_effectD(1)[OF f(1)])
    have "e = d" using step_effectD(2)[OF f(1), of d] o d n by (metis off_def)
    moreover have "exec s' d \<noteq> exec s d" using o d n by (auto simp: off_def)
    ultimately have e: "e = d" "exec s' e \<noteq> exec s e" by simp_all
    show ?thesis
      using f(2)[OF e(2)] entered(1)[OF inv 1 e(2)] entered(3)[OF inv 1 e(2), of t] d(2) e(1)
      by (simp add: saved_ctx_def ctx_of_def)
  next
    case 2
    then show ?thesis using o d by (auto simp: outside_def off_def)
  qed
  then show "ctx_of s t = Some (regs s' d)" "frames s' (Thr t) = frames s (Thr t)" "home s t d" by auto
qed

text \<open>Runs without the thread, computed from their events.\<close>

fun run_off :: "nat \<Rightarrow> event list \<Rightarrow> sched \<Rightarrow> sched option" where
  "run_off t [] s = Some s"
| "run_off t (e # es) s =
     (case sched_event e s of
        None \<Rightarrow> None
      | Some s' \<Rightarrow>
          if next_tid s \<le> next_tid s' \<and> list_all (\<lambda>d. exec s' d \<noteq> Thr t) [0..<num_cpus s']
          then run_off t es s' else None)"

lemma run_off_steps: "run_off t es s = Some s' \<Longrightarrow> (\<lambda>x y. sched_step x y \<and> off t y)\<^sup>*\<^sup>* s s'"
proof (induction t es s rule: run_off.induct)
  case (2 t e es s)
  then obtain u where u: "sched_event e s = Some u" "next_tid s \<le> next_tid u" "off t u" "run_off t es u = Some s'"
    by (auto simp: off_def list_all_iff split: option.splits if_splits)
  then have "sched_step s u \<and> off t u" by (auto intro: sched_step.intros)
  then show ?case using 2 u converse_rtranclp_into_rtranclp[of "\<lambda>x y. sched_step x y \<and> off t y" s u s']
    by (auto simp: off_def list_all_iff)
qed simp

text \<open>C17 A thread that is switched out continues exactly where it was: take any run in which a thread
  stops executing on a CPU, and the next time it executes anywhere. It is then on the same CPU, with the
  registers the CPU had when it left, and its stack continues after the context switch with everything
  below unchanged, whatever the CPUs did in between.\<close>

theorem context_preserved:
  assumes "sched_start s0" "sched_step\<^sup>*\<^sup>* s0 s" "c < num_cpus s" "exec s c = Thr t"
    "sched_step s s1" "off t s1" "(\<lambda>x y. sched_step x y \<and> off t y)\<^sup>*\<^sup>* s1 s2"
    "sched_step s2 s3" "d < num_cpus s3" "exec s3 d = Thr t"
  shows "d = c \<and> regs s3 d = regs s c \<and>
    (\<exists>f fs. frames s (Thr t) = f # fs \<and> frames s3 (Thr t) = resume_point f @ fs)"
proof -
  note I = reachable_wake[OF assms(1,2)]
  have I1: "sched_inv s1 \<and> wake_inv s1" using wake_sys.step_inv[of s s1] I assms(5) by simp
  have se: "settled t c s" by (rule executing_settled[OF I(1) assms(3,4)])
  have se1: "settled t c s1" using settled_step[OF I assms(5) _ se] I1 by simp
  note lv = leave_step[OF I(1) assms(5,3,4,6)]
  have r: "sched_inv s2" "settled t c s2" "off t s2" "ctx_of s2 t = ctx_of s1 t" "frames s2 (Thr t) = frames s1 (Thr t)"
    using off_run[OF assms(7)] I1 se1 assms(6) by auto
  note en = enter_step[OF r(1) assms(8) r(3) assms(9,10)]
  have "d = c" using en(3) r(2) homeD by (auto simp: settled_def)
  then show ?thesis using lv en(1,2) r(4,5) by auto
qed

theorem context_preserved_witness:
  "\<exists>s s1 s2 s3. exec s 0 = Thr 0 \<and> cpu_step 0 s = Some s1 \<and> exec s1 0 = Thr 1 \<and>
    run_off 0 (Run 0 # Run 0 # Syscall 0 Call_yield 0 0 # replicate 35 (Run 0)) s1 = Some s2 \<and> cpu_step 0 s2 = Some s3 \<and> exec s3 0 = Thr 0 \<and> regs s3 0 = regs s 0"
proof -
  have "\<exists>s. sched_run (Syscall 0 (Call_clone args0) 7 9 # replicate 42 (Run 0) @
        Compute 0 ((zero_ctx [])\<lparr>rbx := 5\<rparr>) # Syscall 0 Call_yield 0 0 # replicate 35 (Run 0)) (sched_init boot0 1) = Some s \<and>
      exec s 0 = Thr 0 \<and> num_cpus s = 1 \<and> (\<exists>s1. sched_event (Run 0) s = Some s1 \<and> next_tid s \<le> next_tid s1 \<and>
      exec s1 0 = Thr 1 \<and> num_cpus s1 = 1 \<and> (\<exists>s2. run_off 0 (Run 0 # Run 0 # Syscall 0 Call_yield 0 0 # replicate 35 (Run 0)) s1 = Some s2 \<and> num_cpus s2 = 1 \<and>
      (\<exists>s3. sched_event (Run 0) s2 = Some s3 \<and> next_tid s2 \<le> next_tid s3 \<and> exec s3 0 = Thr 0 \<and> num_cpus s3 = 1)))"
    by (simp add: run_defs args0_def current_idx_def list_all_iff)
  then obtain s s1 s2 s3 where s: "sched_run (Syscall 0 (Call_clone args0) 7 9 # replicate 42 (Run 0) @
        Compute 0 ((zero_ctx [])\<lparr>rbx := 5\<rparr>) # Syscall 0 Call_yield 0 0 # replicate 35 (Run 0)) (sched_init boot0 1) = Some s"
      "exec s 0 = Thr 0" "num_cpus s = 1" "sched_event (Run 0) s = Some s1" "next_tid s \<le> next_tid s1" "exec s1 0 = Thr 1" "num_cpus s1 = 1"
      "run_off 0 (Run 0 # Run 0 # Syscall 0 Call_yield 0 0 # replicate 35 (Run 0)) s1 = Some s2" "sched_event (Run 0) s2 = Some s3" "next_tid s2 \<le> next_tid s3" "num_cpus s2 = 1"
      "exec s3 0 = Thr 0" "num_cpus s3 = 1" by blast
  have st: "sched_step s s1" "sched_step s2 s3" using s by (auto intro: sched_step.intros)
  have "0 = (0 :: nat) \<and> regs s3 0 = regs s 0 \<and>
    (\<exists>f fs. frames s (Thr 0) = f # fs \<and> frames s3 (Thr 0) = resume_point f @ fs)"
    by (rule context_preserved[OF sched_start_boot0(1) sched_run_steps[OF s(1)] _ _ st(1) _ run_off_steps[OF s(8)] st(2)])
      (use s in \<open>simp_all add: off_def\<close>)
  moreover have "cpu_step 0 s = Some s1" "cpu_step 0 s2 = Some s3" using s by (simp_all add: sched_event_def)
  ultimately show ?thesis using s(2,6,8,12) by (intro exI[of _ s] exI[of _ s1] exI[of _ s2] exI[of _ s3]) simp
qed

end
