(* ===== verification/Rtc.thy ===== *)
theory Rtc
  imports Prelude
begin

text \<open>
  The real-time clock (\<open>rtc.rs\<close>): reading the CMOS registers until two reads agree, decoding them,
  and the days since 1970-01-01. The registers are hardware: \<open>cmos i r\<close> is what register \<open>r\<close>
  holds at the \<open>i\<close>-th read, which the code only takes while no update is in progress.
\<close>

section \<open>Reading the registers\<close>

record raw_time =
  rt_sec :: u8
  rt_min :: u8
  rt_hour :: u8
  rt_day :: u8
  rt_mon :: u8
  rt_year :: u8
  rt_cent :: u8

definition read_raw :: "(nat \<Rightarrow> u8) \<Rightarrow> raw_time" where
  "read_raw cmos =
     \<lparr>rt_sec = cmos 0x00, rt_min = cmos 0x02, rt_hour = cmos 0x04, rt_day = cmos 0x07,
      rt_mon = cmos 0x08, rt_year = cmos 0x09, rt_cent = cmos 0x32\<rparr>"

primrec settle :: "nat \<Rightarrow> nat \<Rightarrow> (nat \<Rightarrow> nat \<Rightarrow> u8) \<Rightarrow> raw_time \<Rightarrow> raw_time" where
  "settle 0 i cmos prev = prev"
| "settle (Suc n) i cmos prev =
     (let cur = read_raw (cmos i) in if cur = prev then prev else settle n (i + 1) cmos cur)"

section \<open>Decoding\<close>

definition rtc_dec :: "bool \<Rightarrow> u8 \<Rightarrow> nat" where
  "rtc_dec is_bcd v =
     (if is_bcd then unat (v AND 0x0F) + unat (drop_bit 4 v AND 0x0F) * 10 else unat v)"

definition rtc_hour :: "bool \<Rightarrow> bool \<Rightarrow> u8 \<Rightarrow> nat" where
  "rtc_hour is_bcd is_12h v =
     (if is_12h then
        let pm = (v AND 0x80 \<noteq> 0); h = rtc_dec is_bcd (v AND 0x7F)
        in if pm then h mod 12 + 12 else h mod 12
      else rtc_dec is_bcd v)"

definition rtc_year :: "nat \<Rightarrow> nat \<Rightarrow> nat" where
  "rtc_year cent yy = (if 19 \<le> cent \<and> cent \<le> 21 then cent * 100 + yy else 2000 + yy)"

section \<open>Days since the epoch\<close>

definition is_leap :: "nat \<Rightarrow> bool" where
  "is_leap y \<longleftrightarrow> (y mod 4 = 0 \<and> y mod 100 \<noteq> 0) \<or> y mod 400 = 0"

definition MDAYS :: "nat list" where
  "MDAYS = [31, 28, 31, 30, 31, 30, 31, 31, 30, 31, 30, 31]"

function year_days :: "nat \<Rightarrow> nat \<Rightarrow> nat \<Rightarrow> nat" where
  "year_days y year days =
     (if y < year then year_days (y + 1) year (days + (if is_leap y then 366 else 365)) else days)"
  by pat_completeness auto
termination
  by (relation "measure (\<lambda>(y, year, days). year - y)") auto

function month_days :: "nat \<Rightarrow> nat \<Rightarrow> nat \<Rightarrow> nat \<Rightarrow> nat" where
  "month_days m month year days =
     (if m < month
      then month_days (m + 1) month year (days + MDAYS ! (m - 1) + (if m = 2 \<and> is_leap year then 1 else 0))
      else days)"
  by pat_completeness auto
termination
  by (relation "measure (\<lambda>(m, month, year, days). month - m)") auto

declare year_days.simps [simp del] month_days.simps [simp del]

definition days_since_epoch :: "nat \<Rightarrow> nat \<Rightarrow> nat \<Rightarrow> nat" where
  "days_since_epoch year month day = month_days 1 month year (year_days 1970 year 0) + (day - 1)"

definition read_rtc_unix_secs :: "(nat \<Rightarrow> nat \<Rightarrow> u8) \<Rightarrow> u8 \<Rightarrow> nat option" where
  "read_rtc_unix_secs cmos status_b =
     (let last = settle 10 1 cmos (read_raw (cmos 0));
          is_bcd = (status_b AND 0x04 = 0);
          is_12h = (status_b AND 0x02 = 0);
          sec = rtc_dec is_bcd (rt_sec last);
          min = rtc_dec is_bcd (rt_min last);
          hour = rtc_hour is_bcd is_12h (rt_hour last);
          day = rtc_dec is_bcd (rt_day last);
          mon = rtc_dec is_bcd (rt_mon last);
          year = rtc_year (rtc_dec is_bcd (rt_cent last)) (rtc_dec is_bcd (rt_year last))
      in if \<not> (1 \<le> mon \<and> mon \<le> 12) \<or> \<not> (1 \<le> day \<and> day \<le> 31) \<or> hour > 23 \<or> min > 59 \<or> sec > 60 \<or>
            \<not> (2020 \<le> year \<and> year \<le> 2100)
         then None
         else Some (days_since_epoch year mon day * 86400 + hour * 3600 + min * 60 + sec))"

section \<open>The calendar\<close>

text \<open>The reference: the length of a month and the day after a date.\<close>

definition month_length :: "nat \<Rightarrow> nat \<Rightarrow> nat" where
  "month_length y m =
     (if m = 2 then (if 400 dvd y \<or> (4 dvd y \<and> \<not> 100 dvd y) then 29 else 28)
      else if m \<in> {4, 6, 9, 11} then 30 else 31)"

definition valid_date :: "nat \<times> nat \<times> nat \<Rightarrow> bool" where
  "valid_date date =
     (case date of (y, m, d) \<Rightarrow> 1970 \<le> y \<and> 1 \<le> m \<and> m \<le> 12 \<and> 1 \<le> d \<and> d \<le> month_length y m)"

definition next_date :: "nat \<times> nat \<times> nat \<Rightarrow> nat \<times> nat \<times> nat" where
  "next_date date =
     (case date of (y, m, d) \<Rightarrow>
        if d < month_length y m then (y, m, d + 1) else if m < 12 then (y, m + 1, 1) else (y + 1, 1, 1))"

lemma is_leap_iff: "is_leap y \<longleftrightarrow> 400 dvd y \<or> (4 dvd y \<and> \<not> 100 dvd y)"
  by (auto simp: is_leap_def dvd_eq_mod_eq_0)

lemma sum_head:
  fixes f :: "nat \<Rightarrow> nat"
  assumes "m < n"
  shows "(\<Sum>k = m..<n. f k) = f m + (\<Sum>k = m + 1..<n. f k)"
  using sum.atLeast_Suc_lessThan[OF assms, of f] by (simp only: Suc_eq_plus1)

lemma sum_last:
  fixes f :: "nat \<Rightarrow> nat"
  assumes "m \<le> n"
  shows "(\<Sum>k = m..<n + 1. f k) = (\<Sum>k = m..<n. f k) + f n"
  using sum.atLeastLessThan_Suc[OF assms, of f] by (simp only: Suc_eq_plus1)

lemma year_days_sum: "year_days y year days = days + (\<Sum>k = y..<year. if is_leap k then 366 else 365)"
proof (induction y year days rule: year_days.induct)
  case (1 y year days)
  then show ?case by (subst year_days.simps) (auto simp: sum_head[of y year])
qed

lemma MDAYS_length:
  assumes "1 \<le> m" "m \<le> 12"
  shows "MDAYS ! (m - 1) + (if m = 2 \<and> is_leap y then 1 else 0) = month_length y m"
proof -
  have "m = 1 \<or> m = 2 \<or> m = 3 \<or> m = 4 \<or> m = 5 \<or> m = 6 \<or> m = 7 \<or> m = 8 \<or> m = 9 \<or> m = 10 \<or> m = 11 \<or> m = 12"
    using assms by presburger
  then show ?thesis by (elim disjE) (simp_all add: MDAYS_def month_length_def is_leap_iff)
qed

lemma month_days_sum:
  "1 \<le> m \<Longrightarrow> month \<le> 12 \<Longrightarrow> month_days m month year days = days + (\<Sum>k = m..<month. month_length year k)"
proof (induction m month year days rule: month_days.induct)
  case (1 m month year days)
  show ?case
  proof (cases "m < month")
    case True
    then show ?thesis
      using 1 MDAYS_length[of m year, symmetric] by (subst month_days.simps) (simp add: sum_head[of m month])
  qed (simp add: month_days.simps)
qed

lemma year_days_next:
  "a \<le> y \<Longrightarrow> year_days a (y + 1) days = year_days a y days + (if is_leap y then 366 else 365)"
  by (simp add: year_days_sum sum_last)

lemma month_days_next:
  "1 \<le> a \<Longrightarrow> a \<le> m \<Longrightarrow> m < 12 \<Longrightarrow>
    month_days a (m + 1) y days = month_days a m y days + month_length y m"
  by (simp add: month_days_sum sum_last)

lemma year_months: "month_days 1 12 y days + month_length y 12 = days + (if is_leap y then 366 else 365)"
proof -
  note nx = month_days_next[of 1 _ y days]
  have "month_days 1 1 y days = days" by (subst month_days.simps) simp
  then show ?thesis
    using nx[of 1] nx[of 2] nx[of 3] nx[of 4] nx[of 5] nx[of 6] nx[of 7] nx[of 8] nx[of 9] nx[of 10] nx[of 11]
    by (simp add: month_length_def is_leap_iff)
qed

text \<open>C25 The day count follows the Gregorian calendar: 1970-01-01 is day 0 and the day after any valid date
  has the next number, so that the count is the number of days from the epoch for every date.\<close>

theorem days_since_epoch_calendar:
  "days_since_epoch 1970 1 1 = 0 \<and>
   (\<forall>y m d. valid_date (y, m, d) \<longrightarrow> valid_date (next_date (y, m, d)) \<and>
      (\<forall>y' m' d'. next_date (y, m, d) = (y', m', d') \<longrightarrow>
         days_since_epoch y' m' d' = days_since_epoch y m d + 1))"
proof (intro conjI allI impI)
  show "days_since_epoch 1970 1 1 = 0"
    by (simp add: days_since_epoch_def year_days.simps[of 1970 1970] month_days.simps[of 1 1])
  fix y m d assume v: "valid_date (y, m, d)"
  then have m: "1 \<le> m" "m \<le> 12" "1 \<le> d" "1970 \<le> y" "d \<le> month_length y m" by (simp_all add: valid_date_def)
  have pos: "1 \<le> month_length y' m'" for y' m' by (simp add: month_length_def)
  show "valid_date (next_date (y, m, d))"
    using m pos[of y "m + 1"] pos[of "y + 1" 1] by (simp add: valid_date_def next_date_def)
  fix y' m' d' assume n: "next_date (y, m, d) = (y', m', d')"
  show "days_since_epoch y' m' d' = days_since_epoch y m d + 1"
  proof (cases "d < month_length y m")
    case True
    then have "y' = y" "m' = m" "d' = d + 1" using n by (simp_all add: next_date_def)
    then show ?thesis using m(3) by (simp add: days_since_epoch_def)
  next
    case False
    then have d: "d = month_length y m" using m(5) by simp
    show ?thesis
    proof (cases "m < 12")
      case True
      then have e: "y' = y" "m' = m + 1" "d' = 1" using n d by (simp_all add: next_date_def)
      then show ?thesis using month_days_next[OF _ m(1) True] m(3) d by (simp add: days_since_epoch_def)
    next
      case False
      then have e: "y' = y + 1" "m' = 1" "d' = 1" "m = 12" using n d m(2) by (simp_all add: next_date_def)
      have "month_days 1 1 (y + 1) k = k" for k by (subst month_days.simps) simp
      then show ?thesis
        using year_days_next[OF m(4)] year_months[of y] m(3) d e by (simp add: days_since_epoch_def)
    qed
  qed
qed

theorem days_since_epoch_calendar_witness:
  "valid_date (2024, 2, 29) \<and> next_date (2024, 2, 29) = (2024, 3, 1) \<and>
   days_since_epoch 2024 3 1 = days_since_epoch 2024 2 29 + 1"
proof -
  have v: "valid_date (2024, 2, 29)" by (simp add: valid_date_def month_length_def)
  have n: "next_date (2024, 2, 29) = (2024, 3, 1)" by (simp add: next_date_def month_length_def)
  show ?thesis
    using v n conjunct2[OF days_since_epoch_calendar, rule_format, of 2024 2 29] by blast
qed

section \<open>Reading the time\<close>

text \<open>The register contents for a time of day and date, in each of the four modes of the chip.\<close>

definition rtc_enc :: "bool \<Rightarrow> nat \<Rightarrow> nat" where
  "rtc_enc is_bcd v = (if is_bcd then v div 10 * 16 + v mod 10 else v)"

definition rtc_enc_hour :: "bool \<Rightarrow> bool \<Rightarrow> nat \<Rightarrow> nat" where
  "rtc_enc_hour is_bcd is_12h h =
     (if is_12h then rtc_enc is_bcd (if h mod 12 = 0 then 12 else h mod 12) + (if 12 \<le> h then 128 else 0)
      else rtc_enc is_bcd h)"

definition rtc_encode :: "bool \<Rightarrow> bool \<Rightarrow> nat \<times> nat \<times> nat \<Rightarrow> nat \<times> nat \<times> nat \<Rightarrow> raw_time" where
  "rtc_encode is_bcd is_12h date time =
     (case (date, time) of ((y, mo, d), (h, mi, sec)) \<Rightarrow>
        \<lparr>rt_sec = of_nat (rtc_enc is_bcd sec), rt_min = of_nat (rtc_enc is_bcd mi),
         rt_hour = of_nat (rtc_enc_hour is_bcd is_12h h), rt_day = of_nat (rtc_enc is_bcd d),
         rt_mon = of_nat (rtc_enc is_bcd mo), rt_year = of_nat (rtc_enc is_bcd (y mod 100)),
         rt_cent = of_nat (rtc_enc is_bcd (y div 100))\<rparr>)"

lemma unat_byte: "n < 256 \<Longrightarrow> unat (of_nat n :: u8) = n"
  by (simp add: unat_of_nat)

lemma and_7f: "unat (v AND 0x7F) = unat (v :: u8) mod 128"
proof -
  have "v AND 0x7F = v mod 128" by (simp add: take_bit_eq_mod[of 7 v, simplified, symmetric] take_bit_eq_mask mask_eq_exp_minus_1)
  moreover have "unat (128 :: u8) = 128" using unat_byte[of 128] by (simp only: of_nat_numeral)
  ultimately show ?thesis by (simp only: unat_mod_distrib)
qed

lemma and_80: "(v :: u8) AND 0x80 = 0 \<longleftrightarrow> unat v < 128"
proof -
  have "v AND 2 ^ 7 = 0 \<longleftrightarrow> \<not> bit v 7" by (rule and_exp_eq_0_iff_not_bit)
  also have "bit v 7 \<longleftrightarrow> bit (unat v) 7" by (simp add: bit_unsigned_iff)
  also have "\<dots> \<longleftrightarrow> odd (unat v div 128)" by (simp add: bit_iff_odd)
  finally have e: "v AND 0x80 = 0 \<longleftrightarrow> even (unat v div 128)" by simp
  have "unat v < 256" using unsigned_less[of v, where ?'a = nat] by simp
  then have "unat v div 128 = (if unat v < 128 then 0 else 1)" by (simp add: div_nat_eqI)
  then show ?thesis using e by auto
qed
lemma unat_low_nibble: "unat (v AND 0x0F) = unat (v :: u8) mod 16"
proof -
  have "v AND 0x0F = v mod 16" by (simp add: take_bit_eq_mod[of 4 v, simplified, symmetric] take_bit_eq_mask mask_eq_exp_minus_1)
  moreover have "unat (16 :: u8) = 16" using unat_byte[of 16] by (simp only: of_nat_numeral)
  ultimately show ?thesis by (simp only: unat_mod_distrib)
qed

lemma unat_high_nibble: "unat (drop_bit 4 v) = unat (v :: u8) div 16"
  by (simp only: unat_drop_bit_eq) (simp add: drop_bit_eq_div)

lemma nibbles: "b < 16 \<Longrightarrow> (a * 16 + b) mod 16 = b \<and> (a * 16 + b) div 16 = (a :: nat)"
  by simp

lemma rtc_dec_enc:
  assumes "v < 100"
  shows "rtc_dec is_bcd (of_nat (rtc_enc is_bcd v)) = v"
proof (cases is_bcd)
  case True
  have "v div 10 * 16 + v mod 10 < 256" using assms by auto
  then have u: "unat (of_nat (v div 10 * 16 + v mod 10) :: u8) = v div 10 * 16 + v mod 10"
    by (rule unat_byte)
  have "v div 10 < 16" "v mod 10 < 16" using assms by auto
  then have m: "(v div 10 * 16 + v mod 10) mod 16 = v mod 10" "(v div 10 * 16 + v mod 10) div 16 mod 16 = v div 10"
    using nibbles[of "v mod 10" "v div 10"] by simp_all
  have "rtc_dec True (of_nat (rtc_enc True v)) = v mod 10 + v div 10 * 10"
    unfolding rtc_dec_def rtc_enc_def if_True unat_low_nibble unat_high_nibble u m ..
  then show ?thesis using True by simp
next
  case False
  then show ?thesis using assms by (simp add: rtc_dec_def rtc_enc_def unat_byte)
qed

lemma rtc_hour_enc:
  assumes "h < 24"
  shows "rtc_hour is_bcd is_12h (of_nat (rtc_enc_hour is_bcd is_12h h)) = h"
proof (cases is_12h)
  case True
  let ?k = "if h mod 12 = 0 then 12 else h mod 12"
  let ?e = "rtc_enc is_bcd ?k"
  have k: "?k < 13" "?k mod 12 = h mod 12" by auto
  have e: "?e < 128" using k(1) by (auto simp: rtc_enc_def)
  have dec: "rtc_dec is_bcd (of_nat ?e) = ?k" using rtc_dec_enc[of ?k is_bcd] k(1) by simp
  have bits: "(of_nat (n + 128) :: u8) AND 0x80 \<noteq> 0 \<and> (of_nat (n + 128) :: u8) AND 0x7F = of_nat n \<and>
      (of_nat n :: u8) AND 0x80 = 0 \<and> (of_nat n :: u8) AND 0x7F = of_nat n" if "n < 128" for n
  proof -
    have u: "unat (of_nat (n + 128) :: u8) = n + 128" "unat (of_nat n :: u8) = n"
      by (rule unat_byte, use that in simp)+
    have m: "n mod 128 = n" "(n + 128) mod 128 = n" using that by simp_all
    show ?thesis unfolding and_80 u by (simp only: word_unat_eq_iff and_7f u m) (use that in simp)
  qed
  note b = bits[OF e]
  show ?thesis
  proof (cases "12 \<le> h")
    case le: True
    then have "rtc_hour is_bcd True (of_nat (?e + 128)) = ?k mod 12 + 12"
      using b by (simp only: rtc_hour_def Let_def if_True dec) simp
    moreover have "h mod 12 + 12 = h" using le assms by presburger
    ultimately show ?thesis using True le k(2) by (simp add: rtc_enc_hour_def)
  next
    case lt: False
    then have "rtc_hour is_bcd True (of_nat ?e) = ?k mod 12"
      using b by (simp only: rtc_hour_def Let_def if_True dec) simp
    then show ?thesis using True lt k(2) by (simp add: rtc_enc_hour_def)
  qed
next
  case False
  then show ?thesis using rtc_dec_enc[of h is_bcd] assms by (simp add: rtc_hour_def rtc_enc_hour_def)
qed

lemma settle_stable:
  assumes "i < n" "\<forall>j<i. read_raw (cmos (k + j)) \<noteq> read_raw (cmos (k + j + 1))"
    "read_raw (cmos (k + i + 1)) = read_raw (cmos (k + i))"
  shows "settle n (k + 1) cmos (read_raw (cmos k)) = read_raw (cmos (k + i))"
  using assms
proof (induction n arbitrary: k i)
  case (Suc n)
  show ?case
  proof (cases i)
    case 0
    then show ?thesis using Suc.prems(3) by (simp add: Let_def)
  next
    case (Suc i')
    have "read_raw (cmos (k + 1)) \<noteq> read_raw (cmos k)" using Suc.prems(2) Suc by force
    then have "settle (Suc n) (k + 1) cmos (read_raw (cmos k)) = settle n (k + 1 + 1) cmos (read_raw (cmos (k + 1)))"
      by (simp add: Let_def)
    also have "\<dots> = read_raw (cmos (k + 1 + i'))"
    proof (rule Suc.IH)
      show "i' < n" using Suc.prems(1) Suc by simp
      show "\<forall>j<i'. read_raw (cmos (k + 1 + j)) \<noteq> read_raw (cmos (k + 1 + j + 1))"
      proof (intro allI impI)
        fix j assume "j < i'"
        then have "j + 1 < i" using Suc by simp
        then have "read_raw (cmos (k + (j + 1))) \<noteq> read_raw (cmos (k + (j + 1) + 1))" using Suc.prems(2) by blast
        then show "read_raw (cmos (k + 1 + j)) \<noteq> read_raw (cmos (k + 1 + j + 1))" by (simp add: ac_simps)
      qed
      show "read_raw (cmos (k + 1 + i' + 1)) = read_raw (cmos (k + 1 + i'))"
        using Suc.prems(3) Suc by (simp add: ac_simps Suc_eq_plus1)
    qed
    finally show ?thesis using Suc by (simp add: ac_simps Suc_eq_plus1)
  qed
qed simp

definition unix_secs :: "nat \<times> nat \<times> nat \<Rightarrow> nat \<times> nat \<times> nat \<Rightarrow> nat" where
  "unix_secs date time =
     (case (date, time) of ((y, mo, d), (h, mi, sec)) \<Rightarrow>
        days_since_epoch y mo d * 86400 + h * 3600 + mi * 60 + sec)"

lemma rtc_read_settled:
  assumes "valid_date (y, mo, d)" "2020 \<le> y" "y \<le> 2100" "h < 24" "mi < 60" "sec < 60"
    and "i < 10" "\<forall>j<i. read_raw (cmos j) \<noteq> read_raw (cmos (j + 1))"
    and "read_raw (cmos i) = rtc_encode (status_b AND 0x04 = 0) (status_b AND 0x02 = 0) (y, mo, d) (h, mi, sec)"
    and "read_raw (cmos (i + 1)) = read_raw (cmos i)"
  shows "read_rtc_unix_secs cmos status_b = Some (unix_secs (y, mo, d) (h, mi, sec))"
proof -
  have v: "1 \<le> mo" "mo \<le> 12" "1 \<le> d" "d \<le> month_length y mo" using assms(1) by (simp_all add: valid_date_def)
  have d: "d \<le> 31" using v(4) by (simp add: month_length_def split: if_splits)
  have "settle 10 (0 + 1) cmos (read_raw (cmos 0)) = read_raw (cmos (0 + i))"
    by (rule settle_stable) (use assms(7,8,10) in simp_all)
  then have st: "settle 10 1 cmos (read_raw (cmos 0)) = read_raw (cmos i)" by simp
  have "rtc_year (y div 100) (y mod 100) = y"
    using assms(2,3) by (auto simp: rtc_year_def)
  then show ?thesis
    using assms(2-6) v(1-3) d
    by (simp add: read_rtc_unix_secs_def Let_def st assms(9) rtc_encode_def rtc_dec_enc rtc_hour_enc unix_secs_def)
qed

text \<open>C24 The clock is read back exactly: whatever the mode of the chip (BCD or binary, 12 or 24 hours), if
  the first two of at most eleven successive reads that agree show a date between 2020 and 2100 and a
  time, \<open>read_rtc_unix_secs\<close> returns its number of seconds since the epoch; reads torn by an
  update before that are discarded.\<close>

theorem rtc_roundtrip:
  assumes "valid_date (y, mo, d)" "2020 \<le> y" "y \<le> 2100" "h < 24" "mi < 60" "sec < 60"
    and "i < 10" "\<forall>j<i. read_raw (cmos j) \<noteq> read_raw (cmos (j + 1))"
    and "read_raw (cmos i) = rtc_encode (status_b AND 0x04 = 0) (status_b AND 0x02 = 0) (y, mo, d) (h, mi, sec)"
    and "read_raw (cmos (i + 1)) = read_raw (cmos i)"
  shows "read_rtc_unix_secs cmos status_b = Some (unix_secs (y, mo, d) (h, mi, sec))"
  using assms by (rule rtc_read_settled)

theorem rtc_roundtrip_witness:
  "read_rtc_unix_secs (\<lambda>i r. if i = 0 then 0 else
      if r = 0x00 then 0x56 else if r = 0x02 then 0x34 else if r = 0x04 then 0x12 else if r = 0x07 then 0x29
      else if r = 0x08 then 0x02 else if r = 0x09 then 0x24 else 0x20) 0x02 = Some 1709210096"
proof -
  let ?cmos = "\<lambda>(i :: nat) (r :: nat). if i = 0 then 0 else
      if r = 0x00 then 0x56 else if r = 0x02 then 0x34 else if r = 0x04 then 0x12 else if r = 0x07 then 0x29
      else if r = 0x08 then 0x02 else if r = 0x09 then 0x24 else 0x20 :: u8"
  have "read_rtc_unix_secs ?cmos 0x02 = Some (unix_secs (2024, 2, 29) (12, 34, 56))"
  proof (rule rtc_roundtrip[where i = 1])
    show "read_raw (?cmos 1) = rtc_encode ((0x02 :: u8) AND 0x04 = 0) ((0x02 :: u8) AND 0x02 = 0) (2024, 2, 29) (12, 34, 56)"
      by (simp add: read_raw_def rtc_encode_def rtc_enc_def rtc_enc_hour_def)
  qed (simp_all add: valid_date_def month_length_def read_raw_def)
  also have "unix_secs (2024, 2, 29) (12, 34, 56) = 1709210096"
    by (simp add: unix_secs_def days_since_epoch_def year_days.simps month_days.simps is_leap_def MDAYS_def)
  finally show ?thesis .
qed

end
