(* ===== verification/Clock.thy ===== *)
theory Clock
  imports Rtc
begin

text \<open>
  Timekeeping (\<open>syscall.rs\<close>): the monotonic clock, which scales the time-stamp counter of the CPU it
  runs on and never goes back, the wall clock seeded from the real-time clock, and the timer
  descriptor. The counter values are inputs: \<open>tsc\<close> is what \<open>rdtsc\<close> gives on CPU \<open>cpu\<close>.
\<close>

section \<open>State\<close>

record clock =
  last_time_ns :: nat
  wall_offset_ns :: nat
  last_returned :: "nat \<Rightarrow> nat"
  tsc_freq_hz :: nat
  tsc_offsets :: "nat \<Rightarrow> i64"
  timerfd_deadline_ns :: nat

definition clock_init :: clock where
  "clock_init =
     \<lparr>last_time_ns = 0, wall_offset_ns = 0, last_returned = (\<lambda>_. 0), tsc_freq_hz = 2000000000,
      tsc_offsets = (\<lambda>_. 0), timerfd_deadline_ns = 0\<rparr>"

section \<open>Calibration\<close>

definition calibrate_tsc :: "nat \<Rightarrow> nat \<Rightarrow> clock \<Rightarrow> clock" where
  "calibrate_tsc tsc_start tsc_end st =
     (let tsc_ticks = wsub64 tsc_end tsc_start
      in st\<lparr>tsc_freq_hz := wmul64 tsc_ticks 1193182 div 11932\<rparr>)"

text \<open>\<open>pairs\<close> are the counter values of the boot processor and of the CPU in the three rounds; the index
  of the CPU is checked, as every array access is.\<close>

definition measure_tsc_offset :: "nat \<Rightarrow> (nat \<times> nat) list \<Rightarrow> clock \<Rightarrow> clock outcome" where
  "measure_tsc_offset cpu_id pairs st =
     (let offsets = sort (map (\<lambda>(bsp_tsc, ap_tsc). wrap_i64 (as_i64 bsp_tsc - as_i64 ap_tsc)) pairs)
      in if cpu_id < 16 then Done (st\<lparr>tsc_offsets := (tsc_offsets st)(cpu_id := offsets ! 1)\<rparr>)
         else Panic)"

section \<open>Monotonic clock\<close>

definition scaled_ns :: "clock \<Rightarrow> nat \<Rightarrow> nat \<Rightarrow> nat" where
  "scaled_ns st cpu raw_tsc =
     (let offset = (if cpu < 16 then tsc_offsets st cpu else 0);
          corrected_tsc = as_usize (wrap_i64 (as_i64 raw_tsc + offset));
          freq_mhz = tsc_freq_hz st div 1000000
      in if 0 < freq_mhz then wmul64 corrected_tsc 1000 div freq_mhz else corrected_tsc div 2)"

definition monotonic_ns :: "nat \<Rightarrow> nat \<Rightarrow> clock \<Rightarrow> nat \<times> clock" where
  "monotonic_ns cpu raw_tsc st =
     (let total_ns = scaled_ns st cpu raw_tsc;
          prev = last_time_ns st;
          result = max prev total_ns;
          st = st\<lparr>last_time_ns := max prev total_ns\<rparr>
      in (result,
          if cpu < 16
          then st\<lparr>last_returned := (last_returned st)(cpu := max (last_returned st cpu) result)\<rparr>
          else st))"

section \<open>Wall clock\<close>

definition seed_wall_clock :: "(nat \<Rightarrow> nat \<Rightarrow> u8) \<Rightarrow> u8 \<Rightarrow> nat \<Rightarrow> nat \<Rightarrow> clock \<Rightarrow> clock" where
  "seed_wall_clock cmos status_b cpu raw_tsc st =
     (case read_rtc_unix_secs cmos status_b of
        Some secs \<Rightarrow>
          let wall_ns = sat_mul64 secs 1000000000;
              (mono, st) = monotonic_ns cpu raw_tsc st
          in st\<lparr>wall_offset_ns := wall_ns - mono\<rparr>
      | None \<Rightarrow> st)"

definition realtime_ns :: "nat \<Rightarrow> nat \<Rightarrow> clock \<Rightarrow> nat \<times> clock" where
  "realtime_ns cpu raw_tsc st =
     (let (mono, st) = monotonic_ns cpu raw_tsc st in (wadd64 mono (wall_offset_ns st), st))"

text \<open>The result and, unless the pointer is null, the two words stored through it.\<close>

definition sys_clock_gettime :: "i32 \<Rightarrow> bool \<Rightarrow> nat \<Rightarrow> nat \<Rightarrow> clock \<Rightarrow> (i64 \<times> (nat \<times> nat) option) \<times> clock" where
  "sys_clock_gettime clk_id tp_null cpu raw_tsc st =
     (if tp_null then ((- 22, None), st)
      else
        let (ns, st) = (if clk_id = 0 \<or> clk_id = 5 then realtime_ns cpu raw_tsc st
                        else monotonic_ns cpu raw_tsc st)
        in ((0, Some (ns div 1000000000, ns mod 1000000000)), st))"

section \<open>Timer descriptor\<close>

text \<open>\<open>value\<close> is the pair read through the pointer, \<open>None\<close> for a null pointer.\<close>

definition sys_timerfd_settime :: "u32 \<Rightarrow> (nat \<times> nat) option \<Rightarrow> nat \<Rightarrow> nat \<Rightarrow> clock \<Rightarrow> i64 \<times> clock" where
  "sys_timerfd_settime flags value cpu raw_tsc st =
     (case value of
        None \<Rightarrow> (0, st\<lparr>timerfd_deadline_ns := 0\<rparr>)
      | Some (it_value_sec, it_value_nsec) \<Rightarrow>
          if it_value_sec = 0 \<and> it_value_nsec = 0 then (0, st\<lparr>timerfd_deadline_ns := 0\<rparr>)
          else
            let dur_ns = sat_add64 (sat_mul64 it_value_sec 1000000000) it_value_nsec;
                (deadline, st) =
                  (if flags AND 1 \<noteq> 0 then (dur_ns, st)
                   else let (now, st) = monotonic_ns cpu raw_tsc st in (sat_add64 now dur_ns, st))
            in (0, st\<lparr>timerfd_deadline_ns := deadline\<rparr>))"

definition timerfd_ready :: "nat \<Rightarrow> nat \<Rightarrow> clock \<Rightarrow> bool \<times> clock" where
  "timerfd_ready cpu raw_tsc st =
     (let deadline = timerfd_deadline_ns st
      in if deadline = 0 then (False, st)
         else let (now, st) = monotonic_ns cpu raw_tsc st in (deadline \<le> now, st))"

definition timerfd_consume :: "nat \<Rightarrow> nat \<Rightarrow> clock \<Rightarrow> nat \<times> clock" where
  "timerfd_consume cpu raw_tsc st =
     (let deadline = timerfd_deadline_ns st
      in if deadline = 0 then (0, st)
         else
           let (now, st) = monotonic_ns cpu raw_tsc st
           in if deadline \<le> now then (1, st\<lparr>timerfd_deadline_ns := 0\<rparr>) else (0, st))"

section \<open>The clock never goes back\<close>

text \<open>Everything that happens to the clock, with the readings of the monotonic clock it makes.\<close>

datatype clock_event =
    Read_ns nat nat
  | Gettime i32 nat nat
  | Settime u32 "(nat \<times> nat) option" nat nat
  | Is_ready nat nat
  | Consume nat nat
  | Seed "nat \<Rightarrow> nat \<Rightarrow> u8" u8 nat nat
  | Calibrate nat nat
  | Offset nat "(nat \<times> nat) list"

definition clock_step :: "clock_event \<Rightarrow> clock \<Rightarrow> clock" where
  "clock_step e st =
     (case e of
        Read_ns cpu tsc \<Rightarrow> snd (monotonic_ns cpu tsc st)
      | Gettime clk cpu tsc \<Rightarrow> snd (sys_clock_gettime clk False cpu tsc st)
      | Settime flags v cpu tsc \<Rightarrow> snd (sys_timerfd_settime flags v cpu tsc st)
      | Is_ready cpu tsc \<Rightarrow> snd (timerfd_ready cpu tsc st)
      | Consume cpu tsc \<Rightarrow> snd (timerfd_consume cpu tsc st)
      | Seed cmos b cpu tsc \<Rightarrow> seed_wall_clock cmos b cpu tsc st
      | Calibrate a b \<Rightarrow> calibrate_tsc a b st
      | Offset cpu ps \<Rightarrow> (case measure_tsc_offset cpu ps st of Done st' \<Rightarrow> st' | Panic \<Rightarrow> st))"

lemma monotonic_ns_last:
  "fst (monotonic_ns cpu tsc st) = last_time_ns (snd (monotonic_ns cpu tsc st))"
  "last_time_ns st \<le> last_time_ns (snd (monotonic_ns cpu tsc st))"
  "wall_offset_ns (snd (monotonic_ns cpu tsc st)) = wall_offset_ns st"
  "timerfd_deadline_ns (snd (monotonic_ns cpu tsc st)) = timerfd_deadline_ns st"
  by (simp_all add: monotonic_ns_def Let_def)

lemma clock_step_mono: "last_time_ns st \<le> last_time_ns (clock_step e st)"
proof (cases e)
  case (Seed cmos b cpu tsc)
  then show ?thesis using monotonic_ns_last(2)[of st cpu tsc]
    by (auto simp: clock_step_def seed_wall_clock_def Let_def split: option.splits prod.splits)
next
  case (Settime flags v cpu tsc)
  then show ?thesis using monotonic_ns_last(2)[of st cpu tsc]
    by (auto simp: clock_step_def sys_timerfd_settime_def Let_def split: option.splits prod.splits)
next
  case (Gettime clk cpu tsc)
  then show ?thesis using monotonic_ns_last(2)[of st cpu tsc]
    by (auto simp: clock_step_def sys_clock_gettime_def realtime_ns_def Let_def split: prod.splits)
next
  case (Consume cpu tsc)
  then show ?thesis using monotonic_ns_last(2)[of st cpu tsc]
    by (auto simp: clock_step_def timerfd_consume_def Let_def split: prod.splits)
next
  case (Is_ready cpu tsc)
  then show ?thesis using monotonic_ns_last(2)[of st cpu tsc]
    by (auto simp: clock_step_def timerfd_ready_def Let_def split: prod.splits)
qed (simp_all add: clock_step_def monotonic_ns_last calibrate_tsc_def measure_tsc_offset_def Let_def)

lemma clock_run_mono: "last_time_ns st \<le> last_time_ns (fold clock_step es st)"
  by (induction es arbitrary: st) (auto intro: order_trans clock_step_mono)

definition returned_ok :: "clock \<Rightarrow> bool" where
  "returned_ok st \<longleftrightarrow> (\<forall>cpu. last_returned st cpu \<le> last_time_ns st)"

lemma returned_step: "returned_ok st \<Longrightarrow> returned_ok (clock_step e st)"
proof -
  assume ok: "returned_ok st"
  have m: "returned_ok (snd (monotonic_ns cpu tsc st))" for cpu tsc
    using ok by (auto simp: returned_ok_def monotonic_ns_def Let_def le_max_iff_disj)
  show ?thesis
  proof (cases e)
    case (Seed cmos b cpu tsc)
    then show ?thesis using m[of cpu tsc] ok
      by (auto simp: clock_step_def seed_wall_clock_def returned_ok_def Let_def split: option.splits prod.splits)
  next
    case (Settime flags v cpu tsc)
    then show ?thesis using m[of cpu tsc] ok
      by (auto simp: clock_step_def sys_timerfd_settime_def returned_ok_def Let_def split: option.splits prod.splits)
  next
    case (Gettime clk cpu tsc)
    then show ?thesis using m[of cpu tsc]
      by (auto simp: clock_step_def sys_clock_gettime_def realtime_ns_def Let_def split: prod.splits)
  next
    case (Consume cpu tsc)
    then show ?thesis using m[of cpu tsc] ok
      by (auto simp: clock_step_def timerfd_consume_def returned_ok_def Let_def split: prod.splits)
  next
    case (Is_ready cpu tsc)
    then show ?thesis using m[of cpu tsc] ok
      by (auto simp: clock_step_def timerfd_ready_def Let_def split: prod.splits)
  qed (use m ok in \<open>simp_all add: clock_step_def calibrate_tsc_def measure_tsc_offset_def returned_ok_def Let_def\<close>)
qed

lemma returned_run: "returned_ok st \<Longrightarrow> returned_ok (fold clock_step es st)"
  by (induction es arbitrary: st) (auto intro: returned_step)

lemma returned_init: "returned_ok clock_init"
  by (simp add: returned_ok_def clock_init_def)

text \<open>C15 The monotonic clock never goes back: whatever the time-stamp counters of the CPUs show, however they
  are calibrated and whatever happens in between, a later reading on any CPU is at least an earlier reading
  on any CPU, and the check for a backwards jump in \<open>monotonic_ns\<close> never fires.\<close>

theorem clock_monotonic:
  "let st = fold clock_step es clock_init;
       (t1, st1) = monotonic_ns cpu1 tsc1 st;
       (t2, st2) = monotonic_ns cpu2 tsc2 (fold clock_step es' st1)
   in t1 \<le> t2 \<and> last_returned st cpu1 \<le> t1"
proof -
  let ?st = "fold clock_step es clock_init"
  let ?m1 = "monotonic_ns cpu1 tsc1 ?st"
  let ?st' = "fold clock_step es' (snd ?m1)"
  have "fst ?m1 \<le> last_time_ns ?st'" using clock_run_mono[of "snd ?m1" es'] unfolding monotonic_ns_last(1) .
  also have "\<dots> \<le> fst (monotonic_ns cpu2 tsc2 ?st')" unfolding monotonic_ns_last(1) by (rule monotonic_ns_last(2))
  finally have "fst ?m1 \<le> fst (monotonic_ns cpu2 tsc2 ?st')" .
  moreover have "last_returned ?st cpu1 \<le> last_time_ns ?st"
    using returned_run[OF returned_init, of es] unfolding returned_ok_def by blast
  then have "last_returned ?st cpu1 \<le> fst ?m1" unfolding monotonic_ns_last(1)
    using monotonic_ns_last(2)[of ?st cpu1 tsc1] by (rule order_trans)
  ultimately show ?thesis by (simp add: Let_def case_prod_beta)
qed

section \<open>Range of the clock\<close>

lemma corrected_plain: "n < two64 \<Longrightarrow> as_usize (wrap_i64 (as_i64 n + 0)) = n"
  by (simp add: as_i64_def as_usize_def wrap_i64_def Let_def)



section \<open>The wall clock\<close>

lemma year_days_bound: "year_days y year days \<le> days + (year - y) * 366"
proof (induction y year days rule: year_days.induct)
  case (1 y year days)
  show ?case
  proof (cases "y < year")
    case True
    then have "year - y = (year - (y + 1)) + 1" by simp
    then show ?thesis using 1[OF True] True by (subst year_days.simps) (auto split: if_splits)
  qed (simp add: year_days.simps)
qed

lemma month_length_bound: "month_length y m \<le> 31"
  by (simp add: month_length_def)

lemma days_bound:
  assumes "year \<le> 2100" "1 \<le> m" "m \<le> 12" "d \<le> 31"
  shows "days_since_epoch year m d \<le> 60000"
proof -
  have "(\<Sum>k = 1..<m. month_length year k) \<le> (\<Sum>k = 1..<m. 31)" by (intro sum_mono month_length_bound)
  then have "(\<Sum>k = 1..<m. month_length year k) \<le> 341" using assms(3) by simp
  moreover have "year_days 1970 year 0 \<le> 47580" using year_days_bound[of 1970 year 0] assms(1) by simp
  ultimately show ?thesis using assms by (simp add: days_since_epoch_def month_days_sum)
qed

lemma rtc_secs_bound:
  assumes "read_rtc_unix_secs cmos b = Some secs"
  shows "secs < 5400000000"
proof -
  let ?l = "settle 10 1 cmos (read_raw (cmos 0))"
  let ?d = "rtc_dec (b AND 0x04 = 0)"
  let ?year = "rtc_year (?d (rt_cent ?l)) (?d (rt_year ?l))"
  let ?hour = "rtc_hour (b AND 0x04 = 0) (b AND 0x02 = 0) (rt_hour ?l)"
  have r: "?year \<le> 2100" "1 \<le> ?d (rt_mon ?l)" "?d (rt_mon ?l) \<le> 12" "?d (rt_day ?l) \<le> 31"
      "?hour \<le> 23" "?d (rt_min ?l) \<le> 59" "?d (rt_sec ?l) \<le> 60"
      "secs = days_since_epoch ?year (?d (rt_mon ?l)) (?d (rt_day ?l)) * 86400 + ?hour * 3600 +
         ?d (rt_min ?l) * 60 + ?d (rt_sec ?l)"
    using assms by (auto simp: read_rtc_unix_secs_def Let_def split: if_splits)
  show ?thesis unfolding r(8) using days_bound[OF r(1-4)] r(5-7) by linarith
qed

fun reseeds :: "clock_event \<Rightarrow> bool" where
  "reseeds (Seed cmos b cpu tsc) \<longleftrightarrow> True"
| "reseeds e \<longleftrightarrow> False"

lemma wall_offset_step: "\<not> reseeds e \<Longrightarrow> wall_offset_ns (clock_step e st) = wall_offset_ns st"
proof (cases e)
  case (Settime flags v cpu tsc)
  then show ?thesis using monotonic_ns_last(3)[of cpu tsc st]
    by (auto simp: clock_step_def sys_timerfd_settime_def Let_def split: option.splits prod.splits)
next
  case (Gettime clk cpu tsc)
  then show ?thesis using monotonic_ns_last(3)[of cpu tsc st]
    by (auto simp: clock_step_def sys_clock_gettime_def realtime_ns_def Let_def split: prod.splits)
next
  case (Consume cpu tsc)
  then show ?thesis using monotonic_ns_last(3)[of cpu tsc st]
    by (auto simp: clock_step_def timerfd_consume_def Let_def split: prod.splits)
next
  case (Is_ready cpu tsc)
  then show ?thesis using monotonic_ns_last(3)[of cpu tsc st]
    by (auto simp: clock_step_def timerfd_ready_def Let_def split: prod.splits)
qed (simp_all add: clock_step_def monotonic_ns_last calibrate_tsc_def measure_tsc_offset_def Let_def)

lemma wall_offset_run: "\<forall>e \<in> set es. \<not> reseeds e \<Longrightarrow> wall_offset_ns (fold clock_step es st) = wall_offset_ns st"
  by (induction es arbitrary: st) (auto simp: wall_offset_step)

text \<open>C29 The wall clock advances with the monotonic clock from the time the real-time clock showed when it
  was read at boot: any later reading is that time plus what the monotonic clock advanced since.\<close>

theorem realtime_tracks:
  assumes "read_rtc_unix_secs cmos b = Some secs" "fst (monotonic_ns cpu0 tsc0 st) = mono0"
    and "mono0 \<le> secs * 1000000000" "\<forall>e \<in> set es. \<not> reseeds e"
    and "fst (monotonic_ns cpu tsc (fold clock_step es (seed_wall_clock cmos b cpu0 tsc0 st))) = now"
    and "secs * 1000000000 + (now - mono0) < two64"
  shows "mono0 \<le> now \<and>
    fst (realtime_ns cpu tsc (fold clock_step es (seed_wall_clock cmos b cpu0 tsc0 st))) =
      secs * 1000000000 + (now - mono0)"
proof -
  let ?s = "seed_wall_clock cmos b cpu0 tsc0 st"
  let ?t = "fold clock_step es ?s"
  have "sat_mul64 secs 1000000000 = secs * 1000000000"
    using rtc_secs_bound[OF assms(1)] by (simp add: sat_mul64_def)
  then have "wall_offset_ns ?s = secs * 1000000000 - mono0" "last_time_ns ?s = mono0"
    using assms(1,2) monotonic_ns_last(1)[of cpu0 tsc0 st] by (auto simp: seed_wall_clock_def Let_def split: prod.splits)
  then have off: "wall_offset_ns ?t = secs * 1000000000 - mono0" and le: "mono0 \<le> last_time_ns ?t"
    using wall_offset_run[OF assms(4)] clock_run_mono[of ?s es] by simp_all
  have m: "mono0 \<le> now" using le assms(5) monotonic_ns_last(1)[of cpu tsc ?t] monotonic_ns_last(2)[of ?t cpu tsc] by simp
  have "fst (realtime_ns cpu tsc ?t) = wadd64 now (wall_offset_ns ?t)"
    by (simp only: realtime_ns_def Let_def case_prod_beta fst_conv monotonic_ns_last(3) assms(5))
  also have "\<dots> = (secs * 1000000000 + (now - mono0)) mod two64"
  proof -
    have "now + (secs * 1000000000 - mono0) = secs * 1000000000 + (now - mono0)" using assms(3) m by simp
    then show ?thesis unfolding off wadd64_def by (rule arg_cong)
  qed
  also have "\<dots> = secs * 1000000000 + (now - mono0)" using assms(6) by (rule mod_less)
  finally show ?thesis using m by blast
qed

theorem realtime_tracks_witness:
  "fst (realtime_ns 0 4000000000 (fold clock_step [Read_ns 0 3000000000]
     (seed_wall_clock (\<lambda>i r. if r = 0x09 then 24 else if r = 0x32 then 20 else 1) 0x06 0 2000000000 clock_init))) =
   1704070861 * 1000000000 + 1000000000"
proof -
  let ?cmos = "\<lambda>(i :: nat) (r :: nat). if r = 0x09 then 24 else if r = 0x32 then 20 else 1 :: u8"
  have r: "read_rtc_unix_secs ?cmos 0x06 = Some 1704070861"
  proof -
    have "read_rtc_unix_secs ?cmos 0x06 = Some (unix_secs (2024, 1, 1) (1, 1, 1))"
    proof (rule rtc_read_settled[where i = 0])
      show "read_raw (?cmos 0) = rtc_encode ((0x06 :: u8) AND 0x04 = 0) ((0x06 :: u8) AND 0x02 = 0) (2024, 1, 1) (1, 1, 1)"
        by (simp add: read_raw_def rtc_encode_def rtc_enc_def rtc_enc_hour_def)
    qed (simp_all add: valid_date_def month_length_def read_raw_def)
    then show ?thesis
      by (simp add: unix_secs_def days_since_epoch_def year_days.simps month_days.simps is_leap_def)
  qed
  note run_clock = monotonic_ns_def scaled_ns_def clock_init_def as_i64_def wrap_i64_def as_usize_def wmul64_def Let_def
  have m0: "monotonic_ns 0 2000000000 clock_init =
      (1000000000, clock_init\<lparr>last_time_ns := 1000000000, last_returned := (\<lambda>_. 0)(0 := 1000000000)\<rparr>)"
    by (simp add: run_clock)
  have seed: "seed_wall_clock ?cmos 0x06 0 2000000000 clock_init =
      clock_init\<lparr>last_time_ns := 1000000000, last_returned := (\<lambda>_. 0)(0 := 1000000000),
        wall_offset_ns := 1704070861 * 1000000000 - 1000000000\<rparr>"
    unfolding seed_wall_clock_def r m0 by (simp add: sat_mul64_def Let_def)
  have e1: "fst (monotonic_ns 0 2000000000 clock_init) = 1000000000" unfolding m0 by simp
  have step: "clock_step (Read_ns 0 3000000000) (seed_wall_clock ?cmos 0x06 0 2000000000 clock_init) =
      clock_init\<lparr>last_time_ns := 1500000000, last_returned := (\<lambda>_. 0)(0 := 1500000000),
        wall_offset_ns := 1704070861 * 1000000000 - 1000000000\<rparr>"
    unfolding seed clock_step_def clock_event.case by (simp add: run_clock)
  have e2: "fst (monotonic_ns 0 4000000000 (fold clock_step [Read_ns 0 3000000000]
        (seed_wall_clock ?cmos 0x06 0 2000000000 clock_init))) = 2000000000"
    by (simp only: fold.simps comp_def id_def step) (simp add: run_clock)
  note t = realtime_tracks[OF r e1 _ _ e2]
  show ?thesis using t by simp
qed

end
