(* ===== verification/Elf.thy ===== *)
theory Elf
  imports Prelude
begin

text \<open>
  The loader of static executables (\<open>elf.rs\<close>): header checks, the loop over the program headers and the
  placement of the loadable segments in identity-mapped memory. Memory is a function from addresses to
  bytes. An access outside the file's slice, which the language leaves undefined, is the result \<open>Fault\<close>.
\<close>

section \<open>Headers\<close>

definition ELF_MAGIC :: bytes where
  "ELF_MAGIC = [0x7f, 0x45, 0x4c, 0x46]"

definition ET_EXEC :: nat where
  "ET_EXEC = 2"

definition PT_LOAD :: nat where
  "PT_LOAD = 1"

definition ELFCLASS64 :: u8 where
  "ELFCLASS64 = 2"

definition EM_X86_64 :: nat where
  "EM_X86_64 = 62"

record elf_header =
  e_ident :: bytes
  e_type :: nat
  e_machine :: nat
  e_version :: nat
  e_entry :: nat
  e_phoff :: nat
  e_shoff :: nat
  e_flags :: nat
  e_ehsize :: nat
  e_phentsize :: nat
  e_phnum :: nat
  e_shentsize :: nat
  e_shnum :: nat
  e_shstrndx :: nat

record elf_phdr =
  p_type :: nat
  p_flags :: nat
  p_offset :: nat
  p_vaddr :: nat
  p_paddr :: nat
  p_filesz :: nat
  p_memsz :: nat
  p_align :: nat

record elf_info =
  entry :: nat
  phdr_vaddr :: nat
  phentsize :: nat
  phnum :: nat
  mem_end :: nat

text \<open>A field of \<open>k\<close> bytes at offset \<open>i\<close>, as the C layout of the two structures places it.\<close>

definition field :: "nat \<Rightarrow> nat \<Rightarrow> bytes \<Rightarrow> nat" where
  "field k i d = unle (take k (drop i d))"

definition header_at :: "bytes \<Rightarrow> elf_header" where
  "header_at d =
     \<lparr>e_ident = take 16 d, e_type = field 2 16 d, e_machine = field 2 18 d, e_version = field 4 20 d,
      e_entry = field 8 24 d, e_phoff = field 8 32 d, e_shoff = field 8 40 d, e_flags = field 4 48 d,
      e_ehsize = field 2 52 d, e_phentsize = field 2 54 d, e_phnum = field 2 56 d,
      e_shentsize = field 2 58 d, e_shnum = field 2 60 d, e_shstrndx = field 2 62 d\<rparr>"

definition phdr_at :: "bytes \<Rightarrow> nat \<Rightarrow> elf_phdr" where
  "phdr_at d off =
     \<lparr>p_type = field 4 off d, p_flags = field 4 (off + 4) d, p_offset = field 8 (off + 8) d,
      p_vaddr = field 8 (off + 16) d, p_paddr = field 8 (off + 24) d, p_filesz = field 8 (off + 32) d,
      p_memsz = field 8 (off + 40) d, p_align = field 8 (off + 48) d\<rparr>"

section \<open>Loading\<close>

type_synonym mem = "nat \<Rightarrow> u8"

datatype elf_error = Err string | Fault

record loader =
  ld_mem :: mem
  ld_phdr_vaddr :: nat
  ld_mem_end :: nat

definition copy_to :: "nat \<Rightarrow> bytes \<Rightarrow> mem \<Rightarrow> mem" where
  "copy_to a bs m = (\<lambda>x. if a \<le> x \<and> x < a + length bs then bs ! (x - a) else m x)"

definition zero_range :: "nat \<Rightarrow> nat \<Rightarrow> mem \<Rightarrow> mem" where
  "zero_range a n m = (\<lambda>x. if a \<le> x \<and> x < a + n then 0 else m x)"

text \<open>The body of the loop for the program header \<open>ph\<close>.\<close>

definition load_phdr :: "bytes \<Rightarrow> elf_header \<Rightarrow> elf_phdr \<Rightarrow> loader \<Rightarrow> elf_error option \<times> loader" where
  "load_phdr elf_data header phdr st =
     (if p_type phdr \<noteq> PT_LOAD then (None, st)
      else
        let src_offset = p_offset phdr; dst_addr = p_vaddr phdr; filesz = p_filesz phdr; memsz = p_memsz phdr
        in if length elf_data < wadd64 src_offset filesz then (Some (Err ''segment data out of bounds''), st)
           else if length elf_data < src_offset + filesz then (Some Fault, st)
           else
             let m = copy_to dst_addr (take filesz (drop src_offset elf_data)) (ld_mem st);
                 m = (if filesz < memsz then zero_range (wadd64 dst_addr filesz) (memsz - filesz) m else m);
                 seg_end = wadd64 dst_addr memsz
             in (None, st\<lparr>ld_mem := m,
                   ld_mem_end := (if ld_mem_end st < seg_end then seg_end else ld_mem_end st),
                   ld_phdr_vaddr :=
                     (if ld_phdr_vaddr st = 0 \<and> p_offset phdr \<le> e_phoff header \<and>
                         e_phoff header < wadd64 (p_offset phdr) (p_filesz phdr)
                      then wadd64 (p_vaddr phdr) (e_phoff header - p_offset phdr)
                      else ld_phdr_vaddr st)\<rparr>))"

primrec load_phdrs :: "nat \<Rightarrow> nat \<Rightarrow> bytes \<Rightarrow> elf_header \<Rightarrow> loader \<Rightarrow> elf_error option \<times> loader" where
  "load_phdrs 0 i elf_data header st = (None, st)"
| "load_phdrs (Suc n) i elf_data header st =
     (let off = wadd64 (e_phoff header) (i * 56)
      in if length elf_data < wadd64 off 56 then (Some (Err ''program header out of bounds''), st)
         else if length elf_data < off + 56 then (Some Fault, st)
         else
           case load_phdr elf_data header (phdr_at elf_data off) st of
             (Some e, st) \<Rightarrow> (Some e, st)
           | (None, st) \<Rightarrow> load_phdrs n (i + 1) elf_data header st)"

definition elf_load :: "bytes \<Rightarrow> mem \<Rightarrow> (elf_error + elf_info) \<times> mem" where
  "elf_load elf_data m =
     (if length elf_data < 64 then (Inl (Err ''ELF data too small''), m)
      else
        let header = header_at elf_data
        in if take 4 (e_ident header) \<noteq> ELF_MAGIC then (Inl (Err ''bad ELF magic''), m)
           else if e_ident header ! 4 \<noteq> ELFCLASS64 then (Inl (Err ''not ELF64''), m)
           else if e_type header \<noteq> ET_EXEC then (Inl (Err ''not ET_EXEC (static executable)''), m)
           else if e_machine header \<noteq> EM_X86_64 then (Inl (Err ''not x86_64''), m)
           else
             case load_phdrs (e_phnum header) 0 elf_data header
                    \<lparr>ld_mem = m, ld_phdr_vaddr = 0, ld_mem_end = 0\<rparr> of
               (Some e, st) \<Rightarrow> (Inl e, ld_mem st)
             | (None, st) \<Rightarrow>
                 (Inr \<lparr>entry = e_entry header, phdr_vaddr = ld_phdr_vaddr st,
                       phentsize = e_phentsize header, phnum = e_phnum header,
                       mem_end = align_down 4096 (wadd64 (ld_mem_end st) 4095)\<rparr>,
                  ld_mem st))"

section \<open>Well-formed executables\<close>

definition elf_phdrs :: "bytes \<Rightarrow> elf_phdr list" where
  "elf_phdrs d = map (\<lambda>i. phdr_at d (e_phoff (header_at d) + i * 56)) [0..<e_phnum (header_at d)]"

definition elf_loads :: "bytes \<Rightarrow> elf_phdr list" where
  "elf_loads d = filter (\<lambda>ph. p_type ph = PT_LOAD) (elf_phdrs d)"

definition in_segment :: "elf_phdr \<Rightarrow> nat \<Rightarrow> bool" where
  "in_segment ph x \<longleftrightarrow> p_vaddr ph \<le> x \<and> x < p_vaddr ph + p_memsz ph"

definition disjoint_segments :: "elf_phdr \<Rightarrow> elf_phdr \<Rightarrow> bool" where
  "disjoint_segments a b \<longleftrightarrow> p_vaddr a + p_memsz a \<le> p_vaddr b \<or> p_vaddr b + p_memsz b \<le> p_vaddr a"

definition elf_header_ok :: "bytes \<Rightarrow> bool" where
  "elf_header_ok d \<longleftrightarrow>
     64 \<le> length d \<and> take 4 d = ELF_MAGIC \<and> d ! 4 = ELFCLASS64 \<and>
     e_type (header_at d) = ET_EXEC \<and> e_machine (header_at d) = EM_X86_64"

definition segment_ok :: "bytes \<Rightarrow> elf_phdr \<Rightarrow> bool" where
  "segment_ok d ph \<longleftrightarrow>
     p_offset ph + p_filesz ph \<le> length d \<and> p_filesz ph \<le> p_memsz ph \<and>
     p_vaddr ph + p_memsz ph \<le> two64 - 4096"

definition elf_wf :: "bytes \<Rightarrow> bool" where
  "elf_wf d \<longleftrightarrow>
     elf_header_ok d \<and> length d < two64 \<and> e_phoff (header_at d) + e_phnum (header_at d) * 56 \<le> length d \<and>
     (\<forall>ph \<in> set (elf_loads d). segment_ok d ph) \<and> sorted_wrt disjoint_segments (elf_loads d)"

section \<open>The loop on a well-formed executable\<close>

text \<open>The contents of a segment at an address, and the state after placing one.\<close>

definition segment_byte :: "bytes \<Rightarrow> elf_phdr \<Rightarrow> nat \<Rightarrow> u8" where
  "segment_byte d ph x =
     (if x < p_vaddr ph + p_filesz ph then d ! (p_offset ph + (x - p_vaddr ph)) else 0)"

definition holds_phdrs :: "elf_header \<Rightarrow> elf_phdr \<Rightarrow> bool" where
  "holds_phdrs h ph \<longleftrightarrow> p_offset ph \<le> e_phoff h \<and> e_phoff h < p_offset ph + p_filesz ph"

definition place :: "bytes \<Rightarrow> elf_header \<Rightarrow> elf_phdr \<Rightarrow> loader \<Rightarrow> loader" where
  "place d h ph st =
     \<lparr>ld_mem = (\<lambda>x. if in_segment ph x then segment_byte d ph x else ld_mem st x),
      ld_phdr_vaddr =
        (if ld_phdr_vaddr st = 0 \<and> holds_phdrs h ph then p_vaddr ph + (e_phoff h - p_offset ph)
         else ld_phdr_vaddr st),
      ld_mem_end = max (ld_mem_end st) (p_vaddr ph + p_memsz ph)\<rparr>"

lemma load_phdr_place:
  assumes "p_type ph = PT_LOAD" "segment_ok d ph" "length d < two64"
  shows "load_phdr d h ph st = (None, place d h ph st)"
proof -
  let ?a = "p_vaddr ph" and ?f = "p_filesz ph" and ?s = "p_offset ph" and ?n = "p_memsz ph"
  have b: "?s + ?f \<le> length d" "?f \<le> ?n" "?a + ?n < two64" using assms(2) by (auto simp: segment_ok_def)
  then have w: "wadd64 ?s ?f = ?s + ?f" "wadd64 ?a ?f = ?a + ?f" "wadd64 ?a ?n = ?a + ?n"
    using assms(3) by (auto intro!: wadd64_small)
  have m: "(if ?f < ?n then zero_range (?a + ?f) (?n - ?f) (copy_to ?a (take ?f (drop ?s d)) (ld_mem st))
      else copy_to ?a (take ?f (drop ?s d)) (ld_mem st)) =
    (\<lambda>x. if in_segment ph x then segment_byte d ph x else ld_mem st x)"
    using b by (auto simp: fun_eq_iff zero_range_def copy_to_def in_segment_def segment_byte_def)
  have v: "wadd64 ?a (e_phoff h - ?s) = ?a + (e_phoff h - ?s)" if "holds_phdrs h ph"
    using that b by (intro wadd64_small) (auto simp: holds_phdrs_def)
  have e: "\<not> length d < ?s + ?f" using b by simp
  show ?thesis
    unfolding load_phdr_def place_def Let_def w using assms(1) e m v
    by (simp add: max_def holds_phdrs_def)
qed

lemma load_phdrs_place:
  assumes "length d < two64" "e_phoff h + (i + n) * 56 \<le> length d"
    and "\<forall>j \<in> {i..<i + n}. let ph = phdr_at d (e_phoff h + j * 56) in p_type ph = PT_LOAD \<longrightarrow> segment_ok d ph"
  shows "load_phdrs n i d h st =
    (None, fold (place d h)
       (filter (\<lambda>ph. p_type ph = PT_LOAD) (map (\<lambda>j. phdr_at d (e_phoff h + j * 56)) [i..<i + n])) st)"
  using assms(2,3)
proof (induction n arbitrary: i st)
  case 0
  then show ?case by simp
next
  case (Suc n)
  let ?off = "e_phoff h + i * 56"
  let ?ph = "phdr_at d ?off"
  have lt: "?off + 56 \<le> length d" using Suc.prems(1) by simp
  then have w: "wadd64 (e_phoff h) (i * 56) = ?off" "wadd64 ?off 56 = ?off + 56"
    using assms(1) by (auto intro!: wadd64_small)
  have IH: "load_phdrs n (i + 1) d h st' = (None, fold (place d h)
       (filter (\<lambda>ph. p_type ph = PT_LOAD) (map (\<lambda>j. phdr_at d (e_phoff h + j * 56)) [i + 1..<i + 1 + n])) st')" for st'
    using Suc.prems by (intro Suc.IH) (auto simp: algebra_simps)
  have u: "[i..<i + Suc n] = i # [i + 1..<i + 1 + n]" by (simp add: upt_conv_Cons One_nat_def del: upt_Suc)
  have "p_type ?ph = PT_LOAD \<Longrightarrow> segment_ok d ?ph" using Suc.prems(2) by (simp add: Let_def)
  then have "load_phdr d h ?ph st = (None, if p_type ?ph = PT_LOAD then place d h ?ph st else st)"
    using load_phdr_place[OF _ _ assms(1), of ?ph h st] by (simp add: load_phdr_def)
  then show ?case
    using lt by (simp only: load_phdrs.simps Let_def w u) (simp add: IH)
qed

lemma place_mem:
  "sorted_wrt disjoint_segments phs \<Longrightarrow>
   ld_mem (fold (place d h) phs st) x =
     (case List.find (\<lambda>ph. in_segment ph x) phs of Some ph \<Rightarrow> segment_byte d ph x | None \<Rightarrow> ld_mem st x)"
proof (induction phs arbitrary: st)
  case (Cons ph phs)
  have "List.find (\<lambda>ph. in_segment ph x) phs = None" if "in_segment ph x"
    using Cons.prems that by (auto simp: find_None_iff in_segment_def disjoint_segments_def)
  then show ?case using Cons by (auto simp: place_def split: option.splits)
qed simp

lemma place_mem_end:
  "ld_mem_end (fold (place d h) phs st) = fold max (map (\<lambda>ph. p_vaddr ph + p_memsz ph) phs) (ld_mem_end st)"
  by (induction phs arbitrary: st) (simp_all add: place_def max.commute)

lemma place_phdr_vaddr:
  "ld_phdr_vaddr (fold (place d h) phs st) =
     (if ld_phdr_vaddr st \<noteq> 0 then ld_phdr_vaddr st
      else case List.find (\<lambda>ph. holds_phdrs h ph \<and> p_vaddr ph + (e_phoff h - p_offset ph) \<noteq> 0) phs of
             Some ph \<Rightarrow> p_vaddr ph + (e_phoff h - p_offset ph) | None \<Rightarrow> 0)"
  by (induction phs arbitrary: st) (auto simp: place_def)

lemma fold_max_bound: "\<forall>x \<in> set xs. x \<le> b \<Longrightarrow> a \<le> b \<Longrightarrow> fold max xs a \<le> (b :: nat)"
  unfolding Max.set_eq_fold[symmetric] by simp

lemma fold_max_ge: "x \<in> set xs \<Longrightarrow> x \<le> fold max xs (a :: nat)"
  unfolding Max.set_eq_fold[symmetric] by (intro Max_ge) simp_all

lemma fold_max_in: "fold max xs a \<in> set (a # xs)" for a :: nat
  unfolding Max.set_eq_fold[symmetric] by (rule Max_in) simp_all

lemma find_segment:
  assumes "sorted_wrt disjoint_segments phs" "ph \<in> set phs" "in_segment ph x"
  shows "List.find (\<lambda>ph. in_segment ph x) phs = Some ph"
  using assms
proof (induction phs)
  case (Cons p phs)
  then show ?case by (auto simp: disjoint_segments_def in_segment_def)
qed simp

lemma elf_load_place:
  assumes "elf_wf d"
  shows "elf_load d m =
    (let st = fold (place d (header_at d)) (elf_loads d) \<lparr>ld_mem = m, ld_phdr_vaddr = 0, ld_mem_end = 0\<rparr>
     in (Inr \<lparr>entry = e_entry (header_at d), phdr_vaddr = ld_phdr_vaddr st,
               phentsize = e_phentsize (header_at d), phnum = e_phnum (header_at d),
               mem_end = align_up 4096 (ld_mem_end st)\<rparr>, ld_mem st))"
proof -
  let ?h = "header_at d" and ?st = "\<lparr>ld_mem = m, ld_phdr_vaddr = 0, ld_mem_end = 0\<rparr>"
  have wf: "elf_header_ok d" "length d < two64" "e_phoff ?h + e_phnum ?h * 56 \<le> length d"
    "\<forall>ph \<in> set (elf_loads d). segment_ok d ph"
    using assms by (auto simp: elf_wf_def)
  have loads: "elf_loads d =
      filter (\<lambda>ph. p_type ph = PT_LOAD) (map (\<lambda>j. phdr_at d (e_phoff ?h + j * 56)) [0..<0 + e_phnum ?h])"
    by (simp add: elf_loads_def elf_phdrs_def)
  have loop: "load_phdrs (e_phnum ?h) 0 d ?h ?st = (None, fold (place d ?h) (elf_loads d) ?st)"
    unfolding loads using wf by (intro load_phdrs_place) (auto simp: Let_def elf_loads_def elf_phdrs_def)
  have "ld_mem_end (fold (place d ?h) (elf_loads d) ?st) \<le> two64 - 4096"
    unfolding place_mem_end using wf(4) by (intro fold_max_bound) (auto simp: segment_ok_def)
  then have "align_down 4096 (wadd64 (ld_mem_end (fold (place d ?h) (elf_loads d) ?st)) 4095) =
      align_up 4096 (ld_mem_end (fold (place d ?h) (elf_loads d) ?st))"
    by (simp add: align_up_def wadd64_small)
  moreover have "take 4 (e_ident ?h) = ELF_MAGIC" "e_ident ?h ! 4 = ELFCLASS64" "e_type ?h = ET_EXEC"
    "e_machine ?h = EM_X86_64" "\<not> length d < 64"
    using wf(1) by (auto simp: elf_header_ok_def header_at_def)
  ultimately show ?thesis unfolding elf_load_def Let_def loop by simp
qed

text \<open>C12 Loading a well-formed executable succeeds and gives exactly its image: every loadable segment has its
  file contents followed by zeroes at its address, no other byte of memory changes, the end reported for
  the heap is the first page boundary after the highest segment, and when the segment that holds the start
  of the program header table holds all of it, the reported address is where the table is in memory.\<close>

theorem elf_load_image:
  assumes "elf_wf d"
  shows "\<exists>info m'. elf_load d m = (Inr info, m') \<and> entry info = e_entry (header_at d) \<and>
    phnum info = e_phnum (header_at d) \<and> phentsize info = e_phentsize (header_at d) \<and>
    (\<forall>ph \<in> set (elf_loads d). \<forall>k < p_memsz ph.
       m' (p_vaddr ph + k) = (if k < p_filesz ph then d ! (p_offset ph + k) else 0)) \<and>
    (\<forall>x. (\<forall>ph \<in> set (elf_loads d). \<not> in_segment ph x) \<longrightarrow> m' x = m x) \<and>
    4096 dvd mem_end info \<and> (\<forall>ph \<in> set (elf_loads d). p_vaddr ph + p_memsz ph \<le> mem_end info) \<and>
    (elf_loads d \<noteq> [] \<longrightarrow> (\<exists>ph \<in> set (elf_loads d). mem_end info < p_vaddr ph + p_memsz ph + 4096)) \<and>
    ((\<exists>ph \<in> set (elf_loads d). holds_phdrs (header_at d) ph \<and> p_vaddr ph \<noteq> 0) \<and>
     (\<forall>ph \<in> set (elf_loads d). holds_phdrs (header_at d) ph \<longrightarrow>
        e_phoff (header_at d) + e_phnum (header_at d) * 56 \<le> p_offset ph + p_filesz ph) \<longrightarrow>
     (\<forall>k < e_phnum (header_at d) * 56. m' (phdr_vaddr info + k) = d ! (e_phoff (header_at d) + k)))"
proof -
  let ?h = "header_at d" and ?st0 = "\<lparr>ld_mem = m, ld_phdr_vaddr = 0, ld_mem_end = 0\<rparr>"
  define st where "st = fold (place d ?h) (elf_loads d) ?st0"
  have dis: "sorted_wrt disjoint_segments (elf_loads d)" and ok: "\<forall>ph \<in> set (elf_loads d). segment_ok d ph"
    using assms by (auto simp: elf_wf_def)
  have seg: "ld_mem st (p_vaddr ph + k) = (if k < p_filesz ph then d ! (p_offset ph + k) else 0)"
    if "ph \<in> set (elf_loads d)" "k < p_memsz ph" for ph k
    unfolding st_def place_mem[OF dis] using find_segment[OF dis that(1), of "p_vaddr ph + k"] that(2)
    by (simp add: in_segment_def segment_byte_def)
  have other: "ld_mem st x = m x" if "\<forall>ph \<in> set (elf_loads d). \<not> in_segment ph x" for x
  proof -
    have "List.find (\<lambda>ph. in_segment ph x) (elf_loads d) = None" using that by (simp add: find_None_iff)
    then show ?thesis unfolding st_def place_mem[OF dis] by simp
  qed
  have me: "ld_mem_end st = fold max (map (\<lambda>ph. p_vaddr ph + p_memsz ph) (elf_loads d)) 0"
    by (simp add: st_def place_mem_end)
  have hi: "p_vaddr ph + p_memsz ph \<le> align_up 4096 (ld_mem_end st)" if "ph \<in> set (elf_loads d)" for ph
  proof -
    have "p_vaddr ph + p_memsz ph \<le> ld_mem_end st" unfolding me using that by (intro fold_max_ge) auto
    also have "\<dots> \<le> align_up 4096 (ld_mem_end st)" by (rule align_up_ge) simp
    finally show ?thesis .
  qed
  have lo: "\<exists>ph \<in> set (elf_loads d). align_up 4096 (ld_mem_end st) < p_vaddr ph + p_memsz ph + 4096" if "elf_loads d \<noteq> []"
  proof -
    have "\<exists>ph \<in> set (elf_loads d). ld_mem_end st \<le> p_vaddr ph + p_memsz ph"
      using fold_max_in[of "map (\<lambda>ph. p_vaddr ph + p_memsz ph) (elf_loads d)" 0] that
      unfolding me by (cases "elf_loads d") force+
    then obtain ph where ph: "ph \<in> set (elf_loads d)" "ld_mem_end st \<le> p_vaddr ph + p_memsz ph" ..
    have "align_up 4096 (ld_mem_end st) < ld_mem_end st + 4096" by (rule align_up_lt) simp
    also have "\<dots> \<le> p_vaddr ph + p_memsz ph + 4096" using ph(2) by simp
    finally show ?thesis using ph(1) by blast
  qed
  have tab: "ld_mem st (ld_phdr_vaddr st + k) = d ! (e_phoff ?h + k)"
    if "\<exists>ph \<in> set (elf_loads d). holds_phdrs ?h ph \<and> p_vaddr ph \<noteq> 0" "k < e_phnum ?h * 56"
      "\<forall>ph \<in> set (elf_loads d). holds_phdrs ?h ph \<longrightarrow> e_phoff ?h + e_phnum ?h * 56 \<le> p_offset ph + p_filesz ph" for k
  proof -
    let ?P = "\<lambda>ph. holds_phdrs ?h ph \<and> p_vaddr ph + (e_phoff ?h - p_offset ph) \<noteq> 0"
    have "List.find ?P (elf_loads d) \<noteq> None" using that(1) unfolding find_None_iff by auto
    then obtain ph where f: "List.find ?P (elf_loads d) = Some ph" by blast
    then have ph: "ph \<in> set (elf_loads d)" "holds_phdrs ?h ph" by (auto simp: find_Some_iff)
    have v: "ld_phdr_vaddr st = p_vaddr ph + (e_phoff ?h - p_offset ph)"
      unfolding st_def place_phdr_vaddr f by simp
    have "e_phoff ?h - p_offset ph + k < p_filesz ph" "p_offset ph \<le> e_phoff ?h" "p_filesz ph \<le> p_memsz ph"
      using that(2,3) ph ok by (auto simp: holds_phdrs_def segment_ok_def)
    then show ?thesis using seg[OF ph(1), of "e_phoff ?h - p_offset ph + k"] v by (simp add: add.assoc)
  qed
  let ?info = "\<lparr>entry = e_entry ?h, phdr_vaddr = ld_phdr_vaddr st, phentsize = e_phentsize ?h,
    phnum = e_phnum ?h, mem_end = align_up 4096 (ld_mem_end st)\<rparr>"
  have load: "elf_load d m = (Inr ?info, ld_mem st)"
    by (simp only: elf_load_place[OF assms] Let_def flip: st_def)
  show ?thesis
  proof (rule exI[of _ ?info], rule exI[of _ "ld_mem st"], intro conjI)
    show "\<forall>ph \<in> set (elf_loads d). \<forall>k < p_memsz ph.
        ld_mem st (p_vaddr ph + k) = (if k < p_filesz ph then d ! (p_offset ph + k) else 0)"
      by (intro ballI allI impI seg)
    show "\<forall>x. (\<forall>ph \<in> set (elf_loads d). \<not> in_segment ph x) \<longrightarrow> ld_mem st x = m x"
      by (intro allI impI other)
  qed (use load hi lo tab in \<open>simp_all only: elf_info.simps align_up_dvd, blast+\<close>)
qed

text \<open>A file with one loadable segment, which maps the whole file at \<open>0x400000\<close> followed by eight zero bytes.\<close>

definition tiny_elf :: "bytes" where
  "tiny_elf =
     [127, 69, 76, 70, 2, 1, 1, 0, 0, 0, 0, 0, 0, 0, 0, 0, 2, 0, 62, 0, 1, 0, 0, 0, 120, 0, 64, 0,
      0, 0, 0, 0, 64, 0, 0, 0, 0, 0, 0, 0, 0, 0, 0, 0, 0, 0, 0, 0, 0, 0, 0, 0, 64, 0, 56, 0,
      1, 0, 0, 0, 0, 0, 0, 0, 1, 0, 0, 0, 5, 0, 0, 0, 0, 0, 0, 0, 0, 0, 0, 0, 0, 0, 64, 0,
      0, 0, 0, 0, 0, 0, 0, 0, 0, 0, 0, 0, 121, 0, 0, 0, 0, 0, 0, 0, 129, 0, 0, 0, 0, 0, 0, 0,
      0, 0, 0, 0, 0, 0, 0, 0, 244]"

lemma tiny_elf_header:
  "length tiny_elf = 121" "e_phnum (header_at tiny_elf) = 1" "e_phoff (header_at tiny_elf) = 64"
  "elf_header_ok tiny_elf"
proof -
  show "length tiny_elf = 121" unfolding tiny_elf_def by simp
  show "e_phnum (header_at tiny_elf) = 1" unfolding tiny_elf_def header_at_def field_def by simp
  show "e_phoff (header_at tiny_elf) = 64" unfolding tiny_elf_def header_at_def field_def by simp
  show "elf_header_ok tiny_elf"
    unfolding tiny_elf_def elf_header_ok_def header_at_def field_def ELF_MAGIC_def ELFCLASS64_def ET_EXEC_def
      EM_X86_64_def by simp
qed

lemma tiny_elf_loads:
  "elf_loads tiny_elf = [\<lparr>p_type = 1, p_flags = 5, p_offset = 0, p_vaddr = 0x400000, p_paddr = 0,
     p_filesz = 121, p_memsz = 129, p_align = 0\<rparr>]"
proof -
  have "elf_phdrs tiny_elf = [phdr_at tiny_elf 64]" by (simp add: elf_phdrs_def tiny_elf_header One_nat_def)
  moreover have "phdr_at tiny_elf 64 = \<lparr>p_type = 1, p_flags = 5, p_offset = 0, p_vaddr = 0x400000, p_paddr = 0,
     p_filesz = 121, p_memsz = 129, p_align = 0\<rparr>"
    unfolding phdr_at_def field_def tiny_elf_def by (simp add: One_nat_def)
  ultimately show ?thesis by (simp add: elf_loads_def PT_LOAD_def)
qed

theorem elf_load_image_witness:
  "\<exists>info m'. elf_load tiny_elf (\<lambda>_. 1) = (Inr info, m') \<and> m' 0x400078 = 0xf4 \<and> m' 0x400079 = 0 \<and>
     m' 0x400081 = 1 \<and> m' (phdr_vaddr info) = 1"
proof -
  have wf: "elf_wf tiny_elf" by (simp add: elf_wf_def tiny_elf_header tiny_elf_loads segment_ok_def)
  have nths: "tiny_elf ! 120 = 0xf4" "tiny_elf ! 64 = 1" unfolding tiny_elf_def by simp_all
  obtain info m' where load: "elf_load tiny_elf (\<lambda>_. 1) = (Inr info, m')"
    and seg: "\<forall>ph \<in> set (elf_loads tiny_elf). \<forall>k < p_memsz ph.
       m' (p_vaddr ph + k) = (if k < p_filesz ph then tiny_elf ! (p_offset ph + k) else 0)"
    and other: "\<forall>x. (\<forall>ph \<in> set (elf_loads tiny_elf). \<not> in_segment ph x) \<longrightarrow> m' x = 1"
    and tab: "(\<exists>ph \<in> set (elf_loads tiny_elf). holds_phdrs (header_at tiny_elf) ph \<and> p_vaddr ph \<noteq> 0) \<and>
     (\<forall>ph \<in> set (elf_loads tiny_elf). holds_phdrs (header_at tiny_elf) ph \<longrightarrow>
        e_phoff (header_at tiny_elf) + e_phnum (header_at tiny_elf) * 56 \<le> p_offset ph + p_filesz ph) \<longrightarrow>
     (\<forall>k < e_phnum (header_at tiny_elf) * 56. m' (phdr_vaddr info + k) = tiny_elf ! (e_phoff (header_at tiny_elf) + k))"
    using elf_load_image[OF wf, of "\<lambda>_. 1"] by blast
  have "\<forall>k < 129. m' (0x400000 + k) = (if k < 121 then tiny_elf ! k else 0)"
    using bspec[OF seg[unfolded tiny_elf_loads], OF list.set_intros(1)] by simp
  from this[rule_format, of 120] this[rule_format, of 121]
  have "m' 0x400078 = 0xf4" "m' 0x400079 = 0" by (simp_all add: nths)
  moreover have "m' 0x400081 = 1" using other[unfolded tiny_elf_loads] by (simp add: in_segment_def)
  moreover have "\<forall>k < 56. m' (phdr_vaddr info + k) = tiny_elf ! (64 + k)"
    using tab[unfolded tiny_elf_loads tiny_elf_header] by (simp add: tiny_elf_header holds_phdrs_def)
  then have "m' (phdr_vaddr info) = 1" using nths by (auto dest: spec[of _ 0])
  ultimately show ?thesis using load by auto
qed

section \<open>The bounds checks wrap around\<close>

text \<open>A program header offset in the last 56 bytes of the address space passes the bounds check, whose sum wraps
  around, and the header is read outside the file.\<close>

theorem elf_phoff_wraps:
  assumes "elf_header_ok d" "length d < two64" "0 < e_phnum (header_at d)"
    and "two64 - 56 \<le> e_phoff (header_at d)" "e_phoff (header_at d) < two64"
  shows "elf_load d m = (Inl Fault, m)"
proof -
  let ?h = "header_at d"
  have len: "64 \<le> length d" using assms(1) by (simp add: elf_header_ok_def)
  have off: "wadd64 (e_phoff ?h) (0 * 56) = e_phoff ?h" using assms(5) by (simp add: wadd64_def)
  have "wadd64 (e_phoff ?h) 56 = e_phoff ?h - (two64 - 56)" using assms(4,5) by (simp add: wadd64_def mod_if)
  then have "\<not> length d < wadd64 (e_phoff ?h) 56" "length d < e_phoff ?h + 56" using assms(2,4,5) len by auto
  moreover obtain n where "e_phnum ?h = Suc n" using assms(3) gr0_implies_Suc by blast
  ultimately have "load_phdrs (e_phnum ?h) 0 d ?h st = (Some Fault, st)" for st
    by (simp only: load_phdrs.simps Let_def off if_False if_True)
  moreover have "take 4 (e_ident ?h) = ELF_MAGIC" "e_ident ?h ! 4 = ELFCLASS64" "e_type ?h = ET_EXEC"
    "e_machine ?h = EM_X86_64" "\<not> length d < 64"
    using assms(1) by (auto simp: elf_header_ok_def header_at_def)
  ultimately show ?thesis unfolding elf_load_def Let_def by simp
qed

end
