(* ===== verification/Acpi.thy ===== *)
theory Acpi
  imports Prelude
begin

text \<open>
  Discovery of CPUs (\<open>acpi.rs\<close>): the scan for the root pointer in the BIOS area, the walk over the root
  tables and the parser of the interrupt controller table, over identity-mapped memory, a function from
  addresses to bytes. The parser's loop advances by lengths it reads from the table, so that it is a
  partial function whose value \<open>None\<close> would be a loop that never ends.
\<close>

section \<open>Data\<close>

definition ACPI_MAX_CPUS :: nat where
  "ACPI_MAX_CPUS = 16"

record cpu_info =
  apic_id :: u8
  is_bsp :: bool
  processor_id :: u8

record ioapic_info =
  io_id :: u8
  io_address :: nat
  gsi_base :: nat

record acpi_info =
  cpus :: "cpu_info list"
  num_cpus :: nat
  ioapic :: "ioapic_info option"
  local_apic_addr :: nat
  pci_ecam_base :: nat
  pci_start_bus :: u8
  pci_end_bus :: u8

text \<open>\<open>slice::from_raw_parts\<close> and a load of a little-endian integer of \<open>k\<close> bytes.\<close>

definition mem_slice :: "(nat \<Rightarrow> u8) \<Rightarrow> nat \<Rightarrow> nat \<Rightarrow> bytes" where
  "mem_slice m a n = map m [a..<a + n]"

definition mem_load :: "(nat \<Rightarrow> u8) \<Rightarrow> nat \<Rightarrow> nat \<Rightarrow> nat" where
  "mem_load m k a = unle (mem_slice m a k)"

section \<open>Root pointer and root tables\<close>

definition RSDP_SIGNATURE :: bytes where
  "RSDP_SIGNATURE = str ''RSD PTR ''"

function find_rsdp_from :: "(nat \<Rightarrow> u8) \<Rightarrow> nat \<Rightarrow> nat option" where
  "find_rsdp_from m addr =
     (if addr < 0x100000 then
        if mem_slice m addr 8 = RSDP_SIGNATURE \<and> fold (\<lambda>b a. a + b) (mem_slice m addr 20) 0 = 0
        then Some addr
        else find_rsdp_from m (addr + 16)
      else None)"
  by pat_completeness auto
termination
  by (relation "measure (\<lambda>(m, addr). 0x100000 - addr)") auto

declare find_rsdp_from.simps [simp del]

definition find_rsdp :: "(nat \<Rightarrow> u8) \<Rightarrow> nat option" where
  "find_rsdp m = find_rsdp_from m 0xE0000"

text \<open>The loops over the entries of a root table: \<open>n\<close> entries are left, the next one is entry \<open>i\<close>.\<close>

primrec sdt_entries :: "nat \<Rightarrow> nat \<Rightarrow> (nat \<Rightarrow> u8) \<Rightarrow> nat \<Rightarrow> bytes \<Rightarrow> nat \<Rightarrow> nat option" where
  "sdt_entries 0 i m sdt target entry_size = None"
| "sdt_entries (Suc n) i m sdt target entry_size =
     (let entry_off = 36 + i * entry_size;
          entry_addr = (if entry_size = 4 then mem_load m 4 (sdt + entry_off) else mem_load m 8 (sdt + entry_off))
      in if mem_slice m entry_addr 4 = target then Some entry_addr
         else sdt_entries n (i + 1) m sdt target entry_size)"

definition find_madt :: "(nat \<Rightarrow> u8) \<Rightarrow> nat \<Rightarrow> nat option" where
  "find_madt m rsdt_addr =
     (if mem_slice m rsdt_addr 4 \<noteq> str ''RSDT'' then None
      else
        let len = mem_load m 4 (rsdt_addr + 4); num_entries = wsub64 len 36 div 4
        in sdt_entries num_entries 0 m rsdt_addr (str ''APIC'') 4)"

definition find_table_in_sdt :: "(nat \<Rightarrow> u8) \<Rightarrow> nat \<Rightarrow> bytes \<Rightarrow> bytes \<Rightarrow> nat \<Rightarrow> nat option" where
  "find_table_in_sdt m sdt_addr expected_root_sig target entry_size =
     (if mem_slice m sdt_addr 4 \<noteq> expected_root_sig then None
      else
        let len = mem_load m 4 (sdt_addr + 4)
        in if len \<le> 36 then None
           else sdt_entries ((len - 36) div entry_size) 0 m sdt_addr target entry_size)"

definition find_mcfg :: "(nat \<Rightarrow> u8) \<Rightarrow> nat \<Rightarrow> (nat \<times> u8 \<times> u8) option" where
  "find_mcfg m rsdp_addr =
     (let revision = m (rsdp_addr + 15);
          rsdt_addr = mem_load m 4 (rsdp_addr + 16);
          from_rsdt = find_table_in_sdt m rsdt_addr (str ''RSDT'') (str ''MCFG'') 4;
          from_xsdt =
            (if 2 \<le> revision
             then find_table_in_sdt m (mem_load m 8 (rsdp_addr + 24)) (str ''XSDT'') (str ''MCFG'') 8
             else None)
      in case (case from_rsdt of Some a \<Rightarrow> Some a | None \<Rightarrow> from_xsdt) of
           None \<Rightarrow> None
         | Some mcfg_addr \<Rightarrow> Some (mem_load m 8 (mcfg_addr + 44), m (mcfg_addr + 54), m (mcfg_addr + 55)))"

section \<open>Interrupt controller table\<close>

definition acpi_default :: acpi_info where
  "acpi_default =
     \<lparr>cpus = replicate ACPI_MAX_CPUS \<lparr>apic_id = 0, is_bsp = False, processor_id = 0\<rparr>, num_cpus = 0,
      ioapic = None, local_apic_addr = 0xFEE00000, pci_ecam_base = 0xB0000000, pci_start_bus = 0,
      pci_end_bus = 255\<rparr>"

definition madt_step :: "(nat \<Rightarrow> u8) \<Rightarrow> nat \<Rightarrow> nat \<Rightarrow> nat \<Rightarrow> acpi_info \<Rightarrow> acpi_info" where
  "madt_step m madt off entry_len info =
     (let entry_type = m (madt + off)
      in if entry_type = 0 then
           if 8 \<le> entry_len \<and> num_cpus info < ACPI_MAX_CPUS then
             let flags = of_nat (mem_load m 4 (madt + off + 4)) :: u32
             in if flags AND 1 \<noteq> 0 then
                  info\<lparr>cpus := (cpus info)[num_cpus info :=
                         \<lparr>apic_id = m (madt + off + 3), is_bsp = (num_cpus info = 0),
                          processor_id = m (madt + off + 2)\<rparr>],
                       num_cpus := num_cpus info + 1\<rparr>
                else info
           else info
         else if entry_type = 1 then
           if 12 \<le> entry_len then
             info\<lparr>ioapic := Some \<lparr>io_id = m (madt + off + 2), io_address = mem_load m 4 (madt + off + 4),
                                  gsi_base = mem_load m 4 (madt + off + 8)\<rparr>\<rparr>
           else info
         else info)"

partial_function (option) madt_loop ::
  "(nat \<Rightarrow> u8) \<Rightarrow> nat \<Rightarrow> nat \<Rightarrow> nat \<Rightarrow> acpi_info \<Rightarrow> acpi_info option" where
  "madt_loop m madt len off info =
     (if off + 2 \<le> len then
        let entry_len = unat (m (madt + off + 1))
        in if entry_len = 0 then Some info
           else madt_loop m madt len (off + entry_len) (madt_step m madt off entry_len info)
      else Some info)"

definition parse_madt :: "(nat \<Rightarrow> u8) \<Rightarrow> nat \<Rightarrow> acpi_info option" where
  "parse_madt m madt_addr =
     (let len = mem_load m 4 (madt_addr + 4)
      in madt_loop m madt_addr len 44
           (acpi_default\<lparr>local_apic_addr := mem_load m 4 (madt_addr + 36)\<rparr>))"

text \<open>The outer option tells whether the code returns, the inner one is its result.\<close>

definition discover_cpus :: "(nat \<Rightarrow> u8) \<Rightarrow> acpi_info option option" where
  "discover_cpus m =
     (case find_rsdp m of
        None \<Rightarrow> Some None
      | Some rsdp_addr \<Rightarrow>
          (case find_madt m (mem_load m 4 (rsdp_addr + 16)) of
             None \<Rightarrow> Some None
           | Some madt_addr \<Rightarrow>
               (case parse_madt m madt_addr of
                  None \<Rightarrow> None
                | Some info \<Rightarrow>
                    Some (Some
                      (case find_mcfg m rsdp_addr of
                         Some (base, start_bus, end_bus) \<Rightarrow>
                           info\<lparr>pci_ecam_base := base, pci_start_bus := start_bus, pci_end_bus := end_bus\<rparr>
                       | None \<Rightarrow> info)))))"

section \<open>The parser always returns\<close>

definition cpus_ok :: "acpi_info \<Rightarrow> bool" where
  "cpus_ok info \<longleftrightarrow>
     length (cpus info) = ACPI_MAX_CPUS \<and> num_cpus info \<le> ACPI_MAX_CPUS \<and>
     (\<forall>i < num_cpus info. is_bsp (cpus info ! i) \<longleftrightarrow> i = 0)"

lemma madt_step_ok: "cpus_ok info \<Longrightarrow> cpus_ok (madt_step m madt off n info)"
  by (auto simp: cpus_ok_def madt_step_def Let_def nth_list_update less_Suc_eq)

lemma madt_loop_returns: "cpus_ok info \<Longrightarrow> \<exists>info'. madt_loop m madt len off info = Some info' \<and> cpus_ok info'"
proof (induction "len - off" arbitrary: off info rule: less_induct)
  case less
  let ?n = "unat (m (madt + off + 1))"
  show ?case
  proof (cases "off + 2 \<le> len \<and> ?n \<noteq> 0")
    case True
    then have "len - (off + ?n) < len - off" by linarith
    from less.hyps[OF this madt_step_ok[OF less.prems]] show ?thesis using True by (subst madt_loop.simps) (simp add: Let_def)
  next
    case False
    then show ?thesis using less.prems by (subst madt_loop.simps) (auto simp: Let_def)
  qed
qed

lemma cpus_ok_default: "cpus_ok (acpi_default\<lparr>local_apic_addr := a\<rparr>)"
  by (simp add: cpus_ok_def acpi_default_def)

text \<open>C14 The discovery of CPUs always ends, for any contents of memory: the loop over the interrupt controller
  table makes progress on every entry or stops. What it finds fits the table of CPUs, and exactly the first
  CPU is the boot processor.\<close>

theorem discover_cpus_returns:
  "\<exists>r. discover_cpus m = Some r \<and>
     (case r of None \<Rightarrow> True
      | Some info \<Rightarrow> num_cpus info \<le> length (cpus info) \<and> length (cpus info) = ACPI_MAX_CPUS \<and>
          map is_bsp (take (num_cpus info) (cpus info)) = map (\<lambda>i. i = 0) [0..<num_cpus info])"
proof (cases "find_rsdp m")
  case (Some rsdp)
  show ?thesis
  proof (cases "find_madt m (mem_load m 4 (rsdp + 16))")
    case (Some madt)
    obtain info where info: "parse_madt m madt = Some info" "cpus_ok info"
      unfolding parse_madt_def Let_def using madt_loop_returns[OF cpus_ok_default] by blast
    let ?r = "case find_mcfg m rsdp of
        Some (base, b, e) \<Rightarrow> info\<lparr>pci_ecam_base := base, pci_start_bus := b, pci_end_bus := e\<rparr> | None \<Rightarrow> info"
    have "discover_cpus m = Some (Some ?r)" using \<open>find_rsdp m = Some rsdp\<close> Some info(1) by (simp add: discover_cpus_def)
    moreover have "cpus ?r = cpus info" "num_cpus ?r = num_cpus info" by (simp_all split: option.split prod.split)
    moreover have "map is_bsp (take (num_cpus info) (cpus info)) = map (\<lambda>i. i = 0) [0..<num_cpus info]"
      using info(2) by (intro nth_equalityI) (auto simp: cpus_ok_def)
    ultimately show ?thesis using info(2) by (simp add: cpus_ok_def)
  qed (simp add: discover_cpus_def \<open>find_rsdp m = Some rsdp\<close>)
qed (simp add: discover_cpus_def)

section \<open>Encoding and parsing\<close>

text \<open>The entries of the table as the specification lays them out; \<open>Other_entry\<close> stands for the types the
  parser skips.\<close>

datatype madt_entry =
    Local_apic u8 u8 u32
  | Io_apic u8 nat nat
  | Other_entry u8 bytes

fun entry_bytes :: "madt_entry \<Rightarrow> bytes" where
  "entry_bytes (Local_apic processor apic flags) = [0, 8, processor, apic] @ le 4 (unat flags)"
| "entry_bytes (Io_apic i addr gsi) = [1, 12, i, 0] @ le 4 addr @ le 4 gsi"
| "entry_bytes (Other_entry t payload) = [t, of_nat (2 + length payload)] @ payload"

fun entry_ok :: "madt_entry \<Rightarrow> bool" where
  "entry_ok (Local_apic processor apic flags) \<longleftrightarrow> True"
| "entry_ok (Io_apic i addr gsi) \<longleftrightarrow> addr < 2 ^ 32 \<and> gsi < 2 ^ 32"
| "entry_ok (Other_entry t payload) \<longleftrightarrow> t \<noteq> 0 \<and> t \<noteq> 1 \<and> length payload < 254"

definition madt_bytes :: "bytes \<Rightarrow> nat \<Rightarrow> bytes \<Rightarrow> madt_entry list \<Rightarrow> bytes" where
  "madt_bytes hdr lapic flags es =
     (let body = concat (map entry_bytes es)
      in str ''APIC'' @ le 4 (44 + length body) @ hdr @ le 4 lapic @ flags @ body)"

fun enabled_cpu :: "madt_entry \<Rightarrow> (u8 \<times> u8) list" where
  "enabled_cpu (Local_apic processor apic flags) = (if flags AND 1 \<noteq> 0 then [(processor, apic)] else [])"
| "enabled_cpu _ = []"

fun ioapic_of :: "madt_entry \<Rightarrow> ioapic_info list" where
  "ioapic_of (Io_apic i addr gsi) = [\<lparr>io_id = i, io_address = addr, gsi_base = gsi\<rparr>]"
| "ioapic_of _ = []"

definition mem_holds :: "(nat \<Rightarrow> u8) \<Rightarrow> nat \<Rightarrow> bytes \<Rightarrow> bool" where
  "mem_holds m a bs \<longleftrightarrow> mem_slice m a (length bs) = bs"

lemma mem_slice_append: "mem_slice m a (n + k) = mem_slice m a n @ mem_slice m (a + n) k"
  unfolding mem_slice_def using upt_add_eq_append[of a "a + n" k] by (simp add: add.assoc)

lemma length_mem_slice [simp]: "length (mem_slice m a n) = n"
  by (simp add: mem_slice_def)

lemma mem_holds_append: "mem_holds m a (xs @ ys) \<longleftrightarrow> mem_holds m a xs \<and> mem_holds m (a + length xs) ys"
  by (auto simp: mem_holds_def mem_slice_append append_eq_append_conv)

lemma mem_holds_Cons: "mem_holds m a (x # xs) \<longleftrightarrow> m a = x \<and> mem_holds m (a + 1) xs"
  by (auto simp: mem_holds_def mem_slice_def upt_conv_Cons One_nat_def simp del: upt_Suc)

lemma mem_holds_prefix:
  "mem_holds m a ([b0, b1, b2, b3] @ xs) \<longleftrightarrow>
     m a = b0 \<and> m (a + 1) = b1 \<and> m (a + 2) = b2 \<and> m (a + 3) = b3 \<and> mem_holds m (a + 4) xs"
  "mem_holds m a ([b0, b1] @ xs) \<longleftrightarrow> m a = b0 \<and> m (a + 1) = b1 \<and> mem_holds m (a + 2) xs"
  by (simp_all add: mem_holds_Cons numeral_eq_Suc One_nat_def)

lemma mem_holds_Nil [simp]: "mem_holds m a []"
  by (simp add: mem_holds_def mem_slice_def)

lemma mem_load_le: "mem_holds m a (le k v) \<Longrightarrow> v < 256 ^ k \<Longrightarrow> mem_load m k a = v"
  by (simp add: mem_holds_def mem_load_def)

lemma length_entry: "entry_ok e \<Longrightarrow> 2 \<le> length (entry_bytes e) \<and> length (entry_bytes e) < 256"
  by (cases e) auto

text \<open>What an entry does to the result.\<close>

definition add_entry :: "madt_entry \<Rightarrow> acpi_info \<Rightarrow> acpi_info" where
  "add_entry e info =
     (let info = fold (\<lambda>(processor, apic) info.
            if num_cpus info < ACPI_MAX_CPUS
            then info\<lparr>cpus := (cpus info)[num_cpus info :=
                   \<lparr>apic_id = apic, is_bsp = (num_cpus info = 0), processor_id = processor\<rparr>],
                 num_cpus := num_cpus info + 1\<rparr>
            else info) (enabled_cpu e) info
      in fold (\<lambda>io info. info\<lparr>ioapic := Some io\<rparr>) (ioapic_of e) info)"

lemma madt_step_entry:
  assumes "mem_holds m (madt + off) (entry_bytes e)" "entry_ok e"
  shows "m (madt + off + 1) = of_nat (length (entry_bytes e)) \<and>
    madt_step m madt off (length (entry_bytes e)) info = add_entry e info"
proof (cases e)
  case (Local_apic processor apic flags)
  let ?a = "madt + off"
  have h: "m ?a = 0" "m (?a + 1) = 8" "m (?a + 2) = processor" "m (?a + 3) = apic" "mem_holds m (?a + 4) (le 4 (unat flags))"
    using assms(1) unfolding Local_apic entry_bytes.simps mem_holds_prefix by blast+
  have "mem_load m 4 (?a + 4) = unat flags"
    using h(5) unsigned_less[of flags] by (intro mem_load_le) simp_all
  then show ?thesis using h(1-4) by (simp add: Local_apic madt_step_def add_entry_def)
next
  case (Io_apic i addr gsi)
  let ?a = "madt + off"
  have h: "m ?a = 1" "m (?a + 1) = 12" "m (?a + 2) = i" "mem_holds m (?a + 4) (le 4 addr)" "mem_holds m (?a + 4 + 4) (le 4 gsi)"
    using assms(1) unfolding Io_apic entry_bytes.simps mem_holds_prefix mem_holds_append[of _ _ "le 4 addr"] length_le by blast+
  have "mem_holds m (?a + 8) (le 4 gsi)" using h(5) by (simp add: add.assoc)
  then have "mem_load m 4 (?a + 4) = addr" "mem_load m 4 (?a + 8) = gsi"
    using assms(2) h(4) Io_apic by (auto intro!: mem_load_le)
  then show ?thesis using h(1-3) by (simp add: Io_apic madt_step_def add_entry_def)
next
  case (Other_entry t payload)
  let ?a = "madt + off"
  have "m ?a = t" "m (?a + 1) = of_nat (2 + length payload)"
    using assms(1) unfolding Other_entry entry_bytes.simps mem_holds_prefix by blast+
  then show ?thesis using assms(2) by (simp add: Other_entry madt_step_def add_entry_def)
qed

lemma madt_loop_entries:
  assumes "mem_holds m (madt + off) (concat (map entry_bytes es))" "\<forall>e \<in> set es. entry_ok e"
    and "len = off + length (concat (map entry_bytes es))"
  shows "madt_loop m madt len off info = Some (fold add_entry es info)"
  using assms
proof (induction es arbitrary: off info)
  case Nil
  then show ?case by (subst madt_loop.simps) simp
next
  case (Cons e es)
  let ?n = "length (entry_bytes e)"
  have e: "mem_holds m (madt + off) (entry_bytes e)" and es: "mem_holds m (madt + (off + ?n)) (concat (map entry_bytes es))"
    using Cons.prems(1) by (simp_all add: mem_holds_append add.assoc)
  have ok: "entry_ok e" using Cons.prems(2) by simp
  have n: "unat (m (madt + off + 1)) = ?n"
    using madt_step_entry[OF e ok] length_entry[OF ok] by (simp add: unat_of_nat)
  have "madt_loop m madt len off info = madt_loop m madt len (off + ?n) (madt_step m madt off ?n info)"
  proof -
    have "off + 2 \<le> len" "?n \<noteq> 0" using length_entry[OF ok] Cons.prems(3) by auto
    then show ?thesis using n by (subst madt_loop.simps) (simp add: Let_def)
  qed
  also have "\<dots> = Some (fold add_entry es (add_entry e info))"
    unfolding madt_step_entry[OF e ok, THEN conjunct2] using es Cons.prems by (intro Cons.IH) simp_all
  finally show ?case by simp
qed

text \<open>The table of CPUs for the enabled processors of a table.\<close>

definition cpu_list :: "(u8 \<times> u8) list \<Rightarrow> cpu_info list" where
  "cpu_list cs =
     map (\<lambda>(i, processor, apic). \<lparr>apic_id = apic, is_bsp = (i = 0), processor_id = processor\<rparr>)
       (enumerate 0 (take ACPI_MAX_CPUS cs))"

definition cpus_repr :: "acpi_info \<Rightarrow> (u8 \<times> u8) list \<Rightarrow> bool" where
  "cpus_repr info cs \<longleftrightarrow>
     num_cpus info = min ACPI_MAX_CPUS (length cs) \<and> length (cpus info) = ACPI_MAX_CPUS \<and>
     take (num_cpus info) (cpus info) = cpu_list cs"

lemma cpus_repr_full: "ACPI_MAX_CPUS \<le> length cs \<Longrightarrow> cpus_repr info (cs @ ds) \<longleftrightarrow> cpus_repr info cs"
  by (simp add: cpus_repr_def cpu_list_def min_def)

lemma cpus_repr_add:
  assumes "cpus_repr info cs" "length cs < ACPI_MAX_CPUS"
  shows "cpus_repr (info\<lparr>cpus := (cpus info)[num_cpus info :=
      \<lparr>apic_id = a, is_bsp = (num_cpus info = 0), processor_id = p\<rparr>], num_cpus := num_cpus info + 1\<rparr>) (cs @ [(p, a)])"
proof -
  have n: "num_cpus info = length cs" "length (cpus info) = ACPI_MAX_CPUS" "take (length cs) (cpus info) = cpu_list cs"
    using assms by (auto simp: cpus_repr_def)
  have "cpu_list (cs @ [(p, a)]) = cpu_list cs @ [\<lparr>apic_id = a, is_bsp = (length cs = 0), processor_id = p\<rparr>]"
    using assms(2) by (simp add: cpu_list_def enumerate_append_eq)
  moreover have "take (length cs + 1) ((cpus info)[length cs := c]) = take (length cs) (cpus info) @ [c]" for c
    using assms(2) n(2) by (simp add: take_Suc_conv_app_nth One_nat_def)
  ultimately show ?thesis using n assms(2) by (simp add: cpus_repr_def)
qed

lemma cpus_repr_entry: "cpus_repr info cs \<Longrightarrow> cpus_repr (add_entry e info) (cs @ enabled_cpu e)"
proof (cases e)
  case (Local_apic p a flags)
  assume r: "cpus_repr info cs"
  show ?thesis
  proof (cases "length cs < ACPI_MAX_CPUS")
    case True
    moreover from this have "num_cpus info < ACPI_MAX_CPUS" using r by (simp add: cpus_repr_def)
    ultimately show ?thesis using cpus_repr_add[OF r True, of a p] r by (simp add: Local_apic add_entry_def)
  next
    case False
    then have "\<not> num_cpus info < ACPI_MAX_CPUS" using r by (simp add: cpus_repr_def)
    then show ?thesis using cpus_repr_full[of cs info "[(p, a)]"] False r by (simp add: Local_apic add_entry_def)
  qed
qed (auto simp: add_entry_def cpus_repr_def)

lemma cpus_repr_entries:
  "cpus_repr info cs \<Longrightarrow> cpus_repr (fold add_entry es info) (cs @ concat (map enabled_cpu es))"
proof (induction es arbitrary: info cs)
  case (Cons e es)
  from Cons.IH[OF cpus_repr_entry[OF Cons.prems, of e]] show ?case by simp
qed simp

lemma add_entry_ioapic:
  "ioapic (add_entry e info) = (if ioapic_of e = [] then ioapic info else Some (last (ioapic_of e)))"
  "local_apic_addr (add_entry e info) = local_apic_addr info"
  by (cases e; simp add: add_entry_def)+

lemma entries_ioapic:
  "ioapic (fold add_entry es info) =
     (let ios = concat (map ioapic_of es) in if ios = [] then ioapic info else Some (last ios))"
  "local_apic_addr (fold add_entry es info) = local_apic_addr info"
  by (induction es arbitrary: info) (auto simp: add_entry_ioapic Let_def)

text \<open>C26 Parsing is the inverse of the encoding: from a table laid out as the specification says the parser
  takes exactly the first 16 enabled processors in order, the last I/O interrupt controller and the address
  of the local one, and skips every other entry.\<close>

theorem parse_madt_roundtrip:
  assumes "mem_holds m a (madt_bytes hdr lapic flags es)" "length hdr = 28" "length flags = 4"
    and "\<forall>e \<in> set es. entry_ok e" "lapic < 2 ^ 32" "length (madt_bytes hdr lapic flags es) < 2 ^ 32"
  shows "\<exists>info. parse_madt m a = Some info \<and>
    take (num_cpus info) (cpus info) = cpu_list (concat (map enabled_cpu es)) \<and>
    num_cpus info = min ACPI_MAX_CPUS (length (concat (map enabled_cpu es))) \<and>
    ioapic info = (let ios = concat (map ioapic_of es) in if ios = [] then None else Some (last ios)) \<and>
    local_apic_addr info = lapic"
proof -
  let ?body = "concat (map entry_bytes es)"
  let ?info = "acpi_default\<lparr>local_apic_addr := lapic\<rparr>"
  have "length (str ''APIC'') = 4" by (simp add: str_def)
  then have h: "mem_holds m (a + 4) (le 4 (44 + length ?body))" "mem_holds m (a + 36) (le 4 lapic)"
    "mem_holds m (a + 44) ?body"
    using assms(1-3) by (simp_all add: madt_bytes_def Let_def mem_holds_append add.assoc)
  have "length (madt_bytes hdr lapic flags es) = 44 + length ?body"
    using assms(2,3) by (simp add: madt_bytes_def Let_def str_def)
  then have l: "mem_load m 4 (a + 4) = 44 + length ?body" "mem_load m 4 (a + 36) = lapic"
    using h(1,2) assms(5,6) by (auto intro!: mem_load_le)
  have "parse_madt m a = Some (fold add_entry es ?info)"
    unfolding parse_madt_def l Let_def by (rule madt_loop_entries) (use h(3) assms(4) in simp_all)
  moreover have "cpus_repr ?info []" by (simp add: cpus_repr_def acpi_default_def cpu_list_def)
  from cpus_repr_entries[OF this, of es]
  have "cpus_repr (fold add_entry es ?info) (concat (map enabled_cpu es))" by simp
  moreover have "ioapic ?info = None" by (simp add: acpi_default_def)
  ultimately show ?thesis by (auto simp: cpus_repr_def entries_ioapic)
qed

text \<open>A table with a disabled and two enabled processors, an interrupt override and an I/O interrupt
  controller.\<close>

definition sample_entries :: "madt_entry list" where
  "sample_entries =
     [Local_apic 0 0 1, Local_apic 1 4 0, Other_entry 2 (replicate 8 0), Io_apic 2 0xFEC00000 0, Local_apic 2 6 1]"

theorem parse_madt_roundtrip_witness:
  "\<exists>m info. parse_madt m 0 = Some info \<and> num_cpus info = 2 \<and>
     take 2 (cpus info) = [\<lparr>apic_id = 0, is_bsp = True, processor_id = 0\<rparr>, \<lparr>apic_id = 6, is_bsp = False, processor_id = 2\<rparr>] \<and>
     ioapic info = Some \<lparr>io_id = 2, io_address = 0xFEC00000, gsi_base = 0\<rparr>"
proof -
  let ?bs = "madt_bytes (replicate 28 0) 0xFEE00000 (replicate 4 0) sample_entries"
  let ?m = "\<lambda>x. if x < length ?bs then ?bs ! x else 0"
  have h: "mem_holds ?m 0 ?bs" unfolding mem_holds_def mem_slice_def by (rule nth_equalityI) simp_all
  have ok: "\<forall>e \<in> set sample_entries. entry_ok e" by (simp add: sample_entries_def)
  have len: "length ?bs < 2 ^ 32" by (simp add: madt_bytes_def sample_entries_def str_def)
  have cpus: "concat (map enabled_cpu sample_entries) = [(0, 0), (2, 6)]" by (simp add: sample_entries_def)
  have ios: "concat (map ioapic_of sample_entries) = [\<lparr>io_id = 2, io_address = 0xFEC00000, gsi_base = 0\<rparr>]"
    by (simp add: sample_entries_def)
  have "\<exists>info. parse_madt ?m 0 = Some info \<and> take (num_cpus info) (cpus info) = cpu_list [(0, 0), (2, 6)] \<and>
      num_cpus info = min ACPI_MAX_CPUS (length [(0 :: u8, 0 :: u8), (2, 6)]) \<and>
      ioapic info = Some \<lparr>io_id = 2, io_address = 0xFEC00000, gsi_base = 0\<rparr>"
    using parse_madt_roundtrip[OF h _ _ ok _ len] unfolding cpus ios by auto
  moreover have "cpu_list [(0, 0), (2, 6)] =
      [\<lparr>apic_id = 0, is_bsp = True, processor_id = 0\<rparr>, \<lparr>apic_id = 6, is_bsp = False, processor_id = 2\<rparr>]"
    by (simp add: cpu_list_def ACPI_MAX_CPUS_def)
  moreover have "min ACPI_MAX_CPUS (length [(0 :: u8, 0 :: u8), (2, 6)]) = 2" by (simp add: ACPI_MAX_CPUS_def)
  ultimately have "\<exists>info. parse_madt ?m 0 = Some info \<and> num_cpus info = 2 \<and>
     take 2 (cpus info) = [\<lparr>apic_id = 0, is_bsp = True, processor_id = 0\<rparr>, \<lparr>apic_id = 6, is_bsp = False, processor_id = 2\<rparr>] \<and>
     ioapic info = Some \<lparr>io_id = 2, io_address = 0xFEC00000, gsi_base = 0\<rparr>" by metis
  then show ?thesis by (rule exI[of _ ?m])
qed

section \<open>A short root table\<close>

text \<open>Unlike \<open>find_table_in_sdt\<close>, the search for the interrupt controller table does not check that the root table is
  longer than its header: for a shorter one the number of entries wraps around and the search leaves the
  table.\<close>

theorem find_madt_short_table:
  assumes "mem_slice m a 4 = str ''RSDT''" "mem_load m 4 (a + 4) < 36"
  shows "find_madt m a = sdt_entries ((two64 - 36 + mem_load m 4 (a + 4)) div 4) 0 m a (str ''APIC'') 4 \<and>
    find_table_in_sdt m a (str ''RSDT'') target 4 = None"
  using assms by (simp add: find_madt_def find_table_in_sdt_def wsub64_def Let_def add.commute)

end
