(* ===== verification/Virtq.thy ===== *)
theory Virtq
  imports Prelude
begin

text \<open>
  Virtqueues (\<open>virtio-drivers-patched/src/queue.rs\<close>), built with the \<open>alloc\<close> feature as the kernel builds
  them: the descriptor table with its free list, the available and the used ring, direct and indirect
  chains, and the recycling of descriptors. \<open>u16\<close> counters are naturals with the wrap-around written out.

  The hardware abstraction layer is an interface of the drivers: \<open>share log buf dir\<close> is the address its
  \<open>share\<close> returns when the calls in \<open>log\<close> were made before, and every call is recorded in the field \<open>hal\<close>.
  The used ring is written by the device, at any time and with any contents.
\<close>

section \<open>Descriptors\<close>

datatype direction = DriverToDevice | DeviceToDriver | Both

record buf =
  b_addr :: nat
  b_len :: nat

type_synonym flags = "16 word"

definition F_NEXT :: flags where
  "F_NEXT = 1"

definition F_WRITE :: flags where
  "F_WRITE = 2"

definition F_INDIRECT :: flags where
  "F_INDIRECT = 4"

definition contains :: "flags \<Rightarrow> flags \<Rightarrow> bool" where
  "contains fl f \<longleftrightarrow> fl AND f = f"

record descriptor =
  d_addr :: nat
  d_len :: nat
  d_flags :: flags
  d_next :: nat

datatype hal_call = Share buf direction | Unshare nat buf direction

type_synonym share_fn = "hal_call list \<Rightarrow> buf \<Rightarrow> direction \<Rightarrow> nat"

definition set_buf :: "share_fn \<Rightarrow> hal_call list \<Rightarrow> buf \<Rightarrow> direction \<Rightarrow> flags \<Rightarrow> descriptor \<Rightarrow> descriptor outcome" where
  "set_buf share log b dir extra_flags d =
     (if 4294967296 \<le> b_len b then Panic
      else
        case dir of
          Both \<Rightarrow> Panic
        | DeviceToDriver \<Rightarrow>
            Done (d\<lparr>d_addr := share log b dir, d_len := b_len b, d_flags := extra_flags OR F_WRITE\<rparr>)
        | DriverToDevice \<Rightarrow>
            Done (d\<lparr>d_addr := share log b dir, d_len := b_len b, d_flags := extra_flags OR 0\<rparr>))"

definition unset_buf :: "descriptor \<Rightarrow> descriptor" where
  "unset_buf d = d\<lparr>d_addr := 0, d_len := 0\<rparr>"

definition desc_next :: "descriptor \<Rightarrow> nat option" where
  "desc_next d = (if contains (d_flags d) F_NEXT then Some (d_next d) else None)"

definition zero_desc :: descriptor where
  "zero_desc = \<lparr>d_addr = 0, d_len = 0, d_flags = 0, d_next = 0\<rparr>"

definition remove_next :: "descriptor \<Rightarrow> descriptor" where
  "remove_next d = d\<lparr>d_flags := d_flags d AND NOT F_NEXT\<rparr>"

text \<open>The order in which \<open>InputOutputIter\<close> yields the buffers.\<close>

definition io_list :: "buf list \<Rightarrow> buf list \<Rightarrow> (buf \<times> direction) list" where
  "io_list inputs outputs = map (\<lambda>b. (b, DriverToDevice)) inputs @ map (\<lambda>b. (b, DeviceToDriver)) outputs"

section \<open>Queues\<close>

text \<open>The errors of the drivers; the one of the socket device is left out with that device.\<close>

datatype vq_error =
    QueueFull
  | NotReady
  | WrongToken
  | AlreadyUsed
  | InvalidParam
  | DmaError
  | IoError
  | Unsupported
  | ConfigSpaceTooSmall
  | ConfigSpaceMissing

text \<open>An indirect list is kept with the address of its allocation.\<close>

record virtq =
  vq_size :: nat
  desc :: "descriptor list"
  avail_flags :: nat
  avail_ring_idx :: nat
  avail_ring :: "nat list"
  avail_used_event :: nat
  used_flags :: nat
  used_ring_idx :: nat
  used_ring :: "(nat \<times> nat) list"
  used_avail_event :: nat
  queue_idx :: nat
  num_used :: nat
  free_head :: nat
  desc_shadow :: "descriptor list"
  avail_idx :: nat
  last_used_idx :: nat
  event_idx :: bool
  indirect :: bool
  indirect_lists :: "(nat \<times> descriptor list) option list"
  hal :: "hal_call list"

definition inc16 :: "nat \<Rightarrow> nat" where
  "inc16 n = (n + 1) mod 65536"

definition dec16 :: "nat \<Rightarrow> nat" where
  "dec16 n = (n + 65535) mod 65536"

definition write_desc :: "nat \<Rightarrow> virtq \<Rightarrow> virtq" where
  "write_desc index q = q\<lparr>desc := (desc q)[index := desc_shadow q ! index]\<rparr>"

fun add_direct_loop :: "share_fn \<Rightarrow> (buf \<times> direction) list \<Rightarrow> nat \<Rightarrow> virtq \<Rightarrow> (nat \<times> virtq) outcome" where
  "add_direct_loop share [] lst q = Done (lst, q)"
| "add_direct_loop share ((b, dir) # bs) lst q =
     (if b_len b = 0 \<or> \<not> free_head q < vq_size q then Panic
      else
        case set_buf share (hal q) b dir F_NEXT (desc_shadow q ! free_head q) of
          Panic \<Rightarrow> Panic
        | Done d \<Rightarrow>
            let lst = free_head q;
                q = q\<lparr>desc_shadow := (desc_shadow q)[lst := d], free_head := d_next d, hal := hal q @ [Share b dir]\<rparr>
            in add_direct_loop share bs lst (write_desc lst q))"

definition add_direct :: "share_fn \<Rightarrow> buf list \<Rightarrow> buf list \<Rightarrow> virtq \<Rightarrow> (nat \<times> virtq) outcome" where
  "add_direct share inputs outputs q =
     (let head = free_head q
      in case add_direct_loop share (io_list inputs outputs) (free_head q) q of
           Panic \<Rightarrow> Panic
         | Done (lst, q) \<Rightarrow>
             if \<not> lst < vq_size q then Panic
             else
               let q = q\<lparr>desc_shadow := (desc_shadow q)[lst := remove_next (desc_shadow q ! lst)]\<rparr>;
                   q = write_desc lst q
               in Done (head, q\<lparr>num_used := (num_used q + (length inputs + length outputs) mod 65536) mod 65536\<rparr>))"

fun indirect_fill :: "share_fn \<Rightarrow> nat \<Rightarrow> (buf \<times> direction) list \<Rightarrow> hal_call list \<Rightarrow> (descriptor list \<times> hal_call list) outcome" where
  "indirect_fill share i [] log = Done ([], log)"
| "indirect_fill share i ((b, dir) # bs) log =
     (case set_buf share log b dir F_NEXT zero_desc of
        Panic \<Rightarrow> Panic
      | Done d \<Rightarrow>
          (case indirect_fill share (i + 1) bs (log @ [Share b dir]) of
             Panic \<Rightarrow> Panic
           | Done (ds, log) \<Rightarrow> Done (d\<lparr>d_next := (i + 1) mod 65536\<rparr> # ds, log)))"

text \<open>\<open>list_addr\<close> is where the allocator puts the indirect list.\<close>

definition add_indirect :: "share_fn \<Rightarrow> nat \<Rightarrow> buf list \<Rightarrow> buf list \<Rightarrow> virtq \<Rightarrow> (nat \<times> virtq) outcome" where
  "add_indirect share list_addr inputs outputs q =
     (let head = free_head q
      in case indirect_fill share 0 (io_list inputs outputs) (hal q) of
           Panic \<Rightarrow> Panic
         | Done (ds, log) \<Rightarrow>
             if ds = [] \<or> \<not> head < vq_size q \<or> indirect_lists q ! head \<noteq> None then Panic
             else
               let ds = ds[length ds - 1 := remove_next (last ds)];
                   list_buf = \<lparr>b_addr = list_addr, b_len = 16 * length ds\<rparr>;
                   direct_desc = desc_shadow q ! head
               in case set_buf share log list_buf DriverToDevice F_INDIRECT direct_desc of
                    Panic \<Rightarrow> Panic
                  | Done d \<Rightarrow>
                      let q = q\<lparr>indirect_lists := (indirect_lists q)[head := Some (list_addr, ds)],
                                free_head := d_next direct_desc,
                                desc_shadow := (desc_shadow q)[head := d],
                                hal := log @ [Share list_buf DriverToDevice]\<rparr>;
                          q = write_desc head q
                      in Done (head, q\<lparr>num_used := inc16 (num_used q)\<rparr>))"

definition vq_add :: "share_fn \<Rightarrow> nat \<Rightarrow> buf list \<Rightarrow> buf list \<Rightarrow> virtq \<Rightarrow> ((vq_error + nat) \<times> virtq) outcome" where
  "vq_add share list_addr inputs outputs q =
     (if inputs = [] \<and> outputs = [] then Done (Inl InvalidParam, q)
      else
        let descriptors_needed = length inputs + length outputs
        in if vq_size q < num_used q + 1 \<or> vq_size q < descriptors_needed \<or>
              (\<not> indirect q \<and> vq_size q < num_used q + descriptors_needed)
           then Done (Inl QueueFull, q)
           else
             case (if indirect q \<and> 1 < descriptors_needed then add_indirect share list_addr inputs outputs q
                   else add_direct share inputs outputs q) of
               Panic \<Rightarrow> Panic
             | Done (head, q) \<Rightarrow>
                 let avail_slot = avail_idx q AND (vq_size q - 1);
                     q = q\<lparr>avail_ring := (avail_ring q)[avail_slot := head]\<rparr>;
                     q = q\<lparr>avail_idx := inc16 (avail_idx q)\<rparr>
                 in Done (Inr head, q\<lparr>avail_ring_idx := avail_idx q\<rparr>))"

section \<open>Notifications and the used ring\<close>

definition set_dev_notify :: "bool \<Rightarrow> virtq \<Rightarrow> virtq" where
  "set_dev_notify enable q =
     (let avail_ring_flags = (if enable then 0 else 1)
      in if \<not> event_idx q then q\<lparr>avail_flags := avail_ring_flags\<rparr> else q)"

definition should_notify :: "virtq \<Rightarrow> bool" where
  "should_notify q =
     (if event_idx q then inc16 (used_avail_event q) \<le> avail_idx q else used_flags q AND 1 = 0)"

definition can_pop :: "virtq \<Rightarrow> bool" where
  "can_pop q \<longleftrightarrow> last_used_idx q \<noteq> used_ring_idx q"

definition peek_used :: "virtq \<Rightarrow> nat option" where
  "peek_used q =
     (if can_pop q then
        let last_used_slot = last_used_idx q AND (vq_size q - 1)
        in Some (fst (used_ring q ! last_used_slot) mod 65536)
      else None)"

definition available_desc :: "virtq \<Rightarrow> nat" where
  "available_desc q =
     (if indirect q then (if num_used q = vq_size q then 0 else vq_size q) else vq_size q - num_used q)"

fun recycle_direct :: "nat \<Rightarrow> (buf \<times> direction) list \<Rightarrow> nat option \<Rightarrow> virtq \<Rightarrow> (nat option \<times> virtq) outcome" where
  "recycle_direct original_free_head [] nxt q = Done (nxt, q)"
| "recycle_direct original_free_head ((b, dir) # bs) nxt q =
     (if b_len b = 0 then Panic
      else
        case nxt of
          None \<Rightarrow> Panic
        | Some i \<Rightarrow>
            if \<not> i < vq_size q then Panic
            else
              let d = desc_shadow q ! i;
                  paddr = d_addr d;
                  d = unset_buf d;
                  nxt = desc_next d;
                  d = (if nxt = None then d\<lparr>d_next := original_free_head\<rparr> else d);
                  q = q\<lparr>desc_shadow := (desc_shadow q)[i := d], num_used := dec16 (num_used q)\<rparr>;
                  q = write_desc i q
              in recycle_direct original_free_head bs nxt (q\<lparr>hal := hal q @ [Unshare paddr b dir]\<rparr>))"

fun unshare_list :: "(buf \<times> direction) list \<Rightarrow> descriptor list \<Rightarrow> hal_call list \<Rightarrow> hal_call list outcome" where
  "unshare_list ((b, dir) # bs) (d # ds) log =
     (if b_len b = 0 then Panic else unshare_list bs ds (log @ [Unshare (d_addr d) b dir]))"
| "unshare_list _ _ log = Done log"

definition recycle_descriptors :: "nat \<Rightarrow> buf list \<Rightarrow> buf list \<Rightarrow> virtq \<Rightarrow> virtq outcome" where
  "recycle_descriptors head inputs outputs q =
     (let original_free_head = free_head q;
          q = q\<lparr>free_head := head\<rparr>
      in if \<not> head < vq_size q then Panic
         else if contains (d_flags (desc_shadow q ! head)) F_INDIRECT then
           case indirect_lists q ! head of
             None \<Rightarrow> Panic
           | Some (list_addr, ds) \<Rightarrow>
               let d = desc_shadow q ! head;
                   paddr = d_addr d;
                   d = (unset_buf d)\<lparr>d_next := original_free_head\<rparr>;
                   q = q\<lparr>indirect_lists := (indirect_lists q)[head := None],
                         desc_shadow := (desc_shadow q)[head := d],
                         num_used := dec16 (num_used q),
                         hal := hal q @ [Unshare paddr \<lparr>b_addr = list_addr, b_len = 16 * length ds\<rparr> DriverToDevice]\<rparr>
               in if length ds \<noteq> length inputs + length outputs then Panic
                  else
                    case unshare_list (io_list inputs outputs) ds (hal q) of
                      Panic \<Rightarrow> Panic
                    | Done log \<Rightarrow> Done (q\<lparr>hal := log\<rparr>)
         else
           case recycle_direct original_free_head (io_list inputs outputs) (Some head) q of
             Panic \<Rightarrow> Panic
           | Done (nxt, q) \<Rightarrow> if nxt \<noteq> None then Panic else Done q)"

definition pop_used :: "nat \<Rightarrow> buf list \<Rightarrow> buf list \<Rightarrow> virtq \<Rightarrow> ((vq_error + nat) \<times> virtq) outcome" where
  "pop_used token inputs outputs q =
     (if \<not> can_pop q then Done (Inl NotReady, q)
      else
        let last_used_slot = last_used_idx q AND (vq_size q - 1);
            index = fst (used_ring q ! last_used_slot) mod 65536;
            len = snd (used_ring q ! last_used_slot)
        in if index \<noteq> token then Done (Inl WrongToken, q)
           else
             case recycle_descriptors index inputs outputs q of
               Panic \<Rightarrow> Panic
             | Done q \<Rightarrow>
                 let q = q\<lparr>last_used_idx := inc16 (last_used_idx q)\<rparr>
                 in Done (Inr len, if event_idx q then q\<lparr>avail_used_event := last_used_idx q\<rparr> else q))"

text \<open>One turn of waiting is a look at the used ring as the device then left it; \<open>device\<close> is that ring at each
  look, and the wait ends at the first look that shows an element.\<close>

primrec wait_pop :: "nat \<Rightarrow> (nat \<Rightarrow> virtq \<Rightarrow> virtq) \<Rightarrow> nat \<Rightarrow> virtq \<Rightarrow> virtq option" where
  "wait_pop 0 device i q = None"
| "wait_pop (Suc fuel) device i q =
     (let q = device i q in if can_pop q then Some q else wait_pop fuel device (i + 1) q)"

text \<open>The result is \<open>None\<close> when the device does not answer within \<open>fuel\<close> looks; the boolean tells whether the
  transport was notified.\<close>

definition add_notify_wait_pop ::
  "nat \<Rightarrow> (nat \<Rightarrow> virtq \<Rightarrow> virtq) \<Rightarrow> share_fn \<Rightarrow> nat \<Rightarrow> buf list \<Rightarrow> buf list \<Rightarrow> virtq \<Rightarrow>
   ((vq_error + nat) \<times> bool \<times> virtq) outcome option" where
  "add_notify_wait_pop fuel device share list_addr inputs outputs q =
     (case vq_add share list_addr inputs outputs q of
        Panic \<Rightarrow> Some Panic
      | Done (Inl e, q) \<Rightarrow> Some (Done (Inl e, False, q))
      | Done (Inr token, q) \<Rightarrow>
          let notified = should_notify q
          in (case wait_pop fuel device 0 q of
                None \<Rightarrow> None
              | Some q \<Rightarrow>
                  (case pop_used token inputs outputs q of
                     Panic \<Rightarrow> Some Panic
                   | Done (r, q) \<Rightarrow> Some (Done (r, notified, q)))))"

section \<open>Memory layout and construction\<close>

definition virtio_align_up :: "nat \<Rightarrow> nat" where
  "virtio_align_up n = align_down 4096 (n + 4096)"

definition pages :: "nat \<Rightarrow> nat" where
  "pages n = (n + 4095) div 4096"

record dma =
  dma_paddr :: nat
  dma_vaddr :: nat
  dma_pages :: nat

text \<open>\<open>alloc n dir\<close> is what the hardware abstraction layer's \<open>dma_alloc\<close> returns.\<close>

definition dma_new :: "(nat \<Rightarrow> direction \<Rightarrow> nat \<times> nat) \<Rightarrow> nat \<Rightarrow> direction \<Rightarrow> vq_error + dma" where
  "dma_new alloc n dir =
     (let (paddr, vaddr) = alloc n dir
      in if paddr = 0 then Inl DmaError else Inr \<lparr>dma_paddr = paddr, dma_vaddr = vaddr, dma_pages = n\<rparr>)"

definition dma_at :: "dma \<Rightarrow> nat \<Rightarrow> nat outcome" where
  "dma_at d off = (if off < dma_pages d * 4096 then Done (dma_vaddr d + off) else Panic)"

datatype layout =
    Legacy dma nat nat
  | Modern dma dma nat

definition is_power_of_two :: "nat \<Rightarrow> bool" where
  "is_power_of_two n \<longleftrightarrow> n \<noteq> 0 \<and> n AND (n - 1) = 0"

definition queue_part_sizes :: "nat \<Rightarrow> (nat \<times> nat \<times> nat) outcome" where
  "queue_part_sizes n =
     (if is_power_of_two n then Done (16 * n, 2 * (3 + n), 2 * 3 + 8 * n) else Panic)"

definition allocate_legacy :: "(nat \<Rightarrow> direction \<Rightarrow> nat \<times> nat) \<Rightarrow> nat \<Rightarrow> (vq_error + layout) outcome" where
  "allocate_legacy alloc n =
     (case queue_part_sizes n of
        Panic \<Rightarrow> Panic
      | Done (d, avail, used) \<Rightarrow>
          Done (case dma_new alloc ((virtio_align_up (d + avail) + virtio_align_up used) div 4096) Both of
                  Inl e \<Rightarrow> Inl e
                | Inr r \<Rightarrow> Inr (Legacy r d (virtio_align_up (d + avail)))))"

definition allocate_flexible :: "(nat \<Rightarrow> direction \<Rightarrow> nat \<times> nat) \<Rightarrow> nat \<Rightarrow> (vq_error + layout) outcome" where
  "allocate_flexible alloc n =
     (case queue_part_sizes n of
        Panic \<Rightarrow> Panic
      | Done (d, avail, used) \<Rightarrow>
          Done (case dma_new alloc (pages (d + avail)) DriverToDevice of
                  Inl e \<Rightarrow> Inl e
                | Inr r1 \<Rightarrow>
                    (case dma_new alloc (pages used) DeviceToDriver of
                       Inl e \<Rightarrow> Inl e
                     | Inr r2 \<Rightarrow> Inr (Modern r1 r2 d))))"

fun descriptors_paddr :: "layout \<Rightarrow> nat" where
  "descriptors_paddr (Legacy r avail_offset used_offset) = dma_paddr r"
| "descriptors_paddr (Modern r1 r2 avail_offset) = dma_paddr r1"

fun descriptors_vaddr :: "layout \<Rightarrow> nat outcome" where
  "descriptors_vaddr (Legacy r avail_offset used_offset) = dma_at r 0"
| "descriptors_vaddr (Modern r1 r2 avail_offset) = dma_at r1 0"

fun driver_area_paddr :: "layout \<Rightarrow> nat" where
  "driver_area_paddr (Legacy r avail_offset used_offset) = dma_paddr r + avail_offset"
| "driver_area_paddr (Modern r1 r2 avail_offset) = dma_paddr r1 + avail_offset"

fun avail_vaddr :: "layout \<Rightarrow> nat outcome" where
  "avail_vaddr (Legacy r avail_offset used_offset) = dma_at r avail_offset"
| "avail_vaddr (Modern r1 r2 avail_offset) = dma_at r1 avail_offset"

fun device_area_paddr :: "layout \<Rightarrow> nat" where
  "device_area_paddr (Legacy r avail_offset used_offset) = dma_paddr r + used_offset"
| "device_area_paddr (Modern r1 r2 avail_offset) = dma_paddr r2"

fun used_vaddr :: "layout \<Rightarrow> nat outcome" where
  "used_vaddr (Legacy r avail_offset used_offset) = dma_at r used_offset"
| "used_vaddr (Modern r1 r2 avail_offset) = dma_at r2 0"

definition link_descs :: "nat \<Rightarrow> descriptor list" where
  "link_descs n = fold (\<lambda>i ds. ds[i := (ds ! i)\<lparr>d_next := i + 1\<rparr>]) [0..<n - 1] (replicate n zero_desc)"

text \<open>The transport is a parameter: whether the queue is in use, its largest size and whether it needs the legacy
  layout. The result has the three addresses the transport is given. The allocated pages are zero, as
  \<open>dma_alloc\<close> promises.\<close>

record vq_transport =
  queue_used :: "nat \<Rightarrow> bool"
  max_queue_size :: "nat \<Rightarrow> nat"
  requires_legacy_layout :: bool

definition virtq_new ::
  "(nat \<Rightarrow> direction \<Rightarrow> nat \<times> nat) \<Rightarrow> vq_transport \<Rightarrow> nat \<Rightarrow> nat \<Rightarrow> bool \<Rightarrow> bool \<Rightarrow>
   (vq_error + virtq \<times> nat \<times> nat \<times> nat) outcome" where
  "virtq_new alloc transport n idx ind ev =
     (if queue_used transport idx then Done (Inl AlreadyUsed)
      else if max_queue_size transport idx < n then Done (Inl InvalidParam)
      else
        case (if requires_legacy_layout transport then allocate_legacy alloc n else allocate_flexible alloc n) of
          Panic \<Rightarrow> Panic
        | Done (Inl e) \<Rightarrow> Done (Inl e)
        | Done (Inr lay) \<Rightarrow>
            (case (descriptors_vaddr lay, avail_vaddr lay, used_vaddr lay) of
               (Done _, Done _, Done _) \<Rightarrow>
                 Done (Inr
                   (\<lparr>vq_size = n, desc = link_descs n, avail_flags = 0, avail_ring_idx = 0,
                     avail_ring = replicate n 0, avail_used_event = 0, used_flags = 0, used_ring_idx = 0,
                     used_ring = replicate n (0, 0), used_avail_event = 0, queue_idx = idx, num_used = 0,
                     free_head = 0, desc_shadow = link_descs n, avail_idx = 0, last_used_idx = 0,
                     event_idx = ev, indirect = ind, indirect_lists = replicate n None, hal = []\<rparr>,
                    descriptors_paddr lay, driver_area_paddr lay, device_area_paddr lay))
             | _ \<Rightarrow> Panic))"

section \<open>The hardware abstraction layer of the kernel\<close>

text \<open>\<open>TynHal\<close> (\<open>src/drivers/virtio/hal.rs\<close>): memory is identity mapped and DMA pages come from a bump
  allocator whose next address is the state.\<close>

definition tyn_share :: share_fn where
  "tyn_share log b dir = b_addr b"

definition tyn_dma_alloc :: "nat \<Rightarrow> nat \<Rightarrow> (nat \<times> nat) \<times> nat" where
  "tyn_dma_alloc n next_paddr = ((next_paddr, next_paddr), wadd64 next_paddr (wmul64 4096 n))"

end
