(* ===== verification/Virtq_Inv.thy ===== *)
theory Virtq_Inv
  imports Virtq
begin

text \<open>
  The representation invariant of a virtqueue: the descriptors are partitioned into the free list and the
  chains of the outstanding requests, and the rings follow the number of requests added and returned. Every
  operation keeps it, whatever the device writes to the used ring.
\<close>

section \<open>Chains and the free list\<close>

definition describes :: "descriptor \<Rightarrow> nat \<Rightarrow> buf \<Rightarrow> direction \<Rightarrow> bool \<Rightarrow> bool" where
  "describes d a b dir nx \<longleftrightarrow>
     d_addr d = a \<and> d_len d = b_len b \<and> (contains (d_flags d) F_WRITE \<longleftrightarrow> dir = DeviceToDriver) \<and>
     (contains (d_flags d) F_NEXT \<longleftrightarrow> nx) \<and> \<not> contains (d_flags d) F_INDIRECT"

text \<open>The descriptors at \<open>xs\<close> describe the buffers in order and are linked; \<open>nx\<close> is the flag of the last one.\<close>

fun linked :: "descriptor list \<Rightarrow> nat list \<Rightarrow> nat list \<Rightarrow> (buf \<times> direction) list \<Rightarrow> bool \<Rightarrow> bool" where
  "linked ds [] [] [] nx = True"
| "linked ds (x # xs) (a # as) ((b, dir) # bs) nx =
     (describes (ds ! x) a b dir (xs \<noteq> [] \<or> nx) \<and> (xs \<noteq> [] \<longrightarrow> d_next (ds ! x) = hd xs) \<and>
      linked ds xs as bs nx)"
| "linked ds _ _ _ nx = False"

fun free_ok :: "descriptor list \<Rightarrow> nat \<Rightarrow> nat list \<Rightarrow> bool" where
  "free_ok ds h [] = True"
| "free_ok ds h (x # xs) = (h = x \<and> free_ok ds (d_next (ds ! x)) xs)"

definition buf_ok :: "buf \<times> direction \<Rightarrow> bool" where
  "buf_ok bd \<longleftrightarrow> 0 < b_len (fst bd) \<and> b_len (fst bd) < 4294967296 \<and> snd bd \<noteq> Both"

text \<open>The addresses come from the hardware abstraction layer.\<close>

definition shared :: "share_fn \<Rightarrow> nat list \<Rightarrow> (buf \<times> direction) list \<Rightarrow> bool" where
  "shared share as bs \<longleftrightarrow> list_all2 (\<lambda>a (b, dir). \<exists>log. a = share log b dir) as bs"

lemma linked_cong: "\<forall>i \<in> set xs. ds ! i = ds' ! i \<Longrightarrow> linked ds xs as bs m = linked ds' xs as bs m"
  by (induction ds xs as bs m rule: linked.induct) auto

lemma linked_update: "x \<notin> set xs \<Longrightarrow> linked (ds[x := d]) xs as bs m = linked ds xs as bs m"
  by (rule linked_cong) (metis nth_list_update_neq)

lemma linked_length: "linked ds xs as bs m \<Longrightarrow> length xs = length bs \<and> length as = length bs"
  by (induction ds xs as bs m rule: linked.induct) auto

lemma free_ok_cong: "\<forall>i \<in> set xs. d_next (ds ! i) = d_next (ds' ! i) \<Longrightarrow> free_ok ds h xs = free_ok ds' h xs"
  by (induction xs arbitrary: h) auto

lemma free_ok_update: "x \<notin> set xs \<Longrightarrow> free_ok (ds[x := d]) h xs = free_ok ds h xs"
  by (rule free_ok_cong) (metis nth_list_update_neq)

lemma free_ok_head: "free_ok ds h xs \<Longrightarrow> xs \<noteq> [] \<Longrightarrow> hd xs = h"
  by (cases xs) auto

subsection \<open>Flags\<close>

lemma contains_flags [simp]:
  "contains F_NEXT F_NEXT" "\<not> contains F_NEXT F_WRITE" "\<not> contains F_NEXT F_INDIRECT"
  "contains (F_NEXT OR F_WRITE) F_NEXT" "contains (F_NEXT OR F_WRITE) F_WRITE" "\<not> contains (F_NEXT OR F_WRITE) F_INDIRECT"
  "contains F_INDIRECT F_INDIRECT" "\<not> contains F_INDIRECT F_NEXT" "\<not> contains F_INDIRECT F_WRITE"
  by (simp_all add: contains_def F_NEXT_def F_WRITE_def F_INDIRECT_def)

lemma contains_remove_next [simp]:
  "\<not> contains (fl AND NOT F_NEXT) F_NEXT"
  "contains (fl AND NOT F_NEXT) F_WRITE = contains fl F_WRITE"
  "contains (fl AND NOT F_NEXT) F_INDIRECT = contains fl F_INDIRECT"
proof -
  show "\<not> contains (fl AND NOT F_NEXT) F_NEXT" by (simp add: contains_def F_NEXT_def and.assoc)
  have "NOT F_NEXT AND F_WRITE = F_WRITE" "NOT F_NEXT AND F_INDIRECT = F_INDIRECT"
    by (simp_all add: F_NEXT_def F_WRITE_def F_INDIRECT_def)
  then show "contains (fl AND NOT F_NEXT) F_WRITE = contains fl F_WRITE"
    "contains (fl AND NOT F_NEXT) F_INDIRECT = contains fl F_INDIRECT"
    by (simp_all add: contains_def and.assoc)
qed

lemma set_buf_ok:
  assumes "buf_ok (b, dir)"
  shows "\<exists>d'. set_buf share log b dir F_NEXT d = Done d' \<and> describes d' (share log b dir) b dir True \<and> d_next d' = d_next d"
  using assms by (cases dir) (auto simp: set_buf_def buf_ok_def describes_def)

lemma describes_remove_next: "describes d a b dir m \<Longrightarrow> describes (remove_next d) a b dir False"
  by (simp add: describes_def remove_next_def)

lemma d_next_remove_next [simp]: "d_next (remove_next d) = d_next d"
  by (simp add: remove_next_def)

text \<open>Removing the flag of the last descriptor ends the chain.\<close>

lemma linked_end:
  assumes "linked ds xs as bs True" "xs \<noteq> []" "distinct xs" "\<forall>i \<in> set xs. i < length ds"
  shows "linked (ds[last xs := remove_next (ds ! last xs)]) xs as bs False"
  using assms
proof (induction ds xs as bs "True" rule: linked.induct)
  case (2 ds x xs a as b dir bs)
  show ?case
  proof (cases "xs = []")
    case True
    then show ?thesis using 2 by (cases as; cases bs) (auto intro: describes_remove_next)
  next
    case False
    then have "x \<noteq> last xs" using "2.prems"(3) by auto
    then show ?thesis using 2 False by auto
  qed
qed simp_all

section \<open>Requests\<close>

text \<open>An outstanding request: its descriptors, the addresses \<open>share\<close> returned, its buffers and, for an indirect
  one, the allocation, the shared address and the contents of its list.\<close>

record request =
  rq_chain :: "nat list"
  rq_addrs :: "nat list"
  rq_bufs :: "(buf \<times> direction) list"
  rq_list :: "(nat \<times> nat \<times> descriptor list) option"

definition request_ok :: "share_fn \<Rightarrow> virtq \<Rightarrow> request \<Rightarrow> bool" where
  "request_ok share q r \<longleftrightarrow>
     rq_chain r \<noteq> [] \<and> rq_bufs r \<noteq> [] \<and> (\<forall>i \<in> set (rq_chain r). desc q ! i = desc_shadow q ! i) \<and> (\<forall>bd \<in> set (rq_bufs r). buf_ok bd) \<and>
     shared share (rq_addrs r) (rq_bufs r) \<and>
     (case rq_list r of
        None \<Rightarrow> linked (desc_shadow q) (rq_chain r) (rq_addrs r) (rq_bufs r) False
      | Some (la, pa, ds) \<Rightarrow>
          \<exists>t. rq_chain r = [t] \<and> indirect_lists q ! t = Some (la, ds) \<and>
            d_addr (desc_shadow q ! t) = pa \<and> d_len (desc_shadow q ! t) = 16 * length ds \<and>
            contains (d_flags (desc_shadow q ! t)) F_INDIRECT \<and> \<not> contains (d_flags (desc_shadow q ! t)) F_NEXT \<and>
            linked ds [0..<length ds] (rq_addrs r) (rq_bufs r) False)"

definition size_ok :: "virtq \<Rightarrow> bool" where
  "size_ok q \<longleftrightarrow>
     (\<exists>k \<le> 15. vq_size q = 2 ^ k) \<and> length (desc q) = vq_size q \<and> length (desc_shadow q) = vq_size q \<and>
     length (avail_ring q) = vq_size q \<and> length (used_ring q) = vq_size q \<and> length (indirect_lists q) = vq_size q"

definition table_ok :: "share_fn \<Rightarrow> virtq \<Rightarrow> nat list \<Rightarrow> request list \<Rightarrow> bool" where
  "table_ok share q fr rs \<longleftrightarrow>
     distinct (fr @ concat (map rq_chain rs)) \<and> set (fr @ concat (map rq_chain rs)) = {..<vq_size q} \<and>
     free_ok (desc_shadow q) (free_head q) fr \<and> num_used q + length fr = vq_size q \<and>
     (\<forall>r \<in> set rs. request_ok share q r) \<and>
     (\<forall>i < vq_size q. indirect_lists q ! i \<noteq> None \<longrightarrow> (\<exists>r \<in> set rs. rq_chain r = [i] \<and> rq_list r \<noteq> None))"

text \<open>\<open>added\<close> is the history of the heads put into the available ring; \<open>n\<close> requests are outstanding.\<close>

definition ring_ok :: "virtq \<Rightarrow> nat \<Rightarrow> nat list \<Rightarrow> bool" where
  "ring_ok q n added \<longleftrightarrow>
     n \<le> length added \<and> avail_idx q = length added mod 65536 \<and> avail_ring_idx q = avail_idx q \<and>
     last_used_idx q = (length added - n) mod 65536 \<and>
     (\<forall>k. length added - n \<le> k \<and> k < length added \<longrightarrow> avail_ring q ! (k mod vq_size q) = added ! k)"

definition vq_inv :: "share_fn \<Rightarrow> virtq \<Rightarrow> nat list \<Rightarrow> request list \<Rightarrow> nat list \<Rightarrow> bool" where
  "vq_inv share q fr rs added \<longleftrightarrow> size_ok q \<and> table_ok share q fr rs \<and> ring_ok q (length rs) added"

lemma size_pos: "size_ok q \<Longrightarrow> 0 < vq_size q \<and> vq_size q \<le> 32768"
proof -
  assume "size_ok q"
  then obtain k :: nat where "k \<le> 15" "vq_size q = 2 ^ k" by (auto simp: size_ok_def)
  moreover have "(2 :: nat) ^ k \<le> 2 ^ 15" using \<open>k \<le> 15\<close> by (intro power_increasing) simp_all
  ultimately show ?thesis by simp
qed

lemma slot_mod: "size_ok q \<Longrightarrow> i AND (vq_size q - 1) = i mod vq_size q"
proof -
  assume "size_ok q"
  then obtain k where "vq_size q = 2 ^ k" by (auto simp: size_ok_def)
  then show ?thesis by (simp add: take_bit_eq_mod[symmetric] take_bit_eq_mask mask_eq_exp_minus_1)
qed

lemma size_dvd: "size_ok q \<Longrightarrow> vq_size q dvd 65536"
proof -
  assume "size_ok q"
  then obtain k :: nat where k: "k \<le> 15" "vq_size q = 2 ^ k" by (auto simp: size_ok_def)
  have "(2 :: nat) ^ k dvd 2 ^ 16" using k(1) by (intro le_imp_power_dvd) simp
  then show ?thesis using k(2) by simp
qed

lemma mod_size: "size_ok q \<Longrightarrow> (n mod 65536) mod vq_size q = n mod vq_size q"
  using size_dvd[of q] by (simp add: mod_mod_cancel)

section \<open>The loops over descriptors\<close>

text \<open>What the loops leave alone, and that they write every descriptor they change through to the device.\<close>

definition vframe :: "virtq \<Rightarrow> virtq \<Rightarrow> bool" where
  "vframe q q' \<longleftrightarrow>
     vq_size q' = vq_size q \<and> avail_flags q' = avail_flags q \<and> avail_ring_idx q' = avail_ring_idx q \<and>
     avail_ring q' = avail_ring q \<and> avail_used_event q' = avail_used_event q \<and> used_flags q' = used_flags q \<and>
     used_ring_idx q' = used_ring_idx q \<and> used_ring q' = used_ring q \<and> used_avail_event q' = used_avail_event q \<and>
     queue_idx q' = queue_idx q \<and> avail_idx q' = avail_idx q \<and> last_used_idx q' = last_used_idx q \<and>
     event_idx q' = event_idx q \<and> indirect q' = indirect q"

definition touched :: "nat set \<Rightarrow> virtq \<Rightarrow> virtq \<Rightarrow> bool" where
  "touched X q q' \<longleftrightarrow>
     vframe q q' \<and> length (desc q') = length (desc q) \<and> length (desc_shadow q') = length (desc_shadow q) \<and>
     (\<forall>i. i \<notin> X \<longrightarrow> desc q' ! i = desc q ! i \<and> desc_shadow q' ! i = desc_shadow q ! i) \<and>
     (\<forall>i \<in> X. desc q' ! i = desc_shadow q' ! i)"

definition lens_ok :: "virtq \<Rightarrow> bool" where
  "lens_ok q \<longleftrightarrow> length (desc q) = vq_size q \<and> length (desc_shadow q) = vq_size q"

lemma touched_lens: "touched X q q' \<Longrightarrow> lens_ok q \<Longrightarrow> lens_ok q'"
  by (simp add: touched_def lens_ok_def vframe_def)

lemma touched_trans: "touched X q q' \<Longrightarrow> touched Y q' q'' \<Longrightarrow> touched (X \<union> Y) q q''"
  unfolding touched_def vframe_def by (metis UnE UnI1 UnI2)

lemma add_direct_loop_ok:
  assumes "free_ok (desc_shadow q) (free_head q) (xs @ fr)" "length xs = length bs" "distinct (xs @ fr)"
    and "\<forall>i \<in> set xs. i < vq_size q" "lens_ok q" "\<forall>bd \<in> set bs. buf_ok bd"
  shows "\<exists>q' as. add_direct_loop share bs lst q = Done (if bs = [] then lst else last xs, q') \<and>
    touched (set xs) q q' \<and> num_used q' = num_used q \<and> indirect_lists q' = indirect_lists q \<and>
    linked (desc_shadow q') xs as bs True \<and> shared share as bs \<and> free_ok (desc_shadow q') (free_head q') fr"
  using assms
proof (induction bs arbitrary: xs lst q)
  case Nil
  then show ?case by (auto simp: touched_def vframe_def shared_def intro!: exI[of _ "[]"])
next
  case (Cons bd bs)
  obtain b dir where bd: "bd = (b, dir)" by (cases bd)
  obtain x xs' where xs: "xs = x # xs'" using Cons.prems(2) by (cases xs) auto
  have x: "free_head q = x" "x < vq_size q" "x \<notin> set xs'" "x \<notin> set fr" using Cons.prems(1,3,4) xs by auto
  obtain d where d: "set_buf share (hal q) b dir F_NEXT (desc_shadow q ! x) = Done d"
    "describes d (share (hal q) b dir) b dir True" "d_next d = d_next (desc_shadow q ! x)"
    using set_buf_ok[of b dir share "hal q" "desc_shadow q ! x"] Cons.prems(6) bd by auto
  define q1 where "q1 = write_desc x (q\<lparr>desc_shadow := (desc_shadow q)[x := d], free_head := d_next d,
      hal := hal q @ [Share b dir]\<rparr>)"
  have t1: "touched {x} q q1" using x(2) Cons.prems(5)
    by (auto simp: q1_def write_desc_def touched_def vframe_def lens_ok_def)
  have q1: "desc_shadow q1 = (desc_shadow q)[x := d]" "free_head q1 = d_next d" "num_used q1 = num_used q"
    "indirect_lists q1 = indirect_lists q" "vq_size q1 = vq_size q"
    by (simp_all add: q1_def write_desc_def)
  have "free_ok (desc_shadow q1) (free_head q1) (xs' @ fr)"
    using Cons.prems(1) x(3,4) d(3) unfolding q1 xs by (simp add: free_ok_update)
  then obtain q' as where IH: "add_direct_loop share bs x q1 = Done (if bs = [] then x else last xs', q')"
    "touched (set xs') q1 q'" "num_used q' = num_used q1" "indirect_lists q' = indirect_lists q1"
    "linked (desc_shadow q') xs' as bs True" "free_ok (desc_shadow q') (free_head q') fr" "shared share as bs"
    using Cons.IH[of q1 xs' x] Cons.prems xs q1(5) touched_lens[OF t1] by auto
  have "desc_shadow q' ! x = d"
    using IH(2) x(2,3) Cons.prems(5) unfolding touched_def q1 by (simp add: lens_ok_def)
  moreover have "xs' \<noteq> [] \<longrightarrow> d_next d = hd xs'"
    using Cons.prems(1) d(3) xs free_ok_head[of "desc_shadow q" "d_next d" "xs' @ fr"] by auto
  ultimately have "linked (desc_shadow q') xs (share (hal q) b dir # as) (bd # bs) True"
    using IH(5) d(2) by (simp add: xs bd)
  moreover have "touched (set xs) q q'" using touched_trans[OF t1 IH(2)] by (simp add: xs)
  moreover have "add_direct_loop share (bd # bs) lst q = Done (last xs, q')"
  proof -
    have "bs = [] \<longleftrightarrow> xs' = []" using Cons.prems(2) xs by auto
    moreover have "b_len b \<noteq> 0" using Cons.prems(6) bd by (simp add: buf_ok_def)
    ultimately show ?thesis using x(1,2) d(1) IH(1) by (simp add: bd xs Let_def flip: q1_def)
  qed
  moreover have "shared share (share (hal q) b dir # as) (bd # bs)" using IH(7) by (auto simp: shared_def bd)
  ultimately show ?case using IH(3,4,6) q1(3,4) by auto
qed

lemma dec16_pos: "0 < n \<Longrightarrow> n < 65536 \<Longrightarrow> dec16 n = n - 1"
proof -
  assume "0 < n" "n < 65536"
  then have "n + 65535 = (n - 1) + 65536" by simp
  then have "dec16 n = (n - 1) mod 65536" unfolding dec16_def by (metis mod_add_self2)
  then show ?thesis using \<open>n < 65536\<close> by simp
qed

lemma recycle_direct_ok:
  assumes "linked (desc_shadow q) xs as bs False" "xs \<noteq> []" "distinct (xs @ fr)"
    and "\<forall>i \<in> set xs. i < vq_size q" "lens_ok q" "\<forall>bd \<in> set bs. buf_ok bd"
    and "length xs \<le> num_used q" "num_used q < 65536" "free_ok (desc_shadow q) h fr"
  shows "\<exists>q'. recycle_direct h bs (Some (hd xs)) q = Done (None, q') \<and> touched (set xs) q q' \<and>
    num_used q' = num_used q - length xs \<and> indirect_lists q' = indirect_lists q \<and> free_head q' = free_head q \<and>
    free_ok (desc_shadow q') (hd xs) (xs @ fr)"
  using assms
proof (induction bs arbitrary: xs as q)
  case Nil
  then show ?case by (cases xs) auto
next
  case (Cons bd bs)
  obtain b dir where bd: "bd = (b, dir)" by (cases bd)
  obtain x xs' a as' where xs: "xs = x # xs'" and as: "as = a # as'"
    using Cons.prems(1,2) bd by (cases xs; cases as) auto
  let ?d = "unset_buf (desc_shadow q ! x)"
  let ?e = "if xs' = [] then ?d\<lparr>d_next := h\<rparr> else ?d"
  have x: "x < vq_size q" "x \<notin> set xs'" "x \<notin> set fr" using Cons.prems(3,4) xs by auto
  have nx: "desc_next ?d = (if xs' = [] then None else Some (hd xs'))"
    using Cons.prems(1) by (simp add: xs as bd desc_next_def unset_buf_def describes_def)
  define q1 where "q1 = (write_desc x (q\<lparr>desc_shadow := (desc_shadow q)[x := ?e], num_used := dec16 (num_used q)\<rparr>))
      \<lparr>hal := hal q @ [Unshare (d_addr (desc_shadow q ! x)) b dir]\<rparr>"
  have t1: "touched {x} q q1" using x(1) Cons.prems(5)
    by (auto simp: q1_def write_desc_def touched_def vframe_def lens_ok_def)
  have q1: "desc_shadow q1 = (desc_shadow q)[x := ?e]" "free_head q1 = free_head q" "num_used q1 = num_used q - 1"
    "indirect_lists q1 = indirect_lists q" "vq_size q1 = vq_size q"
    using Cons.prems(7,8) dec16_pos[of "num_used q"] by (simp_all add: q1_def write_desc_def xs)
  have nz: "b_len b \<noteq> 0" using Cons.prems(6) bd by (simp add: buf_ok_def)
  have step: "recycle_direct h (bd # bs) (Some (hd xs)) q = recycle_direct h bs (desc_next ?d) q1"
    using x(1) nz nx unfolding bd xs by (simp add: Let_def q1_def write_desc_def)
  have fr1: "free_ok (desc_shadow q1) h fr" using Cons.prems(9) x(3) by (simp add: q1 free_ok_update)
  show ?case
  proof (cases "xs' = []")
    case True
    then have "bs = []" using linked_length[OF Cons.prems(1)] xs by simp
    moreover have "free_ok (desc_shadow q1) (hd xs) (xs @ fr)"
      using True fr1 x(1) Cons.prems(5) by (simp add: xs q1 lens_ok_def)
    ultimately show ?thesis using step nx True t1 q1 by (auto simp: xs)
  next
    case False
    have "linked (desc_shadow q1) xs' as' bs False"
      using Cons.prems(1) x(2) by (simp add: xs as bd q1 linked_update)
    moreover have "length xs' \<le> num_used q1" "num_used q1 < 65536" using Cons.prems(7,8) unfolding xs q1(3) by simp_all
    ultimately obtain q' where IH: "recycle_direct h bs (Some (hd xs')) q1 = Done (None, q')" "touched (set xs') q1 q'"
      "num_used q' = num_used q1 - length xs'" "indirect_lists q' = indirect_lists q1" "free_head q' = free_head q1"
      "free_ok (desc_shadow q') (hd xs') (xs' @ fr)"
      using Cons.IH[of q1 xs' as'] False Cons.prems xs q1(3,5) touched_lens[OF t1] fr1 by auto
    have "desc_shadow q' ! x = ?d"
      using IH(2) x(1,2) Cons.prems(5) False unfolding touched_def q1 by (simp add: lens_ok_def)
    then have "d_next (desc_shadow q' ! x) = hd xs'"
      using Cons.prems(1) False by (simp add: xs as bd unset_buf_def)
    then have "free_ok (desc_shadow q') (hd xs) (xs @ fr)" using IH(6) by (simp add: xs)
    moreover have "touched (set xs) q q'" using touched_trans[OF t1 IH(2)] by (simp add: xs)
    ultimately show ?thesis using step nx False IH(1,3-5) q1(2-4) by (auto simp: xs)
  qed
qed

end
