(* ===== verification/Virtq_Props.thy ===== *)
theory Virtq_Props
  imports Virtq_Inv
begin

text \<open>
  The operations of a virtqueue keep its invariant and refine an abstract queue of outstanding requests; the
  device finds exactly the buffers of every request in the descriptor table.
\<close>

section \<open>Adding\<close>

lemma size_lens: "size_ok q \<Longrightarrow> lens_ok q"
  by (simp add: size_ok_def lens_ok_def)

lemma touched_size:
  "touched X q q' \<Longrightarrow> size_ok q \<Longrightarrow> length (indirect_lists q') = length (indirect_lists q) \<Longrightarrow> size_ok q'"
  by (simp add: touched_def vframe_def size_ok_def)

definition kept :: "nat set \<Rightarrow> virtq \<Rightarrow> virtq \<Rightarrow> bool" where
  "kept X q q' \<longleftrightarrow> (\<forall>i. i \<notin> X \<longrightarrow> desc q' ! i = desc q ! i \<and> desc_shadow q' ! i = desc_shadow q ! i)"

lemma touched_kept: "touched X q q' \<Longrightarrow> kept X q q'"
  by (simp add: touched_def kept_def)

lemma request_ok_frame:
  assumes "kept X q q'" "set (rq_chain r) \<inter> X = {}" "\<forall>i \<in> set (rq_chain r). indirect_lists q' ! i = indirect_lists q ! i"
    and "request_ok share q r"
  shows "request_ok share q' r"
proof -
  have d: "\<forall>i \<in> set (rq_chain r). desc q' ! i = desc q ! i \<and> desc_shadow q' ! i = desc_shadow q ! i"
    using assms(1,2) by (auto simp: kept_def)
  then have "linked (desc_shadow q') (rq_chain r) as bs m = linked (desc_shadow q) (rq_chain r) as bs m" for as bs m
    by (intro linked_cong) simp
  then show ?thesis using assms(3,4) d unfolding request_ok_def by (auto split: option.splits)
qed

text \<open>A request that takes the first \<open>n\<close> free descriptors.\<close>

lemma table_ok_take:
  assumes "table_ok share q fr rs" "touched (set (take n fr)) q q'" "free_ok (desc_shadow q') (free_head q') (drop n fr)"
    and "num_used q' = num_used q + length (take n fr)" "request_ok share q' r" "rq_chain r = take n fr"
    and "\<forall>i. i \<notin> set (take n fr) \<longrightarrow> indirect_lists q' ! i = indirect_lists q ! i"
    and "\<forall>i \<in> set (take n fr). i < vq_size q \<and> indirect_lists q' ! i \<noteq> None \<longrightarrow> rq_chain r = [i] \<and> rq_list r \<noteq> None"
  shows "table_ok share q' (drop n fr) (r # rs)"
proof -
  have split: "take n fr @ drop n fr = fr" by simp
  have dis: "distinct (take n fr @ drop n fr @ concat (map rq_chain rs))"
    and set: "set (take n fr @ drop n fr @ concat (map rq_chain rs)) = {..<vq_size q}"
    using assms(1) by (simp_all add: table_ok_def flip: append_assoc)
  have vs: "vq_size q' = vq_size q" using assms(2) by (simp add: touched_def vframe_def)
  have "distinct (drop n fr @ concat (map rq_chain (r # rs)))"
    "set (drop n fr @ concat (map rq_chain (r # rs))) = {..<vq_size q'}"
    using dis set assms(6) vs by auto
  moreover have "num_used q' + length (drop n fr) = vq_size q'"
  proof -
    have "num_used q + length fr = vq_size q" using assms(1) by (simp add: table_ok_def)
    then show ?thesis using assms(4) vs by (simp add: min_def)
  qed
  moreover have "request_ok share q' s" if "s \<in> set rs" for s
  proof (rule request_ok_frame[OF touched_kept[OF assms(2)]])
    show d: "set (rq_chain s) \<inter> set (take n fr) = {}" using dis that by auto
    show "\<forall>i \<in> set (rq_chain s). indirect_lists q' ! i = indirect_lists q ! i" using assms(7) d by blast
    show "request_ok share q s" using assms(1) that by (simp add: table_ok_def)
  qed
  moreover have "\<exists>s \<in> set (r # rs). rq_chain s = [i] \<and> rq_list s \<noteq> None"
    if "i < vq_size q'" "indirect_lists q' ! i \<noteq> None" for i
    using that assms(1,7,8) vs by (cases "i \<in> set (take n fr)") (auto simp: table_ok_def)
  ultimately show ?thesis using assms(3,5) by (auto simp: table_ok_def)
qed

lemma free_no_list:
  assumes "table_ok share q fr rs" "i \<in> set fr"
  shows "i < vq_size q \<and> indirect_lists q ! i = None"
proof -
  have i: "i < vq_size q" using assms by (auto simp: table_ok_def)
  have "rq_chain r \<noteq> [i]" if "r \<in> set rs" for r
    using assms that by (fastforce simp: table_ok_def)
  then show ?thesis using i assms(1) unfolding table_ok_def by blast
qed

lemma add_direct_ok:
  assumes "size_ok q" "table_ok share q fr rs" "io_list inputs outputs \<noteq> []" "\<forall>bd \<in> set (io_list inputs outputs). buf_ok bd"
    and "length inputs + length outputs \<le> length fr"
  shows "\<exists>q' fr' r. add_direct share inputs outputs q = Done (hd (rq_chain r), q') \<and> size_ok q' \<and> vframe q q' \<and>
    table_ok share q' fr' (r # rs) \<and> rq_bufs r = io_list inputs outputs \<and> rq_chain r @ fr' = fr"
proof -
  let ?io = "io_list inputs outputs" and ?n = "length inputs + length outputs"
  let ?xs = "take ?n fr"
  have n: "length ?io = ?n" by (simp add: io_list_def)
  have ne: "?xs \<noteq> []" using assms(3,5) n by (cases fr) auto
  have fr: "?xs @ drop ?n fr = fr" by simp
  have free: "free_ok (desc_shadow q) (free_head q) fr" "distinct fr" "\<forall>i \<in> set fr. i < vq_size q"
    using assms(2) free_no_list[OF assms(2)] by (auto simp: table_ok_def)
  then have xs: "distinct ?xs" "\<forall>i \<in> set ?xs. i < vq_size q" by (auto dest: in_set_takeD)
  obtain q1 as where q1: "add_direct_loop share ?io (free_head q) q = Done (last ?xs, q1)" "touched (set ?xs) q q1"
    "num_used q1 = num_used q" "indirect_lists q1 = indirect_lists q" "linked (desc_shadow q1) ?xs as ?io True"
    "free_ok (desc_shadow q1) (free_head q1) (drop ?n fr)" "shared share as ?io"
    using add_direct_loop_ok[of q ?xs "drop ?n fr" ?io share "free_head q"] free xs size_lens[OF assms(1)] n assms(3-5)
    by (auto simp: fr)
  have lt: "last ?xs \<in> set ?xs" using ne by (rule last_in_set)
  have vs: "vq_size q1 = vq_size q" using q1(2) by (simp add: touched_def vframe_def)
  define q2 where "q2 = (write_desc (last ?xs)
      (q1\<lparr>desc_shadow := (desc_shadow q1)[last ?xs := remove_next (desc_shadow q1 ! last ?xs)]\<rparr>))
        \<lparr>num_used := (num_used q1 + ?n mod 65536) mod 65536\<rparr>"
  have l1: "lens_ok q1" using touched_lens[OF q1(2) size_lens[OF assms(1)]] .
  have t2: "touched {last ?xs} q1 q2" using l1 lt xs(2) vs
    by (auto simp: q2_def write_desc_def touched_def vframe_def lens_ok_def)
  have t: "touched (set ?xs) q q2" using touched_trans[OF q1(2) t2] lt by (simp add: insert_absorb Un_insert_right)
  have sh: "desc_shadow q2 = (desc_shadow q1)[last ?xs := remove_next (desc_shadow q1 ! last ?xs)]"
    "free_head q2 = free_head q1" "indirect_lists q2 = indirect_lists q"
    by (simp_all add: q2_def write_desc_def q1(4))
  have nu: "num_used q2 = num_used q + length ?xs"
  proof -
    have "num_used q + ?n \<le> vq_size q" using assms(2,5) by (simp add: table_ok_def)
    then have "num_used q + ?n < 65536" using size_pos[OF assms(1)] by linarith
    then show ?thesis using assms(5) by (simp add: q2_def q1(3))
  qed
  have "last ?xs \<notin> set (drop ?n fr)" using lt free(2) set_take_disj_set_drop_if_distinct[of fr ?n ?n] by auto
  then have f2: "free_ok (desc_shadow q2) (free_head q2) (drop ?n fr)" using q1(6) by (simp add: sh free_ok_update)
  let ?r = "\<lparr>rq_chain = ?xs, rq_addrs = as, rq_bufs = ?io, rq_list = None\<rparr>"
  have "\<forall>i \<in> set ?xs. i < length (desc_shadow q1)" using xs(2) l1 vs by (simp add: lens_ok_def)
  from linked_end[OF q1(5) ne xs(1) this] have "request_ok share q2 ?r"
    using ne assms(3,4) t q1(7) by (simp add: request_ok_def sh touched_def)
  then have "table_ok share q2 (drop ?n fr) (?r # rs)"
    using free_no_list[OF assms(2)] by (intro table_ok_take[OF assms(2) t f2 nu]) (auto simp: sh dest: in_set_takeD)
  moreover have "add_direct share inputs outputs q = Done (free_head q, q2)"
    using q1(1) lt xs(2) vs by (simp add: add_direct_def Let_def q2_def write_desc_def)
  moreover have "hd ?xs = free_head q" using free(1) ne free_ok_head[of "desc_shadow q" "free_head q" fr] by (cases fr) auto
  moreover have "size_ok q2" using touched_size[OF t assms(1)] by (simp add: sh)
  ultimately show ?thesis using t by (intro exI[of _ q2] exI[of _ "drop ?n fr"] exI[of _ ?r]) (simp add: touched_def)
qed

lemma indirect_fill_ok:
  "\<forall>bd \<in> set bs. buf_ok bd \<Longrightarrow> i + length bs < 65536 \<Longrightarrow>
   \<exists>ds log' as. indirect_fill share i bs log = Done (ds, log') \<and> length ds = length bs \<and> shared share as bs \<and>
     (\<forall>pre. length pre = i \<longrightarrow> linked (pre @ ds) [i..<i + length bs] as bs True)"
proof (induction bs arbitrary: i log)
  case Nil
  then show ?case by (auto simp: shared_def intro!: exI[of _ "[]"])
next
  case (Cons bd bs)
  obtain b dir where bd: "bd = (b, dir)" by (cases bd)
  obtain d where d: "set_buf share log b dir F_NEXT zero_desc = Done d" "describes d (share log b dir) b dir True"
    using set_buf_ok[of b dir share log zero_desc] Cons.prems(1) bd by auto
  obtain ds log' as where IH: "indirect_fill share (i + 1) bs (log @ [Share b dir]) = Done (ds, log')" "length ds = length bs"
    "\<forall>pre. length pre = i + 1 \<longrightarrow> linked (pre @ ds) [i + 1..<i + 1 + length bs] as bs True" "shared share as bs"
    using Cons.IH[of "i + 1" "log @ [Share b dir]"] Cons.prems by auto
  let ?d = "d\<lparr>d_next := i + 1\<rparr>"
  have u: "[i..<i + length (bd # bs)] = i # [i + 1..<i + 1 + length bs]"
    by (simp add: upt_conv_Cons One_nat_def del: upt_Suc)
  have "linked (pre @ ?d # ds) [i..<i + length (bd # bs)] (share log b dir # as) (bd # bs) True" if "length pre = i" for pre
  proof -
    have "linked ((pre @ [?d]) @ ds) [i + 1..<i + 1 + length bs] as bs True"
      by (rule IH(3)[rule_format]) (simp add: that)
    moreover have "describes ?d (share log b dir) b dir True" using d(2) by (simp add: describes_def)
    ultimately show ?thesis unfolding u using that by (simp add: bd nth_append)
  qed
  moreover have "indirect_fill share i (bd # bs) log = Done (?d # ds, log')"
    using d(1) IH(1) Cons.prems(2) by (simp add: bd)
  moreover have "shared share (share log b dir # as) (bd # bs)" using IH(4) by (auto simp: shared_def bd)
  ultimately show ?case using IH(2) by auto
qed

lemma add_indirect_ok:
  assumes "size_ok q" "table_ok share q fr rs" "io_list inputs outputs \<noteq> []" "\<forall>bd \<in> set (io_list inputs outputs). buf_ok bd"
    and "fr \<noteq> []" "length inputs + length outputs \<le> vq_size q"
  shows "\<exists>q' fr' r. add_indirect share la inputs outputs q = Done (hd (rq_chain r), q') \<and> size_ok q' \<and> vframe q q' \<and>
    table_ok share q' fr' (r # rs) \<and> rq_bufs r = io_list inputs outputs \<and> rq_chain r @ fr' = fr"
proof -
  let ?io = "io_list inputs outputs"
  have n: "length ?io = length inputs + length outputs" by (simp add: io_list_def)
  have lt: "length ?io < 65536" using assms(6) size_pos[OF assms(1)] n by simp
  obtain ds log as where f: "indirect_fill share 0 ?io (hal q) = Done (ds, log)" "length ds = length ?io"
    "linked ds [0..<length ds] as ?io True" "shared share as ?io"
    using indirect_fill_ok[OF assms(4), of 0 share "hal q"] lt by auto
  have ne: "ds \<noteq> []" using f(2) assms(3) by auto
  obtain h fr' where fr: "fr = h # fr'" using assms(5) by (cases fr) auto
  have h: "free_head q = h" "free_ok (desc_shadow q) (d_next (desc_shadow q ! h)) fr'" "h \<notin> set fr'"
    "h < vq_size q" "indirect_lists q ! h = None"
    using assms(2) free_no_list[OF assms(2), of h] fr by (auto simp: table_ok_def)
  let ?ds = "ds[length ds - 1 := remove_next (last ds)]"
  let ?lb = "\<lparr>b_addr = la, b_len = 16 * length ?ds\<rparr>"
  have l: "linked ?ds [0..<length ?ds] as ?io False"
  proof -
    have lst: "last [0..<length ds] = length ds - 1" "ds ! (length ds - 1) = last ds"
      using ne by (simp_all add: last_conv_nth)
    show ?thesis using linked_end[OF f(3)] ne unfolding lst by simp
  qed
  have "16 * length ?ds < 4294967296" using lt f(2) by simp
  then obtain d where d: "set_buf share log ?lb DriverToDevice F_INDIRECT (desc_shadow q ! h) = Done d"
    "d_addr d = share log ?lb DriverToDevice" "d_len d = 16 * length ?ds" "d_flags d = F_INDIRECT"
    by (simp add: set_buf_def)
  define q1 where "q1 = (write_desc h (q\<lparr>indirect_lists := (indirect_lists q)[h := Some (la, ?ds)],
      free_head := d_next (desc_shadow q ! h), desc_shadow := (desc_shadow q)[h := d],
      hal := log @ [Share ?lb DriverToDevice]\<rparr>))\<lparr>num_used := inc16 (num_used q)\<rparr>"
  have add: "add_indirect share la inputs outputs q = Done (h, q1)"
    using f(1) ne h(1,4,5) d(1) by (simp add: add_indirect_def Let_def q1_def write_desc_def)
  have lens: "length (desc q) = vq_size q" "length (desc_shadow q) = vq_size q" "length (indirect_lists q) = vq_size q"
    using assms(1) by (auto simp: size_ok_def)
  have t: "touched (set (take 1 fr)) q q1" using lens h(4)
    by (auto simp: q1_def write_desc_def touched_def vframe_def fr One_nat_def)
  have q1: "indirect_lists q1 = (indirect_lists q)[h := Some (la, ?ds)]" "desc_shadow q1 = (desc_shadow q)[h := d]"
    "free_head q1 = d_next (desc_shadow q ! h)" "desc q1 ! h = d"
    using lens h(4) by (simp_all add: q1_def write_desc_def)
  have nu: "num_used q1 = num_used q + length (take 1 fr)"
  proof -
    have "num_used q + 1 \<le> vq_size q" using assms(2) fr by (simp add: table_ok_def)
    then show ?thesis using size_pos[OF assms(1)] by (simp add: q1_def inc16_def write_desc_def fr One_nat_def)
  qed
  let ?r = "\<lparr>rq_chain = [h], rq_addrs = as, rq_bufs = ?io, rq_list = Some (la, d_addr d, ?ds)\<rparr>"
  have r: "request_ok share q1 ?r"
    using l d(3,4) h(4) lens assms(3,4) q1(4) f(4) by (simp add: request_ok_def q1)
  have "table_ok share q1 (drop 1 fr) (?r # rs)"
    by (rule table_ok_take[OF assms(2) t _ nu r]) (use h in \<open>auto simp: q1 fr One_nat_def free_ok_update\<close>)
  moreover have "size_ok q1" using touched_size[OF t assms(1)] by (simp add: q1)
  ultimately show ?thesis using add t
    by (intro exI[of _ q1] exI[of _ "drop 1 fr"] exI[of _ ?r]) (simp add: touched_def fr One_nat_def)
qed

text \<open>The entry of the available ring that is overwritten belongs to a request the device has returned.\<close>

lemma ring_ok_add:
  assumes "ring_ok q n added" "size_ok q" "n < vq_size q" "vframe q q'" "size_ok q'"
  shows "ring_ok (let q = q'\<lparr>avail_ring := (avail_ring q')[avail_idx q' AND (vq_size q' - 1) := head]\<rparr>;
      q = q\<lparr>avail_idx := inc16 (avail_idx q)\<rparr> in q\<lparr>avail_ring_idx := avail_idx q\<rparr>) (n + 1) (added @ [head])"
proof -
  let ?N = "length added" and ?s = "vq_size q"
  have eq: "vq_size q' = ?s" "avail_ring q' = avail_ring q" "avail_idx q' = avail_idx q" "last_used_idx q' = last_used_idx q"
    using assms(4) by (simp_all add: vframe_def)
  have ok: "n \<le> ?N" "avail_idx q = ?N mod 65536" "last_used_idx q = (?N - n) mod 65536"
    "\<forall>k. ?N - n \<le> k \<and> k < ?N \<longrightarrow> avail_ring q ! (k mod ?s) = added ! k"
    using assms(1) by (simp_all add: ring_ok_def)
  have slot: "avail_idx q' AND (vq_size q' - 1) = ?N mod ?s"
    using slot_mod[OF assms(2)] mod_size[OF assms(2)] by (simp add: eq ok(2))
  have len: "length (avail_ring q) = ?s" "0 < ?s" using assms(2) size_pos[OF assms(2)] by (auto simp: size_ok_def)
  have "(avail_ring q)[?N mod ?s := head] ! (k mod ?s) = (added @ [head]) ! k"
    if k: "?N + 1 - (n + 1) \<le> k" "k < ?N + 1" for k
  proof (cases "k = ?N")
    case True
    then show ?thesis using len by (simp add: nth_append)
  next
    case False
    then have lt: "k < ?N" "?N - k < ?s" using k assms(3) ok(1) by auto
    have "k mod ?s \<noteq> ?N mod ?s"
    proof
      assume "k mod ?s = ?N mod ?s"
      then have "?N mod ?s = k mod ?s" by (rule sym)
      then have "?s dvd ?N - k" using lt(1) by (subst (asm) mod_eq_dvd_iff_nat) simp_all
      then show False using lt by (simp add: nat_dvd_not_less)
    qed
    then show ?thesis using ok(4) k lt(1) by (simp add: nth_append)
  qed
  moreover have "inc16 (?N mod 65536) = (?N + 1) mod 65536" by (simp add: inc16_def mod_simps)
  ultimately show ?thesis using ok(1-3) unfolding ring_ok_def Let_def slot by (simp add: eq Suc_eq_plus1)
qed

lemma table_ok_cong:
  assumes "desc q' = desc q" "desc_shadow q' = desc_shadow q" "indirect_lists q' = indirect_lists q"
    and "vq_size q' = vq_size q" "free_head q' = free_head q" "num_used q' = num_used q"
  shows "table_ok share q' fr rs = table_ok share q fr rs"
proof -
  have "request_ok share q' r = request_ok share q r" for r unfolding request_ok_def assms ..
  then show ?thesis unfolding table_ok_def assms by simp
qed

lemma ring_update_ok:
  assumes "table_ok share q fr rs" "size_ok q"
  shows "table_ok share (q\<lparr>avail_ring := (avail_ring q)[i := h], avail_idx := a, avail_ring_idx := b\<rparr>) fr rs"
    and "size_ok (q\<lparr>avail_ring := (avail_ring q)[i := h], avail_idx := a, avail_ring_idx := b\<rparr>)"
proof -
  show "table_ok share (q\<lparr>avail_ring := (avail_ring q)[i := h], avail_idx := a, avail_ring_idx := b\<rparr>) fr rs"
    using assms(1) by (subst table_ok_cong[where q = q]) simp_all
qed (use assms(2) in \<open>simp add: size_ok_def\<close>)

lemma length_concat_ge: "\<forall>c \<in> set cs. c \<noteq> [] \<Longrightarrow> length cs \<le> length (concat cs)"
proof (induction cs)
  case (Cons c cs)
  then show ?case by (cases c) auto
qed simp

lemma requests_le: "table_ok share q fr rs \<Longrightarrow> length rs + length fr \<le> vq_size q"
proof -
  assume t: "table_ok share q fr rs"
  let ?cs = "map rq_chain rs"
  have "length (fr @ concat ?cs) = vq_size q"
    using t distinct_card[of "fr @ concat ?cs"] by (simp add: table_ok_def)
  moreover have "length ?cs \<le> length (concat ?cs)"
    using t by (intro length_concat_ge) (auto simp: table_ok_def request_ok_def)
  ultimately show ?thesis by simp
qed

lemma vq_add_ok:
  assumes "vq_inv share q fr rs added" "\<forall>bd \<in> set (io_list inputs outputs). buf_ok bd"
  shows "(inputs = [] \<and> outputs = [] \<and> vq_add share la inputs outputs q = Done (Inl InvalidParam, q)) \<or>
    (length fr < (if indirect q then 1 else length inputs + length outputs) \<or> vq_size q < length inputs + length outputs) \<and>
      vq_add share la inputs outputs q = Done (Inl QueueFull, q) \<or>
    (\<exists>q' fr' r. vq_add share la inputs outputs q = Done (Inr (hd (rq_chain r)), q') \<and>
       rq_bufs r = io_list inputs outputs \<and> vq_inv share q' fr' (r # rs) (added @ [hd (rq_chain r)]) \<and>
       vq_size q' = vq_size q \<and> rq_chain r @ fr' = fr)"
proof -
  let ?n = "length inputs + length outputs"
  have s: "size_ok q" and t: "table_ok share q fr rs" and rg: "ring_ok q (length rs) added" using assms(1) by (auto simp: vq_inv_def)
  have nu: "num_used q + length fr = vq_size q" using t by (simp add: table_ok_def)
  have ne: "io_list inputs outputs \<noteq> [] \<longleftrightarrow> \<not> (inputs = [] \<and> outputs = [])" by (auto simp: io_list_def)
  consider (empty) "inputs = [] \<and> outputs = []" |
    (full) "\<not> (inputs = [] \<and> outputs = [])" "vq_size q < num_used q + 1 \<or> vq_size q < ?n \<or> (\<not> indirect q \<and> vq_size q < num_used q + ?n)" |
    (add) "\<not> (inputs = [] \<and> outputs = [])" "\<not> (vq_size q < num_used q + 1 \<or> vq_size q < ?n \<or> (\<not> indirect q \<and> vq_size q < num_used q + ?n))"
    by blast
  then show ?thesis
  proof cases
    case empty
    then show ?thesis by (simp add: vq_add_def)
  next
    case full
    have "0 < ?n" using full(1) by auto
    then have "length fr < (if indirect q then 1 else ?n) \<or> vq_size q < ?n"
      using full(2) nu by (cases "indirect q") (simp only: if_True if_False, arith)+
    moreover have "vq_add share la inputs outputs q = Done (Inl QueueFull, q)"
      unfolding vq_add_def Let_def using full by (simp only: if_True if_False)
    ultimately show ?thesis by blast
  next
    case add
    let ?f = "if indirect q \<and> 1 < ?n then add_indirect share la inputs outputs q else add_direct share inputs outputs q"
    have "0 < length fr" "?n \<le> vq_size q" "\<not> (indirect q \<and> 1 < ?n) \<longrightarrow> ?n \<le> length fr"
      using add(2) nu by arith+
    then have "fr \<noteq> []" "?n \<le> vq_size q" "\<not> (indirect q \<and> 1 < ?n) \<Longrightarrow> ?n \<le> length fr" by auto
    note fits = this
    have io: "io_list inputs outputs \<noteq> []" using ne add(1) by blast
    have "\<exists>q' fr' r. ?f = Done (hd (rq_chain r), q') \<and> size_ok q' \<and> vframe q q' \<and> table_ok share q' fr' (r # rs) \<and>
      rq_bufs r = io_list inputs outputs \<and> rq_chain r @ fr' = fr"
    proof (cases "indirect q \<and> 1 < ?n")
      case True
      from add_indirect_ok[OF s t io assms(2) fits(1,2), of la] show ?thesis unfolding if_P[OF True] .
    next
      case False
      from add_direct_ok[OF s t io assms(2) fits(3)[OF False]] show ?thesis unfolding if_not_P[OF False] .
    qed
    then obtain q' fr' r where q': "?f = Done (hd (rq_chain r), q')" "size_ok q'" "vframe q q'"
      "table_ok share q' fr' (r # rs)" "rq_bufs r = io_list inputs outputs" "rq_chain r @ fr' = fr" by blast
    let ?h = "hd (rq_chain r)"
    define q2 where "q2 = (let q = q'\<lparr>avail_ring := (avail_ring q')[avail_idx q' AND (vq_size q' - 1) := ?h]\<rparr>;
      q = q\<lparr>avail_idx := inc16 (avail_idx q)\<rparr> in q\<lparr>avail_ring_idx := avail_idx q\<rparr>)"
    have "length rs < vq_size q" using requests_le[OF t] \<open>fr \<noteq> []\<close> by (cases fr) auto
    from ring_ok_add[OF rg s this q'(3,2), of ?h] have "ring_ok q2 (length (r # rs)) (added @ [?h])"
      by (simp only: q2_def list.size add_0 Suc_eq_plus1)
    moreover have "table_ok share q2 fr' (r # rs)" "size_ok q2"
      unfolding q2_def Let_def using ring_update_ok[OF q'(4,2)] by simp_all
    moreover have "vq_add share la inputs outputs q = Done (Inr ?h, q2)"
      unfolding vq_add_def using add q'(1) by (simp add: Let_def q2_def)
    moreover have "vq_size q2 = vq_size q" using q'(3) by (simp add: q2_def Let_def vframe_def)
    ultimately show ?thesis using q'(5,6) unfolding vq_inv_def by blast
  qed
qed

section \<open>Returning\<close>

text \<open>The descriptors of a request go to the front of the free list.\<close>

lemma chain_le:
  assumes "table_ok share q fr (rs1 @ r # rs2)"
  shows "length (rq_chain r) \<le> num_used q" "num_used q \<le> vq_size q"
proof -
  let ?l = "fr @ concat (map rq_chain rs1) @ rq_chain r @ concat (map rq_chain rs2)"
  have "distinct ?l" "set ?l = {..<vq_size q}" and n: "num_used q + length fr = vq_size q"
    using assms by (simp_all add: table_ok_def)
  then have "length ?l = vq_size q" by (simp only: card_lessThan flip: distinct_card)
  then show "length (rq_chain r) \<le> num_used q" "num_used q \<le> vq_size q" using n by simp_all
qed

lemma chains_disjoint:
  "table_ok share q fr (rs1 @ r # rs2) \<Longrightarrow> s \<in> set (rs1 @ rs2) \<Longrightarrow> set (rq_chain s) \<inter> set (rq_chain r) = {}"
  by (auto simp: table_ok_def)

lemma table_ok_lists:
  "table_ok share q fr rs \<Longrightarrow> i < vq_size q \<Longrightarrow> indirect_lists q ! i \<noteq> None \<Longrightarrow>
   \<exists>r \<in> set rs. rq_chain r = [i] \<and> rq_list r \<noteq> None"
  unfolding table_ok_def by (elim conjE allE[of _ i] impE) assumption+

lemma table_ok_return:
  assumes "table_ok share q fr (rs1 @ r # rs2)" "kept (set (rq_chain r)) q q''" "vframe q q''"
    and "free_ok (desc_shadow q'') (free_head q'') (rq_chain r @ fr)" "num_used q'' = num_used q - length (rq_chain r)"
    and "\<forall>i. i \<notin> set (rq_chain r) \<longrightarrow> indirect_lists q'' ! i = indirect_lists q ! i"
    and "\<forall>i \<in> set (rq_chain r). indirect_lists q'' ! i = None"
  shows "table_ok share q'' (rq_chain r @ fr) (rs1 @ rs2)"
proof -
  have dis: "distinct (fr @ concat (map rq_chain rs1) @ rq_chain r @ concat (map rq_chain rs2))"
    and set: "set (fr @ concat (map rq_chain rs1) @ rq_chain r @ concat (map rq_chain rs2)) = {..<vq_size q}"
    and nu: "num_used q + length fr = vq_size q"
    using assms(1) by (simp_all add: table_ok_def)
  have vs: "vq_size q'' = vq_size q" using assms(3) by (simp add: vframe_def)
  have "num_used q'' + length (rq_chain r @ fr) = vq_size q''" using nu assms(5) vs chain_le[OF assms(1)] by simp
  moreover have "distinct ((rq_chain r @ fr) @ concat (map rq_chain (rs1 @ rs2)))"
    "set ((rq_chain r @ fr) @ concat (map rq_chain (rs1 @ rs2))) = {..<vq_size q''}"
    using dis set vs by auto
  moreover have "request_ok share q'' s" if "s \<in> set (rs1 @ rs2)" for s
  proof -
    have d: "set (rq_chain s) \<inter> set (rq_chain r) = {}" using dis that by auto
    have "request_ok share q s" using assms(1) that by (auto simp: table_ok_def)
    then show ?thesis using d assms(6) by (intro request_ok_frame[OF assms(2) d]) auto
  qed
  moreover have "\<exists>s \<in> set (rs1 @ rs2). rq_chain s = [i] \<and> rq_list s \<noteq> None"
    if "i < vq_size q''" "indirect_lists q'' ! i \<noteq> None" for i
  proof -
    have "i \<notin> set (rq_chain r)" "indirect_lists q ! i \<noteq> None" using that assms(6,7) by metis+
    then show ?thesis using assms(1) that(1) vs by (fastforce simp: table_ok_def)
  qed
  ultimately show ?thesis using assms(4) by (simp add: table_ok_def)
qed

lemma unshare_list_ok:
  "\<forall>bd \<in> set bs. buf_ok bd \<Longrightarrow> \<exists>log'. unshare_list bs ds log = Done log'"
  by (induction bs ds log rule: unshare_list.induct) (auto simp: buf_ok_def)

lemma recycle_ok:
  assumes "size_ok q" "table_ok share q fr (rs1 @ r # rs2)" "rq_bufs r = io_list inputs outputs"
  shows "\<exists>q'. recycle_descriptors (hd (rq_chain r)) inputs outputs q = Done q' \<and> size_ok q' \<and> vframe q q' \<and>
    table_ok share q' (rq_chain r @ fr) (rs1 @ rs2)"
proof -
  have r: "request_ok share q r" using assms(2) by (simp add: table_ok_def)
  have dis: "distinct (rq_chain r @ fr)" "\<forall>i \<in> set (rq_chain r). i < vq_size q" and free: "free_ok (desc_shadow q) (free_head q) fr"
    using assms(2) by (auto simp: table_ok_def)
  have ne: "rq_chain r \<noteq> []" "\<forall>bd \<in> set (rq_bufs r). buf_ok bd" using r by (auto simp: request_ok_def)
  define h where "h = hd (rq_chain r)"
  have h: "h \<in> set (rq_chain r)" "h < vq_size q" using ne(1) dis(2) by (auto simp: h_def)
  have nu: "length (rq_chain r) \<le> num_used q" "num_used q < 65536"
    using chain_le[OF assms(2)] size_pos[OF assms(1)] by simp_all
  let ?q = "q\<lparr>free_head := h\<rparr>"
  have lens: "lens_ok ?q" using size_lens[OF assms(1)] by (simp add: lens_ok_def)
  show ?thesis
  proof (cases "rq_list r")
    case None
    then have l: "linked (desc_shadow ?q) (rq_chain r) (rq_addrs r) (rq_bufs r) False" using r by (simp add: request_ok_def)
    then have ni: "\<not> contains (d_flags (desc_shadow q ! h)) F_INDIRECT"
      using ne(1) by (cases "rq_chain r"; cases "rq_addrs r"; cases "rq_bufs r") (auto simp: h_def describes_def)
    have none: "indirect_lists q ! i = None" if "i \<in> set (rq_chain r)" for i
    proof (rule ccontr)
      assume "indirect_lists q ! i \<noteq> None"
      moreover have "i < vq_size q" using that dis(2) by blast
      ultimately obtain s where s: "s \<in> set (rs1 @ r # rs2)" "rq_chain s = [i]" "rq_list s \<noteq> None"
        using table_ok_lists[OF assms(2), of i] by blast
      then have "s \<in> set (rs1 @ rs2)" using None by auto
      from chains_disjoint[OF assms(2) this] show False using that s(2) by simp
    qed
    obtain q' where q': "recycle_direct (free_head q) (rq_bufs r) (Some h) ?q = Done (None, q')"
      "touched (set (rq_chain r)) ?q q'" "num_used q' = num_used q - length (rq_chain r)"
      "indirect_lists q' = indirect_lists q" "free_head q' = h" "free_ok (desc_shadow q') h (rq_chain r @ fr)"
      using recycle_direct_ok[OF l ne(1) dis(1) _ lens ne(2), of "free_head q"] dis(2) nu free by (auto simp: h_def)
    have vf: "vframe q q'" using q'(2) by (simp add: touched_def vframe_def)
    have "table_ok share q' (rq_chain r @ fr) (rs1 @ rs2)"
      by (rule table_ok_return[OF assms(2) _ vf]) (use q' none in \<open>auto simp: touched_def kept_def\<close>)
    moreover have "size_ok q'" using assms(1) q'(2,4) by (simp add: size_ok_def touched_def vframe_def)
    moreover have "recycle_descriptors h inputs outputs q = Done q'"
      using q'(1) ni h(2) by (simp add: recycle_descriptors_def Let_def assms(3))
    ultimately show ?thesis using vf by (auto simp: h_def)
  next
    case (Some l)
    obtain la pa ds where l: "rq_list r = Some (la, pa, ds)" using Some by (cases l) auto
    then have c: "rq_chain r = [h]" "indirect_lists q ! h = Some (la, ds)" "contains (d_flags (desc_shadow q ! h)) F_INDIRECT"
      "linked ds [0..<length ds] (rq_addrs r) (rq_bufs r) False"
      using r by (auto simp: request_ok_def h_def)
    obtain log where log: "unshare_list (rq_bufs r) ds (hal q @ [Unshare (d_addr (desc_shadow q ! h))
        \<lparr>b_addr = la, b_len = 16 * length ds\<rparr> DriverToDevice]) = Done log"
      using unshare_list_ok[OF ne(2)] by blast
    let ?d = "(unset_buf (desc_shadow q ! h))\<lparr>d_next := free_head q\<rparr>"
    define q' where "q' = q\<lparr>free_head := h, indirect_lists := (indirect_lists q)[h := None],
      desc_shadow := (desc_shadow q)[h := ?d], num_used := dec16 (num_used q), hal := log\<rparr>"
    have len: "length ds = length inputs + length outputs"
      using linked_length[OF c(4)] by (simp add: assms(3) io_list_def)
    have rec: "recycle_descriptors h inputs outputs q = Done q'"
      using c(2,3) h(2) len log by (simp add: recycle_descriptors_def Let_def assms(3) q'_def)
    have lens: "length (desc_shadow q) = vq_size q" "length (indirect_lists q) = vq_size q"
      using assms(1) by (auto simp: size_ok_def)
    have vf: "vframe q q'" by (simp add: q'_def vframe_def)
    have "free_ok (desc_shadow q') h ([h] @ fr)"
      using free dis(1) h(2) lens by (simp add: q'_def c(1) free_ok_update)
    moreover have "num_used q' = num_used q - length (rq_chain r)"
      using nu dec16_pos[of "num_used q"] by (simp add: q'_def c(1))
    ultimately have "table_ok share q' (rq_chain r @ fr) (rs1 @ rs2)"
      using h(2) lens by (intro table_ok_return[OF assms(2) _ vf]) (auto simp: q'_def kept_def c(1))
    moreover have "size_ok q'" using assms(1) by (simp add: size_ok_def q'_def)
    ultimately show ?thesis using vf rec by (auto simp: h_def)
  qed
qed

lemma peek_pop:
  "\<not> can_pop q \<longleftrightarrow> peek_used q = None"
  "can_pop q \<Longrightarrow> peek_used q = Some (fst (used_ring q ! (last_used_idx q AND (vq_size q - 1))) mod 65536)"
  by (simp_all add: peek_used_def Let_def)

lemma ring_ok_pop:
  assumes "ring_ok q (n + 1) added" "vframe q q'"
  shows "ring_ok (q'\<lparr>last_used_idx := inc16 (last_used_idx q')\<rparr>) n added"
proof -
  have "inc16 ((length added - (n + 1)) mod 65536) = (length added - (n + 1) + 1) mod 65536" by (simp add: inc16_def mod_simps)
  also have "\<dots> = (length added - n) mod 65536" using assms(1) by (simp add: ring_ok_def)
  finally have "inc16 ((length added - (n + 1)) mod 65536) = (length added - n) mod 65536" .
  moreover have "\<forall>k. length added - n \<le> k \<and> k < length added \<longrightarrow> avail_ring q ! (k mod vq_size q) = added ! k"
    using assms(1) by (auto simp: ring_ok_def)
  ultimately show ?thesis using assms unfolding ring_ok_def vframe_def by simp
qed

lemma pop_used_ok:
  assumes "vq_inv share q fr (rs1 @ r # rs2) added" "rq_bufs r = io_list inputs outputs" "tok = hd (rq_chain r)"
  shows "peek_used q = None \<and> pop_used tok inputs outputs q = Done (Inl NotReady, q) \<or>
    peek_used q \<noteq> None \<and> peek_used q \<noteq> Some tok \<and> pop_used tok inputs outputs q = Done (Inl WrongToken, q) \<or>
    peek_used q = Some tok \<and>
      (\<exists>len q'. pop_used tok inputs outputs q = Done (Inr len, q') \<and> vq_inv share q' (rq_chain r @ fr) (rs1 @ rs2) added \<and>
         vq_size q' = vq_size q)"
proof -
  consider (none) "\<not> can_pop q" | (wrong) "can_pop q" "peek_used q \<noteq> Some tok" | (pop) "can_pop q" "peek_used q = Some tok"
    by blast
  then show ?thesis
  proof cases
    case none
    then show ?thesis using peek_pop(1)[of q] by (simp add: pop_used_def)
  next
    case wrong
    then show ?thesis using peek_pop[of q] by (simp add: pop_used_def Let_def)
  next
    case pop
    have s: "size_ok q" and t: "table_ok share q fr (rs1 @ r # rs2)" and rg: "ring_ok q (length (rs1 @ rs2) + 1) added"
      using assms(1) by (auto simp: vq_inv_def One_nat_def)
    obtain q' where q': "recycle_descriptors tok inputs outputs q = Done q'" "size_ok q'" "vframe q q'"
      "table_ok share q' (rq_chain r @ fr) (rs1 @ rs2)"
      using recycle_ok[OF s t assms(2)] by (auto simp: assms(3))
    let ?q1 = "q'\<lparr>last_used_idx := inc16 (last_used_idx q')\<rparr>"
    let ?q2 = "if event_idx ?q1 then ?q1\<lparr>avail_used_event := last_used_idx ?q1\<rparr> else ?q1"
    have "ring_ok ?q2 (length (rs1 @ rs2)) added" using ring_ok_pop[OF rg q'(3)] by (simp add: ring_ok_def)
    moreover have "table_ok share ?q2 (rq_chain r @ fr) (rs1 @ rs2)"
      using q'(4) by (subst table_ok_cong[where q = q']) simp_all
    moreover have "size_ok ?q2" using q'(2) by (simp add: size_ok_def)
    moreover have "pop_used tok inputs outputs q = Done (Inr (snd (used_ring q ! (last_used_idx q AND (vq_size q - 1)))), ?q2)"
      using pop peek_pop(2)[OF pop(1)] q'(1) by (simp add: pop_used_def Let_def)
    moreover have "vq_size ?q2 = vq_size q" using q'(3) by (simp add: vframe_def)
    ultimately show ?thesis using pop(2) unfolding vq_inv_def by blast
  qed
qed

section \<open>Construction\<close>

lemma link_fold:
  "m \<le> n \<Longrightarrow> length ds = n \<Longrightarrow>
   fold (\<lambda>i ds. ds[i := (ds ! i)\<lparr>d_next := i + 1\<rparr>]) [0..<m] ds =
     map (\<lambda>i. if i < m then (ds ! i)\<lparr>d_next := i + 1\<rparr> else ds ! i) [0..<n]"
proof (induction m)
  case 0
  then show ?case using map_nth[of ds] by simp
next
  case (Suc m)
  then show ?case by (auto intro!: nth_equalityI simp: nth_list_update less_Suc_eq)
qed

lemma link_descs_nth: "i < n \<Longrightarrow> link_descs n ! i = (if i < n - 1 then zero_desc\<lparr>d_next := i + 1\<rparr> else zero_desc)"
  unfolding link_descs_def by (subst link_fold[of "n - 1" n]) auto

lemma length_link_descs [simp]: "length (link_descs n) = n"
  unfolding link_descs_def by (subst link_fold[of "n - 1" n]) auto

lemma free_ok_upt: "m + k = n \<Longrightarrow> free_ok (link_descs n) m [m..<n]"
proof (induction k arbitrary: m)
  case (Suc k)
  then have u: "[m..<n] = m # [m + 1..<n]" by (simp add: upt_conv_Cons One_nat_def)
  have "free_ok (link_descs n) (d_next (link_descs n ! m)) [m + 1..<n]"
  proof (cases "m + 1 < n")
    case True
    then show ?thesis using Suc by (simp add: link_descs_nth)
  qed simp
  then show ?case unfolding u by simp
qed simp

lemma virtq_new_ok:
  assumes "virtq_new alloc transport n idx ind ev = Done (Inr (q, areas))" "k \<le> 15" "n = 2 ^ k"
  shows "vq_inv share q [0..<n] [] []"
proof -
  have q: "q = \<lparr>vq_size = n, desc = link_descs n, avail_flags = 0, avail_ring_idx = 0,
      avail_ring = replicate n 0, avail_used_event = 0, used_flags = 0, used_ring_idx = 0,
      used_ring = replicate n (0, 0), used_avail_event = 0, queue_idx = idx, num_used = 0,
      free_head = 0, desc_shadow = link_descs n, avail_idx = 0, last_used_idx = 0,
      event_idx = ev, indirect = ind, indirect_lists = replicate n None, hal = []\<rparr>"
    using assms(1) by (auto simp: virtq_new_def split: if_splits outcome.splits sum.splits prod.splits)
  have "size_ok q" using assms(2,3) by (auto simp: q size_ok_def)
  moreover have "table_ok share q [0..<n] []" by (auto simp: q table_ok_def free_ok_upt)
  moreover have "ring_ok q 0 []" by (simp add: q ring_ok_def)
  ultimately show ?thesis by (simp add: vq_inv_def)
qed

section \<open>Refinement\<close>

text \<open>The abstract queue: the buffers of every outstanding request by its token, and the tokens in the order in which
  they were offered to the device.\<close>

type_synonym abs_queue = "(nat \<Rightarrow> (buf \<times> direction) list option) \<times> nat list"

definition abs_add :: "nat \<Rightarrow> (buf \<times> direction) list \<Rightarrow> abs_queue \<Rightarrow> abs_queue" where
  "abs_add tok bufs a = ((fst a)(tok := Some bufs), snd a @ [tok])"

definition abs_pop :: "nat \<Rightarrow> abs_queue \<Rightarrow> abs_queue" where
  "abs_pop tok a = ((fst a)(tok := None), snd a)"

definition outstanding :: "request list \<Rightarrow> nat \<Rightarrow> (buf \<times> direction) list option" where
  "outstanding rs = map_of (map (\<lambda>r. (hd (rq_chain r), rq_bufs r)) rs)"

definition vq_refines :: "share_fn \<Rightarrow> virtq \<Rightarrow> abs_queue \<Rightarrow> bool" where
  "vq_refines share q a \<longleftrightarrow> (\<exists>fr rs. vq_inv share q fr rs (snd a) \<and> fst a = outstanding rs)"

text \<open>What the device writes at any time: the whole used ring.\<close>

definition device_write :: "nat \<Rightarrow> nat \<Rightarrow> (nat \<times> nat) list \<Rightarrow> nat \<Rightarrow> virtq \<Rightarrow> virtq" where
  "device_write fl idx ring ev q =
     q\<lparr>used_flags := fl, used_ring_idx := idx, used_ring := ring, used_avail_event := ev\<rparr>"

lemma heads_distinct:
  assumes "table_ok share q fr rs"
  shows "distinct (map (\<lambda>r. hd (rq_chain r)) rs)"
proof -
  have "distinct (concat (map rq_chain rs))" "\<forall>r \<in> set rs. rq_chain r \<noteq> []"
    using assms by (auto simp: table_ok_def request_ok_def)
  then show ?thesis
  proof (induction rs)
    case (Cons r rs)
    have "hd (rq_chain r) \<noteq> hd (rq_chain s)" if "s \<in> set rs" for s
    proof
      assume "hd (rq_chain r) = hd (rq_chain s)"
      then have "hd (rq_chain r) \<in> set (rq_chain r) \<inter> set (rq_chain s)" using Cons.prems(2) that hd_in_set by (metis IntI list.set_intros)
      then show False using Cons.prems(1) that by auto
    qed
    then show ?case using Cons by auto
  qed simp
qed

lemma outstanding_Some:
  assumes "table_ok share q fr rs"
  shows "outstanding rs tok = Some bufs \<longleftrightarrow> (\<exists>r \<in> set rs. hd (rq_chain r) = tok \<and> rq_bufs r = bufs)"
  unfolding outstanding_def using heads_distinct[OF assms] by (subst map_of_eq_Some_iff) (auto simp: comp_def image_iff)

lemma outstanding_Cons: "outstanding (r # rs) = (outstanding rs)(hd (rq_chain r) := Some (rq_bufs r))"
  by (simp add: outstanding_def)

lemma outstanding_remove:
  assumes "table_ok share q fr (rs1 @ r # rs2)"
  shows "outstanding (rs1 @ rs2) = (outstanding (rs1 @ r # rs2))(hd (rq_chain r) := None)"
proof -
  have "hd (rq_chain r) \<notin> (\<lambda>r. hd (rq_chain r)) ` set (rs1 @ rs2)" using heads_distinct[OF assms] by auto
  then have n: "map_of (map (\<lambda>r. (hd (rq_chain r), rq_bufs r)) rs1) (hd (rq_chain r)) = None"
    "map_of (map (\<lambda>r. (hd (rq_chain r), rq_bufs r)) rs2) (hd (rq_chain r)) = None"
    by (auto simp: map_of_eq_None_iff image_iff)
  show ?thesis
  proof
    fix t
    show "outstanding (rs1 @ rs2) t = ((outstanding (rs1 @ r # rs2))(hd (rq_chain r) := None)) t"
      using n by (cases "t = hd (rq_chain r)") (auto simp: outstanding_def map_add_def split: option.split)
  qed
qed

lemma add_refines:
  assumes "vq_refines share q a" "\<forall>bd \<in> set (io_list inputs outputs). buf_ok bd"
  shows "\<exists>res q'. vq_add share la inputs outputs q = Done (res, q') \<and>
    (case res of
       Inl e \<Rightarrow> q' = q \<and> (e = InvalidParam \<and> inputs = [] \<and> outputs = [] \<or>
                        e = QueueFull \<and> available_desc q < length inputs + length outputs)
     | Inr tok \<Rightarrow> fst a tok = None \<and> vq_refines share q' (abs_add tok (io_list inputs outputs) a))"
proof -
  obtain fr rs where inv: "vq_inv share q fr rs (snd a)" and a: "fst a = outstanding rs"
    using assms(1) by (auto simp: vq_refines_def)
  have t: "table_ok share q fr rs" using inv by (simp add: vq_inv_def)
  then have nu: "num_used q + length fr = vq_size q" by (simp add: table_ok_def)
  from vq_add_ok[OF inv assms(2), of la] consider
    (inv) "inputs = []" "outputs = []" "vq_add share la inputs outputs q = Done (Inl InvalidParam, q)"
  | (full) "length fr < (if indirect q then 1 else length inputs + length outputs) \<or> vq_size q < length inputs + length outputs"
      "vq_add share la inputs outputs q = Done (Inl QueueFull, q)" "\<not> (inputs = [] \<and> outputs = [])"
  | (ok) q' fr' r where "vq_add share la inputs outputs q = Done (Inr (hd (rq_chain r)), q')"
      "rq_bufs r = io_list inputs outputs" "vq_inv share q' fr' (r # rs) (snd a @ [hd (rq_chain r)])"
    by (metis (no_types, lifting) Pair_inject Inl_inject outcome.inject vq_error.distinct vq_add_def)
  then show ?thesis
  proof cases
    case full
    have "available_desc q < length inputs + length outputs"
    proof -
      have "0 < length inputs + length outputs" using full(3) by auto
      then show ?thesis using full(1) nu by (auto simp: available_desc_def split: if_splits)
    qed
    then show ?thesis using full(2) by simp
  next
    case ok
    have "table_ok share q' fr' (r # rs)" using ok(3) by (simp add: vq_inv_def)
    from heads_distinct[OF this] have "outstanding rs (hd (rq_chain r)) = None"
      by (auto simp: outstanding_def map_of_eq_None_iff image_iff)
    moreover have "vq_refines share q' (abs_add (hd (rq_chain r)) (io_list inputs outputs) a)"
      unfolding vq_refines_def abs_add_def using ok(2,3) a by (auto simp: outstanding_Cons intro!: exI[of _ fr'] exI[of _ "r # rs"])
    ultimately show ?thesis using ok(1) a by simp
  qed simp
qed

lemma pop_refines:
  assumes "vq_refines share q a" "fst a tok = Some (io_list inputs outputs)"
  shows "\<exists>res q'. pop_used tok inputs outputs q = Done (res, q') \<and>
    (case res of
       Inl e \<Rightarrow> q' = q \<and> (e = NotReady \<and> peek_used q = None \<or>
                        e = WrongToken \<and> peek_used q \<noteq> None \<and> peek_used q \<noteq> Some tok)
     | Inr len \<Rightarrow> peek_used q = Some tok \<and> vq_refines share q' (abs_pop tok a))"
proof -
  obtain fr rs where inv: "vq_inv share q fr rs (snd a)" and a: "fst a = outstanding rs"
    using assms(1) by (auto simp: vq_refines_def)
  have t: "table_ok share q fr rs" using inv by (simp add: vq_inv_def)
  obtain r where r: "r \<in> set rs" "hd (rq_chain r) = tok" "rq_bufs r = io_list inputs outputs"
    using assms(2) outstanding_Some[OF t] a by auto
  then obtain rs1 rs2 where rs: "rs = rs1 @ r # rs2" by (meson split_list)
  have rem: "outstanding (rs1 @ rs2) = (fst a)(tok := None)" using outstanding_remove[OF t[unfolded rs]] a r(2) by (simp add: rs)
  from pop_used_ok[OF inv[unfolded rs] r(3) r(2)[symmetric]] consider
    (none) "peek_used q = None" "pop_used tok inputs outputs q = Done (Inl NotReady, q)"
  | (wrong) "peek_used q \<noteq> None" "peek_used q \<noteq> Some tok" "pop_used tok inputs outputs q = Done (Inl WrongToken, q)"
  | (pop) len q' where "peek_used q = Some tok" "pop_used tok inputs outputs q = Done (Inr len, q')"
      "vq_inv share q' (rq_chain r @ fr) (rs1 @ rs2) (snd a)"
    by metis
  then show ?thesis
  proof cases
    case pop
    then have "vq_refines share q' (abs_pop tok a)" unfolding vq_refines_def abs_pop_def
      using rem by (intro exI[of _ "rq_chain r @ fr"] exI[of _ "rs1 @ rs2"]) simp
    then show ?thesis using pop(1,2) by simp
  qed auto
qed

lemma device_inv:
  assumes "vq_inv share q fr rs added" "length ring = vq_size q"
  shows "vq_inv share (device_write fl idx ring ev q) fr rs added"
proof -
  have inv: "size_ok q" "table_ok share q fr rs" "ring_ok q (length rs) added" using assms(1) by (auto simp: vq_inv_def)
  have "table_ok share (device_write fl idx ring ev q) fr rs"
    using inv(2) by (subst table_ok_cong[where q = q]) (simp_all add: device_write_def)
  moreover have "size_ok (device_write fl idx ring ev q)" "ring_ok (device_write fl idx ring ev q) (length rs) added"
    using inv(1,3) assms(2) by (simp_all add: device_write_def size_ok_def ring_ok_def)
  ultimately show ?thesis by (simp add: vq_inv_def)
qed

lemma device_refines:
  "vq_refines share q a \<Longrightarrow> length ring = vq_size q \<Longrightarrow> vq_refines share (device_write fl idx ring ev q) a"
  unfolding vq_refines_def by (blast intro: device_inv)

text \<open>C2 A virtqueue refines the abstract queue of outstanding requests. A new queue is empty. Adding non-empty
  buffers never panics: it reports a full queue, without effect, exactly when fewer descriptors are available
  than needed, and otherwise returns a token that is not in use and holds the request until it is popped.
  Popping a token with its own buffers never panics: it succeeds exactly when the device has returned that
  token next, and then only that request ends. Nothing the device writes to the used ring breaks this.\<close>

theorem virtq_refinement:
  "(virtq_new alloc transport n idx ind ev = Done (Inr (q0, areas)) \<and> n = 2 ^ k \<and> k \<le> 15 \<longrightarrow>
      vq_refines share q0 (\<lambda>_. None, [])) \<and>
   (vq_refines share q a \<and> (\<forall>bd \<in> set (io_list inputs outputs). buf_ok bd) \<longrightarrow>
      (\<exists>res q'. vq_add share la inputs outputs q = Done (res, q') \<and>
         (case res of
            Inl e \<Rightarrow> q' = q \<and> (e = InvalidParam \<and> inputs = [] \<and> outputs = [] \<or>
                             e = QueueFull \<and> available_desc q < length inputs + length outputs)
          | Inr tok \<Rightarrow> fst a tok = None \<and> vq_refines share q' (abs_add tok (io_list inputs outputs) a)))) \<and>
   (vq_refines share q a \<and> fst a tok = Some (io_list inputs outputs) \<longrightarrow>
      (\<exists>res q'. pop_used tok inputs outputs q = Done (res, q') \<and>
         (case res of
            Inl e \<Rightarrow> q' = q \<and> (e = NotReady \<and> peek_used q = None \<or>
                             e = WrongToken \<and> peek_used q \<noteq> None \<and> peek_used q \<noteq> Some tok)
          | Inr len \<Rightarrow> peek_used q = Some tok \<and> vq_refines share q' (abs_pop tok a)))) \<and>
   (vq_refines share q a \<and> length ring = vq_size q \<longrightarrow> vq_refines share (device_write fl i ring e q) a)"
proof (intro conjI impI)
  assume "virtq_new alloc transport n idx ind ev = Done (Inr (q0, areas)) \<and> n = 2 ^ k \<and> k \<le> 15"
  then have "vq_inv share q0 [0..<n] [] []" using virtq_new_ok by blast
  then show "vq_refines share q0 (\<lambda>_. None, [])"
    unfolding vq_refines_def by (intro exI[of _ "[0..<n]"] exI[of _ "[]"]) (simp add: outstanding_def fun_eq_iff)
qed (use add_refines pop_refines device_refines in blast)+

section \<open>What the device sees\<close>

text \<open>The device follows a chain from its head; \<open>fuel\<close> bounds the number of descriptors.\<close>

primrec dev_walk :: "nat \<Rightarrow> descriptor list \<Rightarrow> nat \<Rightarrow> (nat \<times> nat \<times> bool) list option" where
  "dev_walk 0 ds i = None"
| "dev_walk (Suc fuel) ds i =
     (let d = ds ! i; e = (d_addr d, d_len d, contains (d_flags d) F_WRITE)
      in case desc_next d of None \<Rightarrow> Some [e] | Some j \<Rightarrow> map_option (Cons e) (dev_walk fuel ds j))"

definition dev_request :: "virtq \<Rightarrow> nat \<Rightarrow> (nat \<times> nat \<times> bool) list option" where
  "dev_request q tok =
     (if contains (d_flags (desc q ! tok)) F_INDIRECT
      then (case indirect_lists q ! tok of None \<Rightarrow> None | Some (la, ds) \<Rightarrow> dev_walk (length ds) ds 0)
      else dev_walk (vq_size q) (desc q) tok)"

definition device_view :: "nat list \<Rightarrow> (buf \<times> direction) list \<Rightarrow> (nat \<times> nat \<times> bool) list" where
  "device_view as bs = map2 (\<lambda>a (b, dir). (a, b_len b, dir = DeviceToDriver)) as bs"

lemma dev_walk_linked:
  "linked ds xs as bs False \<Longrightarrow> xs \<noteq> [] \<Longrightarrow> length xs \<le> fuel \<Longrightarrow> dev_walk fuel ds (hd xs) = Some (device_view as bs)"
proof (induction ds xs as bs False arbitrary: fuel rule: linked.induct)
  case (2 ds x xs a as b dir bs)
  obtain f where f: "fuel = Suc f" using "2.prems"(3) by (cases fuel) auto
  have e: "d_addr (ds ! x) = a" "d_len (ds ! x) = b_len b" "contains (d_flags (ds ! x)) F_WRITE = (dir = DeviceToDriver)"
    and nx: "desc_next (ds ! x) = (if xs = [] then None else Some (hd xs))"
    using "2.prems"(1) by (auto simp: describes_def desc_next_def)
  show ?case
  proof (cases "xs = []")
    case True
    then have "as = []" "bs = []" using "2.prems"(1) linked_length[of ds xs as bs False] by auto
    then show ?thesis using True e nx by (simp add: f device_view_def)
  next
    case False
    have "dev_walk f ds (hd xs) = Some (device_view as bs)"
      using "2.hyps"[of f] "2.prems" False f by simp
    then show ?thesis using False e nx by (simp add: f device_view_def)
  qed
qed simp_all

lemma request_device_view:
  assumes "table_ok share q fr rs" "r \<in> set rs"
  shows "dev_request q (hd (rq_chain r)) = Some (device_view (rq_addrs r) (rq_bufs r))"
proof -
  have r: "request_ok share q r" using assms by (simp add: table_ok_def)
  then have ne: "rq_chain r \<noteq> []" and d: "\<forall>i \<in> set (rq_chain r). desc q ! i = desc_shadow q ! i"
    by (auto simp: request_ok_def)
  show ?thesis
  proof (cases "rq_list r")
    case None
    then have l: "linked (desc q) (rq_chain r) (rq_addrs r) (rq_bufs r) False"
      using r linked_cong[of "rq_chain r" "desc q" "desc_shadow q"] d by (simp add: request_ok_def)
    have "\<not> contains (d_flags (desc q ! hd (rq_chain r))) F_INDIRECT"
      using l ne by (cases "rq_chain r"; cases "rq_addrs r"; cases "rq_bufs r") (auto simp: describes_def)
    moreover have "length (rq_chain r) \<le> vq_size q"
    proof -
      obtain rs1 rs2 where "rs = rs1 @ r # rs2" using assms(2) by (meson split_list)
      then show ?thesis using chain_le[of share q fr rs1 r rs2] assms(1) by simp
    qed
    ultimately show ?thesis using dev_walk_linked[OF l ne] by (simp add: dev_request_def)
  next
    case (Some l)
    then obtain la pa ds t where c: "rq_chain r = [t]" "indirect_lists q ! t = Some (la, ds)"
      "contains (d_flags (desc_shadow q ! t)) F_INDIRECT" "linked ds [0..<length ds] (rq_addrs r) (rq_bufs r) False"
      using r by (cases l) (auto simp: request_ok_def)
    have "ds \<noteq> []"
    proof
      assume "ds = []"
      then have "rq_bufs r = []" using linked_length[OF c(4)] by simp
      then show False using r by (simp add: request_ok_def)
    qed
    then have "dev_walk (length ds) ds 0 = Some (device_view (rq_addrs r) (rq_bufs r))"
      using dev_walk_linked[OF c(4)] by simp
    then show ?thesis using c(1-3) d by (simp add: dev_request_def)
  qed
qed

lemma device_view_tyn:
  "shared tyn_share as bs \<Longrightarrow> device_view as bs = map (\<lambda>(b, dir). (b_addr b, b_len b, dir = DeviceToDriver)) bs"
  unfolding shared_def device_view_def
  by (induction as bs rule: list_all2_induct) (auto simp: tyn_share_def)

lemma card_outstanding: "table_ok share q fr rs \<Longrightarrow> card (dom (outstanding rs)) = length rs"
proof -
  assume t: "table_ok share q fr rs"
  have "dom (outstanding rs) = set (map (\<lambda>r. hd (rq_chain r)) rs)"
    by (auto simp: outstanding_def dom_map_of_conv_image_fst image_iff)
  then show ?thesis using distinct_card[OF heads_distinct[OF t]] by simp
qed


subsection \<open>A queue of four descriptors\<close>

definition transport4 :: vq_transport where
  "transport4 = \<lparr>queue_used = (\<lambda>_. False), max_queue_size = (\<lambda>_. 4), requires_legacy_layout = False\<rparr>"

definition new4 :: "(vq_error + virtq \<times> nat \<times> nat \<times> nat) outcome" where
  "new4 = virtq_new (\<lambda>n dir. (8192, 8192)) transport4 4 0 False False"

abbreviation buf_in :: buf where
  "buf_in \<equiv> \<lparr>b_addr = 100, b_len = 10\<rparr>"

abbreviation buf_out :: buf where
  "buf_out \<equiv> \<lparr>b_addr = 200, b_len = 20\<rparr>"

lemma new4_ok: "\<exists>q areas. new4 = Done (Inr (q, areas)) \<and> available_desc q = 4"
  by (simp add: new4_def virtq_new_def transport4_def allocate_flexible_def queue_part_sizes_def is_power_of_two_def
      dma_new_def dma_at_def pages_def available_desc_def)

lemma new4_refines:
  assumes "new4 = Done (Inr (q, areas))"
  shows "vq_refines tyn_share q (\<lambda>_. None, [])"
proof -
  have "vq_inv tyn_share q [0..<4] [] []"
    by (rule virtq_new_ok[OF assms[unfolded new4_def], of 2]) simp_all
  then show ?thesis
    unfolding vq_refines_def by (intro exI[of _ "[0..<4]"] exI[of _ "[]"]) (simp add: outstanding_def fun_eq_iff)
qed

lemma result_Inr:
  assumes "\<exists>res q'. x = Done (res, q') \<and> (case res of Inl e \<Rightarrow> A e q' | Inr t \<Rightarrow> B t q')" "\<And>e q'. \<not> A e q'"
  shows "\<exists>t q'. x = Done (Inr t, q') \<and> B t q'"
proof -
  obtain res q' where r: "x = Done (res, q')" "case res of Inl e \<Rightarrow> A e q' | Inr t \<Rightarrow> B t q'" using assms(1) by blast
  then show ?thesis using assms(2) by (cases res) auto
qed

theorem virtq_refinement_witness:
  "\<exists>q areas tok q'. new4 = Done (Inr (q, areas)) \<and> vq_add tyn_share 0 [buf_in] [buf_out] q = Done (Inr tok, q') \<and>
     vq_refines tyn_share q' ((\<lambda>_. None)(tok := Some [(buf_in, DriverToDevice), (buf_out, DeviceToDriver)]), [tok])"
proof -
  obtain q areas where q: "new4 = Done (Inr (q, areas))" "available_desc q = 4" using new4_ok by blast
  have io: "io_list [buf_in] [buf_out] = [(buf_in, DriverToDevice), (buf_out, DeviceToDriver)]" by (simp add: io_list_def)
  have ref: "vq_refines tyn_share q (\<lambda>_. None, [])"
    using virtq_refinement[of "\<lambda>n dir. (8192, 8192)" transport4 4 0 False False q areas 2 tyn_share] q(1)[unfolded new4_def]
    by simp
  have bufs: "\<forall>bd \<in> set (io_list [buf_in] [buf_out]). buf_ok bd" by (simp add: io buf_ok_def)
  obtain tok q' where "vq_add tyn_share 0 [buf_in] [buf_out] q = Done (Inr tok, q')"
    "vq_refines tyn_share q' (abs_add tok (io_list [buf_in] [buf_out]) (\<lambda>_. None, []))"
    using result_Inr[OF virtq_refinement[THEN conjunct2, THEN conjunct1, THEN mp, OF conjI[OF ref bufs], of 0]] q(2)
    by auto
  then show ?thesis using q(1) unfolding abs_add_def io fst_conv snd_conv append_Nil by blast
qed


section \<open>Notifications\<close>

text \<open>When a notification is needed by the specification: the index passed the event index since \<open>old\<close>.\<close>

definition need_event :: "nat \<Rightarrow> nat \<Rightarrow> nat \<Rightarrow> bool" where
  "need_event event new old \<longleftrightarrow> (new + 131072 - event - 1) mod 65536 < (new + 65536 - old) mod 65536"

text \<open>After a single added request the driver notifies whenever the specification asks for it, also when the index
  wraps around. After several requests in a row it may miss a notification at the wrap.\<close>

theorem should_notify_single:
  assumes "event_idx q" "used_avail_event q < 65536" "avail_idx q < 65536"
    and "need_event (used_avail_event q) (avail_idx q) (dec16 (avail_idx q))"
  shows "should_notify q"
proof -
  let ?n = "avail_idx q" and ?e = "used_avail_event q"
  have "(?n + 65536 - dec16 ?n) mod 65536 = 1"
  proof (cases "?n = 0")
    case False
    then show ?thesis using dec16_pos[of ?n] assms(3) by simp
  qed (simp add: dec16_def)
  then have "(?n + 131072 - ?e - 1) mod 65536 = 0" using assms(4) by (simp add: need_event_def)
  then have "?n = (?e + 1) mod 65536" using assms(2,3) by (simp add: mod_if split: if_splits) arith
  then show ?thesis using assms(1) by (simp add: should_notify_def inc16_def)
qed

theorem should_notify_batch_missed:
  "need_event 65534 0 65534 \<and> \<not> should_notify (q\<lparr>event_idx := True, used_avail_event := 65534, avail_idx := 0\<rparr>)"
  by (simp add: need_event_def should_notify_def inc16_def)

section \<open>Memory layout\<close>

lemma virtio_align_up_gt: "n < virtio_align_up n" "4096 dvd virtio_align_up n"
  using align_down_gt[of 4096 "n + 4096"] by (simp_all add: virtio_align_up_def)

lemma pages_ge: "n \<le> pages n * 4096"
proof -
  have "n + 4095 = (n + 4095) div 4096 * 4096 + (n + 4095) mod 4096" by simp
  moreover have "(n + 4095) mod 4096 < 4096" by simp
  ultimately show ?thesis unfolding pages_def by linarith
qed

text \<open>The descriptor table, the available and the used ring lie in the allocated pages without overlap, and the used
  ring of the legacy layout starts on a page of its own.\<close>

theorem virtq_layout:
  "allocate_legacy alloc n = Done (Inr (Legacy r ao uo)) \<Longrightarrow>
     16 * n \<le> ao \<and> ao + 2 * (3 + n) \<le> uo \<and> 4096 dvd uo \<and> uo + (2 * 3 + 8 * n) \<le> dma_pages r * 4096"
  "allocate_flexible alloc n = Done (Inr (Modern r1 r2 ao)) \<Longrightarrow>
     16 * n \<le> ao \<and> ao + 2 * (3 + n) \<le> dma_pages r1 * 4096 \<and> 2 * 3 + 8 * n \<le> dma_pages r2 * 4096"
proof -
  let ?u = "virtio_align_up (16 * n + 2 * (3 + n))" and ?v = "virtio_align_up (2 * 3 + 8 * n)"
  assume a: "allocate_legacy alloc n = Done (Inr (Legacy r ao uo))"
  then have "ao = 16 * n" "uo = ?u" "dma_pages r = (?u + ?v) div 4096"
    by (auto simp: allocate_legacy_def queue_part_sizes_def dma_new_def split: if_splits prod.splits)
  moreover have "(?u + ?v) div 4096 * 4096 = ?u + ?v" using virtio_align_up_gt(2) by (intro dvd_div_mult_self dvd_add)
  ultimately show "16 * n \<le> ao \<and> ao + 2 * (3 + n) \<le> uo \<and> 4096 dvd uo \<and> uo + (2 * 3 + 8 * n) \<le> dma_pages r * 4096"
    using virtio_align_up_gt[of "16 * n + 2 * (3 + n)"] virtio_align_up_gt[of "2 * 3 + 8 * n"] by simp
next
  assume a: "allocate_flexible alloc n = Done (Inr (Modern r1 r2 ao))"
  then have "ao = 16 * n" "dma_pages r1 = pages (16 * n + 2 * (3 + n))" "dma_pages r2 = pages (2 * 3 + 8 * n)"
    by (auto simp: allocate_flexible_def queue_part_sizes_def dma_new_def split: if_splits prod.splits)
  then show "16 * n \<le> ao \<and> ao + 2 * (3 + n) \<le> dma_pages r1 * 4096 \<and> 2 * 3 + 8 * n \<le> dma_pages r2 * 4096"
    using pages_ge[of "16 * n + 2 * (3 + n)"] pages_ge[of "2 * 3 + 8 * n"] by simp
qed

end
