(* ===== verification/Owning.thy ===== *)
theory Owning
  imports Virtq_Props
begin

text \<open>
  Queues that own their buffers (\<open>virtio-drivers-patched/src/queue/owning.rs\<close>): every descriptor always holds
  its own buffer, which is given back to the device under the same token after it was handled. A buffer is
  the address of its allocation; the transport's notification is a result.
\<close>

section \<open>Operations\<close>

record owning =
  oq_queue :: virtq
  oq_buffers :: "nat list"
  oq_bufsize :: nat

definition owned_buf :: "nat \<Rightarrow> nat \<Rightarrow> buf" where
  "owned_buf n a = \<lparr>b_addr = a, b_len = n\<rparr>"

text \<open>\<open>addrs\<close> are the allocations still to be added, the next one under token \<open>i\<close>.\<close>

fun owning_fill :: "share_fn \<Rightarrow> nat \<Rightarrow> nat list \<Rightarrow> nat \<Rightarrow> virtq \<Rightarrow> (vq_error + virtq) outcome" where
  "owning_fill share n [] i q = Done (Inr q)"
| "owning_fill share n (a # addrs) i q =
     (case vq_add share 0 [] [owned_buf n a] q of
        Panic \<Rightarrow> Panic
      | Done (Inl e, q) \<Rightarrow> Done (Inl e)
      | Done (Inr token, q) \<Rightarrow> if i \<noteq> token then Panic else owning_fill share n addrs (i + 1) q)"

definition owning_new :: "share_fn \<Rightarrow> nat \<Rightarrow> nat list \<Rightarrow> virtq \<Rightarrow> (vq_error + owning) outcome" where
  "owning_new share n addrs q =
     map_outcome (map_sum id (\<lambda>q. \<lparr>oq_queue = q, oq_buffers = addrs, oq_bufsize = n\<rparr>)) (owning_fill share n addrs 0 q)"

definition add_buffer_to_queue :: "share_fn \<Rightarrow> nat \<Rightarrow> owning \<Rightarrow> ((vq_error + bool) \<times> owning) outcome" where
  "add_buffer_to_queue share index oq =
     (if \<not> index < length (oq_buffers oq) then Done (Inl WrongToken, oq)
      else
        case vq_add share 0 [] [owned_buf (oq_bufsize oq) (oq_buffers oq ! index)] (oq_queue oq) of
          Panic \<Rightarrow> Panic
        | Done (Inl e, q) \<Rightarrow> Done (Inl e, oq\<lparr>oq_queue := q\<rparr>)
        | Done (Inr new_token, q) \<Rightarrow>
            if new_token \<noteq> index then Panic else Done (Inr (should_notify q), oq\<lparr>oq_queue := q\<rparr>))"

text \<open>The buffer's used part and the token.\<close>

definition owning_pop :: "owning \<Rightarrow> ((vq_error + (buf \<times> nat) option) \<times> owning) outcome" where
  "owning_pop oq =
     (case peek_used (oq_queue oq) of
        None \<Rightarrow> Done (Inr None, oq)
      | Some token \<Rightarrow>
          if \<not> token < length (oq_buffers oq) then Panic
          else
            let buffer = owned_buf (oq_bufsize oq) (oq_buffers oq ! token)
            in case pop_used token [] [buffer] (oq_queue oq) of
                 Panic \<Rightarrow> Panic
               | Done (Inl e, q) \<Rightarrow> Done (Inl e, oq\<lparr>oq_queue := q\<rparr>)
               | Done (Inr len, q) \<Rightarrow>
                   if oq_bufsize oq < len then Panic
                   else Done (Inr (Some (owned_buf len (b_addr buffer), token)), oq\<lparr>oq_queue := q\<rparr>))"

definition owning_poll ::
  "share_fn \<Rightarrow> (buf \<Rightarrow> vq_error + 'a option) \<Rightarrow> owning \<Rightarrow> ((vq_error + 'a option) \<times> owning) outcome" where
  "owning_poll share handler oq =
     (case owning_pop oq of
        Panic \<Rightarrow> Panic
      | Done (Inl e, oq) \<Rightarrow> Done (Inl e, oq)
      | Done (Inr None, oq) \<Rightarrow> Done (Inr None, oq)
      | Done (Inr (Some (buffer, token)), oq) \<Rightarrow>
          (let result = handler buffer
           in case add_buffer_to_queue share token oq of
                Panic \<Rightarrow> Panic
              | Done (Inl e, oq) \<Rightarrow> Done (Inl e, oq)
              | Done (Inr _, oq) \<Rightarrow> Done (result, oq)))"

section \<open>Every token keeps its buffer\<close>

text \<open>The length the device reports with the next used element.\<close>

definition used_len :: "virtq \<Rightarrow> nat" where
  "used_len q = snd (used_ring q ! (last_used_idx q AND (vq_size q - 1)))"

definition owned :: "nat \<Rightarrow> nat list \<Rightarrow> nat \<Rightarrow> (buf \<times> direction) list option" where
  "owned n addrs i = (if i < length addrs then Some [(owned_buf n (addrs ! i), DeviceToDriver)] else None)"

definition oq_inv :: "share_fn \<Rightarrow> owning \<Rightarrow> bool" where
  "oq_inv share oq \<longleftrightarrow>
     length (oq_buffers oq) = vq_size (oq_queue oq) \<and> 0 < oq_bufsize oq \<and> oq_bufsize oq < 4294967296 \<and>
     (\<exists>rs added. vq_inv share (oq_queue oq) [] rs added \<and> outstanding rs = owned (oq_bufsize oq) (oq_buffers oq))"

lemma io_list_out: "io_list [] [b] = [(b, DeviceToDriver)]"
  by (simp add: io_list_def)

lemma head_in_range:
  assumes "table_ok share q fr rs" "r \<in> set rs"
  shows "hd (rq_chain r) < vq_size q \<and> hd (rq_chain r) \<notin> set fr \<and> hd (rq_chain r) \<in> set (rq_chain r)"
proof -
  have "rq_chain r \<noteq> []" using assms by (auto simp: table_ok_def request_ok_def)
  then have h: "hd (rq_chain r) \<in> set (rq_chain r)" by simp
  then have "hd (rq_chain r) \<in> set (concat (map rq_chain rs))" using assms(2) by auto
  then show ?thesis using assms(1) h by (auto simp: table_ok_def)
qed

text \<open>If every token below the size is outstanding, no descriptor is free.\<close>

lemma all_out:
  assumes "table_ok share q fr rs" "\<forall>i < vq_size q. outstanding rs i \<noteq> None"
  shows "fr = []"
proof (rule ccontr)
  assume "fr \<noteq> []"
  then obtain i where i: "i \<in> set fr" by (cases fr) auto
  then have "i < vq_size q" using assms(1) by (auto simp: table_ok_def)
  then obtain bufs where "outstanding rs i = Some bufs" using assms(2) by blast
  then obtain r where "r \<in> set rs" "hd (rq_chain r) = i" using outstanding_Some[OF assms(1)] by blast
  then show False using head_in_range[OF assms(1)] i by blast
qed

lemma poll_readd:
  assumes "vq_inv share q fr rs added" "fr \<noteq> []" "outstanding rs = (owned n addrs)(tok := None)"
    and "length addrs = vq_size q" "0 < n" "n < 4294967296" "tok < length addrs"
  shows "\<exists>q'. vq_add share 0 [] [owned_buf n (addrs ! tok)] q = Done (Inr tok, q') \<and> vq_size q' = vq_size q \<and>
    (\<exists>rs' added'. vq_inv share q' [] rs' added' \<and> outstanding rs' = owned n addrs)"
proof -
  let ?b = "owned_buf n (addrs ! tok)"
  have b: "\<forall>bd \<in> set (io_list [] [?b]). buf_ok bd" using assms(5,6) by (simp add: io_list_out buf_ok_def owned_buf_def)
  have sz: "0 < vq_size q" using assms(4,7) by simp
  have nf: "\<not> (length fr < (if indirect q then 1 else length [] + length [?b]) \<or> vq_size q < length [] + length [?b])"
    using assms(2) sz by (cases fr) auto
  from vq_add_ok[OF assms(1) b, of 0] nf obtain q' fr' r where q': "vq_add share 0 [] [?b] q = Done (Inr (hd (rq_chain r)), q')"
    "rq_bufs r = io_list [] [?b]" "vq_inv share q' fr' (r # rs) (added @ [hd (rq_chain r)])"
    and vs: "vq_size q' = vq_size q"
    by blast
  have t': "table_ok share q' fr' (r # rs)" using q'(3) by (simp add: vq_inv_def)
  have "outstanding rs (hd (rq_chain r)) = None"
    using heads_distinct[OF t'] by (auto simp: outstanding_def map_of_eq_None_iff image_iff)
  moreover have "hd (rq_chain r) < length addrs" using head_in_range[OF t', of r] vs assms(4) by simp
  ultimately have tok: "hd (rq_chain r) = tok" using assms(3) by (auto simp: owned_def split: if_splits)
  have out: "outstanding (r # rs) = owned n addrs"
    using assms(3,7) by (auto simp: outstanding_Cons tok q'(2) io_list_out owned_def)
  have "fr' = []" using out vs assms(4) by (intro all_out[OF t']) (simp add: owned_def)
  then show ?thesis using q'(1,3) out tok vs by blast
qed

text \<open>C13 A queue that owns its buffers survives every answer of the device. All tokens are outstanding, each with its
  own buffer. Polling returns nothing while the used ring is empty; it panics exactly when the device
  reports a token or a length out of range; otherwise the handler gets the reported part of the buffer of
  the reported token, its result is returned, and the buffer is given back to the device under the same
  token: the code's check of the token never fails, even if the device repeats tokens.\<close>

theorem owning_poll_safe:
  assumes "oq_inv share oq"
  shows "case peek_used (oq_queue oq) of
      None \<Rightarrow> owning_poll share handler oq = Done (Inr None, oq)
    | Some tok \<Rightarrow>
        (if tok < vq_size (oq_queue oq) \<and> used_len (oq_queue oq) \<le> oq_bufsize oq
         then \<exists>oq'. owning_poll share handler oq =
                Done (handler (owned_buf (used_len (oq_queue oq)) (oq_buffers oq ! tok)), oq') \<and>
              oq_inv share oq' \<and> oq_buffers oq' = oq_buffers oq
         else owning_poll share handler oq = Panic)"
proof (cases "peek_used (oq_queue oq)")
  case None
  then show ?thesis by (simp add: owning_poll_def owning_pop_def)
next
  case (Some tok)
  let ?q = "oq_queue oq" and ?n = "oq_bufsize oq"
  obtain rs added where inv: "vq_inv share ?q [] rs added" and out: "outstanding rs = owned ?n (oq_buffers oq)"
    and len: "length (oq_buffers oq) = vq_size ?q" and n: "0 < ?n" "?n < 4294967296"
    using assms by (auto simp: oq_inv_def)
  show ?thesis
  proof (cases "tok < vq_size ?q")
    case False
    then show ?thesis using Some len by (simp add: owning_poll_def owning_pop_def)
  next
    case True
    let ?b = "owned_buf ?n (oq_buffers oq ! tok)"
    have t: "table_ok share ?q [] rs" using inv by (simp add: vq_inv_def)
    have "outstanding rs tok = Some [(?b, DeviceToDriver)]" using True len by (simp add: out owned_def)
    then obtain r where r: "r \<in> set rs" "hd (rq_chain r) = tok" "rq_bufs r = io_list [] [?b]"
      using outstanding_Some[OF t] by (auto simp: io_list_out)
    then obtain rs1 rs2 where rs: "rs = rs1 @ r # rs2" by (meson split_list)
    obtain l q' where q': "pop_used tok [] [?b] ?q = Done (Inr l, q')" "vq_inv share q' (rq_chain r) (rs1 @ rs2) added"
      "vq_size q' = vq_size ?q"
      using pop_used_ok[OF inv[unfolded rs] r(3) r(2)[symmetric]] Some by auto
    have l: "l = used_len ?q" using q'(1) Some by (auto simp: pop_used_def used_len_def Let_def split: if_splits outcome.splits)
    have ne: "rq_chain r \<noteq> []" using t r(1) by (auto simp: table_ok_def request_ok_def)
    have out': "outstanding (rs1 @ rs2) = (owned ?n (oq_buffers oq))(tok := None)"
      using outstanding_remove[OF t[unfolded rs]] out r(2) by (simp add: rs)
    obtain q2 where q2: "vq_add share 0 [] [?b] q' = Done (Inr tok, q2)" "vq_size q2 = vq_size q'"
      "\<exists>rs' added'. vq_inv share q2 [] rs' added' \<and> outstanding rs' = owned ?n (oq_buffers oq)"
      using poll_readd[OF q'(2) ne out' _ n] len q'(3) True by auto
    have "oq_inv share (oq\<lparr>oq_queue := q2\<rparr>)" using q2(2,3) q'(3) len n by (simp add: oq_inv_def)
    then show ?thesis using Some True len q'(1) q2(1)
      by (auto simp: owning_poll_def owning_pop_def add_buffer_to_queue_def Let_def l owned_buf_def)
  qed
qed

section \<open>Construction\<close>

lemma single_chain:
  assumes "table_ok share q fr rs" "r \<in> set rs" "length (rq_bufs r) = 1"
  shows "\<exists>t. rq_chain r = [t]"
proof (cases "rq_list r")
  case None
  then have "linked (desc_shadow q) (rq_chain r) (rq_addrs r) (rq_bufs r) False"
    using assms(1,2) by (auto simp: table_ok_def request_ok_def)
  from linked_length[OF this] show ?thesis using assms(3) by (cases "rq_chain r") (auto simp: One_nat_def)
next
  case (Some l)
  have "request_ok share q r" using assms(1,2) by (simp add: table_ok_def)
  then show ?thesis using Some by (cases l) (auto simp: request_ok_def)
qed

lemma owning_fill_ok:
  assumes "vq_inv share q [i..<vq_size q] rs added" "i + length addrs = vq_size q" "0 < n" "n < 4294967296"
    and "outstanding rs = owned n pre" "length pre = i"
  shows "\<exists>q' rs' added'. owning_fill share n addrs i q = Done (Inr q') \<and> vq_size q' = vq_size q \<and>
    vq_inv share q' [] rs' added' \<and> outstanding rs' = owned n (pre @ addrs)"
  using assms
proof (induction addrs arbitrary: i q rs added pre)
  case Nil
  then show ?case by auto
next
  case (Cons a addrs)
  let ?b = "owned_buf n a" and ?fr = "[i..<vq_size q]"
  have b: "\<forall>bd \<in> set (io_list [] [?b]). buf_ok bd" using assms(3,4) by (simp add: io_list_out buf_ok_def owned_buf_def)
  have u: "?fr = i # [i + 1..<vq_size q]" using Cons.prems(2) by (simp add: upt_conv_Cons One_nat_def)
  have nf: "\<not> (length ?fr < (if indirect q then 1 else length [] + length [?b]) \<or> vq_size q < length [] + length [?b])"
    unfolding u using Cons.prems(2) by auto
  from vq_add_ok[OF Cons.prems(1) b, of 0] nf obtain q' fr' r where q': "vq_add share 0 [] [?b] q = Done (Inr (hd (rq_chain r)), q')"
    "rq_bufs r = io_list [] [?b]" "vq_inv share q' fr' (r # rs) (added @ [hd (rq_chain r)])"
    "vq_size q' = vq_size q" "rq_chain r @ fr' = ?fr"
    by blast
  have "table_ok share q' fr' (r # rs)" using q'(3) by (simp add: vq_inv_def)
  then obtain t where t: "rq_chain r = [t]" using single_chain[of share q' fr' "r # rs" r] q'(2) by (auto simp: io_list_out One_nat_def)
  have f: "t = i" "fr' = [i + 1..<vq_size q']" using q'(4,5) unfolding u t by auto
  have "outstanding (r # rs) = owned n (pre @ [a])"
    using Cons.prems(5,6) by (auto simp: outstanding_Cons t f q'(2) io_list_out owned_def nth_append less_Suc_eq)
  then obtain q2 rs' added' where IH: "owning_fill share n addrs (i + 1) q' = Done (Inr q2)" "vq_size q2 = vq_size q'"
    "vq_inv share q2 [] rs' added'" "outstanding rs' = owned n ((pre @ [a]) @ addrs)"
    using Cons.IH[of q' "i + 1" "r # rs" "added @ [hd (rq_chain r)]" "pre @ [a]"] q'(3,4) Cons.prems f by auto
  then show ?case using q'(1,4) by (auto simp: t f)
qed

lemma owning_new_ok:
  assumes "vq_inv share q [0..<vq_size q] [] []" "length addrs = vq_size q" "0 < n" "n < 4294967296"
  shows "\<exists>oq. owning_new share n addrs q = Done (Inr oq) \<and> oq_inv share oq \<and> oq_buffers oq = addrs \<and> oq_bufsize oq = n"
proof -
  obtain q' rs' added' where "owning_fill share n addrs 0 q = Done (Inr q')" "vq_size q' = vq_size q"
    "vq_inv share q' [] rs' added'" "outstanding rs' = owned n addrs"
    using owning_fill_ok[OF assms(1), of addrs n "[]"] assms(2-4) by (auto simp: outstanding_def owned_def fun_eq_iff)
  then show ?thesis using assms(2-4) by (auto simp: owning_new_def oq_inv_def)
qed

lemma oq_inv_device:
  assumes "oq_inv share oq" "length ring = vq_size (oq_queue oq)"
  shows "oq_inv share (oq\<lparr>oq_queue := device_write fl idx ring ev (oq_queue oq)\<rparr>)"
proof -
  obtain rs added where inv: "vq_inv share (oq_queue oq) [] rs added" and out: "outstanding rs = owned (oq_bufsize oq) (oq_buffers oq)"
    using assms by (auto simp: oq_inv_def)
  have "vq_inv share (device_write fl idx ring ev (oq_queue oq)) [] rs added" using inv assms(2) by (rule device_inv)
  then show ?thesis using assms out by (auto simp: oq_inv_def device_write_def)
qed

text \<open>Two buffers of sixteen bytes; the device returns the second one with five bytes written.\<close>

theorem owning_poll_safe_witness:
  "\<exists>q areas oq oq' oq''.
     virtq_new (\<lambda>n dir. (8192, 8192)) transport4 2 0 False False = Done (Inr (q, areas)) \<and>
     owning_new tyn_share 16 [1000, 2000] q = Done (Inr oq) \<and>
     oq' = oq\<lparr>oq_queue := device_write 0 (inc16 (last_used_idx (oq_queue oq))) [(1, 5), (1, 5)] 0 (oq_queue oq)\<rparr> \<and>
     owning_poll tyn_share (\<lambda>b. Inr (Some (b_addr b, b_len b))) oq' = Done (Inr (Some (2000, 5)), oq'') \<and>
     oq_inv tyn_share oq''"
proof -
  have "\<exists>q areas. virtq_new (\<lambda>n dir. (8192, 8192)) transport4 2 0 False False = Done (Inr (q, areas)) \<and>
      vq_size q = 2"
    by (simp add: virtq_new_def transport4_def allocate_flexible_def queue_part_sizes_def is_power_of_two_def
      dma_new_def dma_at_def pages_def)
  then obtain q areas where q: "virtq_new (\<lambda>n dir. (8192, 8192)) transport4 2 0 False False = Done (Inr (q, areas))"
    "vq_size q = 2" by blast
  have "vq_inv tyn_share q [0..<vq_size q] [] []" unfolding q(2) by (rule virtq_new_ok[OF q(1), of 1]) simp_all
  then obtain oq where oq: "owning_new tyn_share 16 [1000, 2000] q = Done (Inr oq)" "oq_inv tyn_share oq"
    "oq_buffers oq = [1000, 2000]" "oq_bufsize oq = 16"
    using owning_new_ok[of tyn_share q "[1000, 2000]" 16] q(2) by auto
  have vs: "vq_size (oq_queue oq) = 2" using oq(2,3) by (auto simp: oq_inv_def)
  let ?l = "last_used_idx (oq_queue oq)"
  let ?oq = "oq\<lparr>oq_queue := device_write 0 (inc16 ?l) [(1, 5), (1, 5)] 0 (oq_queue oq)\<rparr>"
  have "?l < 65536" "size_ok (oq_queue oq)" using oq(2) by (auto simp: oq_inv_def vq_inv_def ring_ok_def)
  then have lu: "inc16 ?l \<noteq> ?l" by (auto simp: inc16_def mod_Suc One_nat_def)
  have "?l mod 2 < 2" by simp
  then have slot: "[(1 :: nat, 5 :: nat), (1, 5)] ! (?l mod 2) = (1, 5)" by (cases "?l mod 2") (auto simp: less_Suc_eq)
  have inv: "oq_inv tyn_share ?oq" by (rule oq_inv_device[OF oq(2)]) (simp add: vs)
  have "peek_used (oq_queue ?oq) = Some 1" "used_len (oq_queue ?oq) = 5"
    using lu slot vs by (simp_all add: peek_used_def can_pop_def device_write_def used_len_def)
  then obtain oq'' where "owning_poll tyn_share (\<lambda>b. Inr (Some (b_addr b, b_len b))) ?oq = Done (Inr (Some (2000, 5)), oq'')"
    "oq_inv tyn_share oq''"
    using owning_poll_safe[OF inv, of "\<lambda>b. Inr (Some (b_addr b, b_len b))"] vs oq(3,4)
    by (auto simp: owned_buf_def device_write_def)
  then show ?thesis using q(1) oq(1) by blast
qed

end
