(* ===== verification/Spec2Isabelle.thy ===== *)
theory Spec2Isabelle
  imports Pipe Tmpfs_Props Vfs_Props Mmap_Props Sched_Wake Clock Elf Acpi Owning
begin

text \<open>Skeleton.\<close>

end
